(* ===== verification/Foundry_Prelude.thy ===== *)
theory Foundry_Prelude
  imports Main "HOL-Library.Word" "HOL-Library.AList" "HOL-Library.Monad_Syntax"
    "HOL-Library.Multiset"
begin

text \<open>
  What the component theories share: the machine types of the Rust sources, the arithmetic of
  its integer types, the containers of its standard library, and the generic lemmas on them.

  \<^item> A panic (a failed \<open>assert!\<close>, an \<open>expect\<close> on \<open>None\<close>, an arithmetic overflow in the checked
    profile) is \<open>None\<close>; an operation that may panic returns an \<open>option\<close>.
  \<^item> A \<open>Result\<close> is a sum, \<open>Inl\<close> the error.
  \<^item> A \<open>HashMap\<close> is an association list (keys distinct), a \<open>HashSet\<close> a distinct list. The order
    in which Rust iterates over either is unspecified; where a result depends on it, the
    operation takes the order as an argument (see the locale \<open>hash_order\<close>).
\<close>

section \<open>Machine types\<close>

type_synonym u8 = "8 word"
type_synonym u32 = "32 word"
type_synonym u64 = "64 word"
type_synonym u128 = "128 word"
type_synonym U256 = "256 word"
type_synonym B256 = "256 word"
type_synonym Address = "160 word"
type_synonym Bytes = "u8 list"

named_theorems arith_simps \<open>unsigned readings of the checked, saturating and wrapping operations\<close>
named_theorems cont_simps \<open>reading a container after an update\<close>

definition saturating_add :: "'a::len word \<Rightarrow> 'a word \<Rightarrow> 'a word" where
  "saturating_add a b = (if unat a + unat b < 2 ^ LENGTH('a) then a + b else - 1)"

definition saturating_sub :: "'a::len word \<Rightarrow> 'a word \<Rightarrow> 'a word" where
  "saturating_sub a b = (if b \<le> a then a - b else 0)"

definition checked_add :: "'a::len word \<Rightarrow> 'a word \<Rightarrow> 'a word option" where
  "checked_add a b = (if unat a + unat b < 2 ^ LENGTH('a) then Some (a + b) else None)"

definition checked_sub :: "'a::len word \<Rightarrow> 'a word \<Rightarrow> 'a word option" where
  "checked_sub a b = (if b \<le> a then Some (a - b) else None)"

definition saturating_mul :: "'a::len word \<Rightarrow> 'a word \<Rightarrow> 'a word" where
  "saturating_mul a b = (if unat a * unat b < 2 ^ LENGTH('a) then a * b else - 1)"

definition checked_mul :: "'a::len word \<Rightarrow> 'a word \<Rightarrow> 'a word option" where
  "checked_mul a b = (if unat a * unat b < 2 ^ LENGTH('a) then Some (a * b) else None)"

lemma unat_minus_one_eq: "unat (- 1 :: 'a::len word) = 2 ^ LENGTH('a) - 1"
  by (simp add: unsigned_minus_1_eq_mask mask_eq_exp_minus_1)

lemma unat_add_no_wrap:
  "unat a + unat b < 2 ^ LENGTH('a) \<Longrightarrow> unat (a + b) = unat a + unat (b :: 'a::len word)"
  by (simp add: unat_word_ariths)

lemma unat_Suc_less_iff: "unat w + 1 < 2 ^ LENGTH('a) \<longleftrightarrow> w \<noteq> - 1" for w :: "'a::len word"
proof -
  have "unat w + 1 < n \<longleftrightarrow> unat w \<noteq> n - 1" if "unat w < n" for n
    using that by linarith
  from this [of "2 ^ LENGTH('a)"] show ?thesis
    by (metis unat_minus_one_eq unsigned_less word_unat_eq_iff)
qed

lemma unat_add_less_of_uint: "uint w + int d < int n \<Longrightarrow> unat w + d < n"
  by (metis of_nat_add of_nat_less_iff uint_nat)

lemma unat_saturating_add [arith_simps]:
  "unat (saturating_add a b) = min (unat a + unat b) (2 ^ LENGTH('a) - 1)"
  for a b :: "'a::len word"
  by (auto simp: saturating_add_def unat_add_no_wrap unat_minus_one_eq min_def)

lemma saturating_add_ge: "a \<le> saturating_add a b"
  for a b :: "'a::len word"
proof -
  have "unat a < 2 ^ LENGTH('a)" by simp
  then have "unat a \<le> 2 ^ LENGTH('a) - 1" by linarith
  then show ?thesis by (simp add: word_le_nat_alt arith_simps)
qed

lemma unat_saturating_sub [arith_simps]: "unat (saturating_sub a b) = unat a - unat b"
  by (auto simp: saturating_sub_def unat_sub word_le_nat_alt)

lemma checked_add_Some [arith_simps]:
  "checked_add a b = Some c \<longleftrightarrow> unat a + unat b < 2 ^ LENGTH('a) \<and> c = a + b"
  for a b c :: "'a::len word"
  by (auto simp: checked_add_def)

lemma unat_mult_no_wrap:
  "unat a * unat b < 2 ^ LENGTH('a) \<Longrightarrow> unat (a * b) = unat a * unat (b :: 'a::len word)"
  by (simp add: unat_word_ariths)

lemma unat_ucast_up:
  assumes "LENGTH('a) \<le> LENGTH('b)"
  shows "unat (ucast w :: 'b::len word) = unat (w :: 'a::len word)"
proof -
  have "unat w < 2 ^ LENGTH('a)" by simp
  also have "\<dots> \<le> 2 ^ LENGTH('b)" using assms by simp
  finally show ?thesis by (simp add: unsigned_ucast_eq take_bit_nat_eq_self)
qed

lemma unat_saturating_mul [arith_simps]:
  "unat (saturating_mul a b) = min (unat a * unat b) (2 ^ LENGTH('a) - 1)"
  for a b :: "'a::len word"
proof (cases "unat a * unat b < 2 ^ LENGTH('a)")
  case True
  then have "unat a * unat b \<le> 2 ^ LENGTH('a) - 1" by linarith
  with True show ?thesis by (simp add: saturating_mul_def unat_mult_no_wrap min_absorb1)
next
  case False
  then have "2 ^ LENGTH('a) - 1 \<le> unat a * unat b" by linarith
  with False show ?thesis by (simp add: saturating_mul_def unat_minus_one_eq min_absorb2)
qed

lemma checked_mul_Some [arith_simps]:
  "checked_mul a b = Some c \<longleftrightarrow> unat a * unat b < 2 ^ LENGTH('a) \<and> c = a * b"
  for a b c :: "'a::len word"
  by (auto simp: checked_mul_def)

lemma checked_sub_Some [arith_simps]: "checked_sub a b = Some c \<longleftrightarrow> b \<le> a \<and> c = a - b"
  by (auto simp: checked_sub_def)

text \<open>The bounds are evaluated on integers, whose numerals are binary.\<close>

lemma unat_sum_less_iff: "unat a + unat b < 2 ^ LENGTH('a) \<longleftrightarrow> uint a + uint b < 2 ^ LENGTH('a)"
  for a b :: "'a::len word"
proof -
  have "int (unat a + unat b) < int (2 ^ LENGTH('a)) \<longleftrightarrow> uint a + uint b < 2 ^ LENGTH('a)"
    by simp
  then show ?thesis unfolding of_nat_less_iff .
qed

lemma checked_add_code [code]:
  "checked_add a b = (if uint a + uint b < 2 ^ LENGTH('a) then Some (a + b) else None)"
  for a b :: "'a::len word"
  unfolding checked_add_def unat_sum_less_iff ..

lemma saturating_add_code [code]:
  "saturating_add a b = (if uint a + uint b < 2 ^ LENGTH('a) then a + b else - 1)"
  for a b :: "'a::len word"
  unfolding saturating_add_def unat_sum_less_iff ..

lemma unat_prod_less_iff: "unat a * unat b < 2 ^ LENGTH('a) \<longleftrightarrow> uint a * uint b < 2 ^ LENGTH('a)"
  for a b :: "'a::len word"
proof -
  have "int (unat a * unat b) < int (2 ^ LENGTH('a)) \<longleftrightarrow> uint a * uint b < 2 ^ LENGTH('a)"
    by simp
  then show ?thesis unfolding of_nat_less_iff .
qed

lemma checked_mul_code [code]:
  "checked_mul a b = (if uint a * uint b < 2 ^ LENGTH('a) then Some (a * b) else None)"
  for a b :: "'a::len word"
  unfolding checked_mul_def unat_prod_less_iff ..

lemma saturating_mul_code [code]:
  "saturating_mul a b = (if uint a * uint b < 2 ^ LENGTH('a) then a * b else - 1)"
  for a b :: "'a::len word"
  unfolding saturating_mul_def unat_prod_less_iff ..

section \<open>Containers\<close>

type_synonym ('k, 'v) hmap = "('k \<times> 'v) list"

abbreviation hm_get :: "('k, 'v) hmap \<Rightarrow> 'k \<Rightarrow> 'v option" where
  "hm_get m \<equiv> map_of m"

abbreviation hm_insert :: "'k \<Rightarrow> 'v \<Rightarrow> ('k, 'v) hmap \<Rightarrow> ('k, 'v) hmap" where
  "hm_insert \<equiv> AList.update"

abbreviation hm_remove :: "'k \<Rightarrow> ('k, 'v) hmap \<Rightarrow> ('k, 'v) hmap" where
  "hm_remove \<equiv> AList.delete"

definition hm_contains :: "('k, 'v) hmap \<Rightarrow> 'k \<Rightarrow> bool" where
  "hm_contains m k = (map_of m k \<noteq> None)"

abbreviation hm_keys :: "('k, 'v) hmap \<Rightarrow> 'k list" where
  "hm_keys m \<equiv> map fst m"

definition hs_insert :: "'a \<Rightarrow> 'a list \<Rightarrow> 'a list" where
  "hs_insert x xs = (if x \<in> set xs then xs else xs @ [x])"

abbreviation hs_remove :: "'a \<Rightarrow> 'a list \<Rightarrow> 'a list" where
  "hs_remove \<equiv> removeAll"

definition hs_from :: "'a list \<Rightarrow> 'a list" where
  "hs_from xs = foldl (\<lambda>s x. hs_insert x s) [] xs"

lemma hm_contains_iff [cont_simps]: "hm_contains m k \<longleftrightarrow> k \<in> dom (hm_get m)"
  by (auto simp: hm_contains_def)

lemma hm_get_insert [cont_simps]: "hm_get (hm_insert k v m) = (hm_get m)(k \<mapsto> v)"
  by (rule update_conv')

lemma hm_get_remove [cont_simps]: "hm_get (hm_remove k m) = (hm_get m)(k := None)"
  by (rule delete_conv')

lemma length_hm_remove: "hm_get m k \<noteq> None \<Longrightarrow> length (hm_remove k m) < length m"
  by (induction m) (auto simp: le_imp_less_Suc length_delete_le)

lemma set_hs_insert [simp]: "set (hs_insert x xs) = insert x (set xs)"
  by (auto simp: hs_insert_def)

lemma distinct_hs_insert [simp]: "distinct (hs_insert x xs) = distinct xs"
  by (auto simp: hs_insert_def)

lemma hs_from_aux:
  "set (foldl (\<lambda>s x. hs_insert x s) acc xs) = set acc \<union> set xs \<and>
   (distinct acc \<longrightarrow> distinct (foldl (\<lambda>s x. hs_insert x s) acc xs))"
  by (induction xs arbitrary: acc) auto

lemma set_hs_from [simp]: "set (hs_from xs) = set xs"
  by (simp add: hs_from_def hs_from_aux)

lemma distinct_hs_from [simp]: "distinct (hs_from xs)"
  by (simp add: hs_from_def hs_from_aux)

lemma set_map_filter: "set (List.map_filter f xs) = {y. \<exists>x\<in>set xs. f x = Some y}"
  by (force simp: List.map_filter_def)

text \<open>\<open>Vec::swap_remove\<close>, \<open>Iterator::position\<close> and the removal of the first occurrence built
  from the two, as the pool does it.\<close>

fun position :: "('a \<Rightarrow> bool) \<Rightarrow> 'a list \<Rightarrow> nat option" where
  "position p [] = None"
| "position p (x # xs) = (if p x then Some 0 else map_option Suc (position p xs))"

definition swap_remove :: "nat \<Rightarrow> 'a list \<Rightarrow> 'a list" where
  "swap_remove i xs = butlast (xs[i := last xs])"

lemma position_None [simp]: "position p xs = None \<longleftrightarrow> (\<forall>x\<in>set xs. \<not> p x)"
  by (induction xs) auto

lemma position_Some:
  "position p xs = Some i \<Longrightarrow> i < length xs \<and> p (xs ! i) \<and> (\<forall>j<i. \<not> p (xs ! j))"
proof (induction xs arbitrary: i)
  case Nil
  then show ?case by simp
next
  case (Cons x xs)
  show ?case
  proof (cases "p x")
    case True
    with Cons.prems show ?thesis by simp
  next
    case False
    with Cons.prems obtain k where k: "position p xs = Some k" and i: "i = Suc k"
      by auto
    from Cons.IH [OF k] False i show ?thesis
      by (auto simp: less_Suc_eq_0_disj)
  qed
qed

lemma mset_swap_remove:
  assumes "i < length xs"
  shows "mset (swap_remove i xs) = mset xs - {#xs ! i#}"
proof -
  have ne: "xs \<noteq> []" using assms by auto
  let ?ys = "xs[i := last xs]"
  have last: "last ?ys = last xs"
    using ne by (cases "i = length xs - 1") (auto simp: last_list_update last_conv_nth)
  have "mset ?ys = add_mset (last ?ys) (mset (butlast ?ys))"
    using ne by (metis append_butlast_last_id list_update_nonempty mset_append mset.simps(2)
        add_mset_add_single mset.simps(1))
  moreover have "mset ?ys = add_mset (last xs) (mset xs - {#xs ! i#})"
    using assms by (simp add: mset_update)
  ultimately show ?thesis
    by (simp add: swap_remove_def last)
qed

lemma set_swap_remove_subset: "i < length xs \<Longrightarrow> set (swap_remove i xs) \<subseteq> set xs"
  by (metis diff_subset_eq_self mset_subset_eqD mset_swap_remove set_mset_mset subsetI)

section \<open>Iteration order\<close>

text \<open>
  \<open>HashSet\<close> and \<open>HashMap\<close> hand out their elements in an order the standard library leaves open.
  An operation whose result depends on it takes \<open>order\<close>, a function that permutes the stored
  elements, as its first argument.
\<close>

locale hash_order =
  fixes order :: "'a list \<Rightarrow> 'a list"
  assumes mset_order: "mset (order xs) = mset xs"
begin

lemma set_order: "set (order xs) = set xs"
  by (metis mset_order set_mset_mset)

lemma distinct_order: "distinct (order xs) = distinct xs"
  by (metis mset_eq_imp_distinct_iff mset_order)

lemma length_order: "length (order xs) = length xs"
  by (metis mset_order size_mset)

lemma order_Nil: "order [] = []"
  by (metis length_0_conv length_order)

end

text \<open>Two concrete orders, for evaluation: the elements as they were inserted, and reversed.\<close>

definition insertion_order :: "'a list \<Rightarrow> 'a list" where
  "insertion_order xs = xs"

definition reverse_order :: "'a list \<Rightarrow> 'a list" where
  "reverse_order xs = rev xs"

interpretation insertion: hash_order insertion_order
  by unfold_locales (simp add: insertion_order_def)

interpretation reversed: hash_order reverse_order
  by unfold_locales (simp add: reverse_order_def)

section \<open>Runs of a component\<close>

text \<open>
  A component is driven by a sequence of calls. \<open>step e s\<close> is one call: \<open>None\<close> when it panics,
  otherwise what it returns and the next state. \<open>run\<close> makes the calls in turn and collects what
  they return.
\<close>

fun run :: "('e \<Rightarrow> 's \<Rightarrow> ('o \<times> 's) option) \<Rightarrow> 'e list \<Rightarrow> 's \<Rightarrow> ('o list \<times> 's) option" where
  "run step [] s = Some ([], s)"
| "run step (e # es) s =
     (case step e s of None \<Rightarrow> None
      | Some (x, s') \<Rightarrow> (case run step es s' of None \<Rightarrow> None | Some (xs, s'') \<Rightarrow> Some (x # xs, s'')))"

text \<open>The contract of a component with an invariant that every call keeps.\<close>

locale invariant_machine =
  fixes step :: "'e \<Rightarrow> 's \<Rightarrow> ('o \<times> 's) option"
    and inv :: "'s \<Rightarrow> bool"
  assumes step_inv: "inv s \<Longrightarrow> step e s = Some (x, s') \<Longrightarrow> inv s'"
begin

lemma run_inv: "inv s \<Longrightarrow> run step es s = Some (xs, s') \<Longrightarrow> inv s'"
  by (induction es arbitrary: s xs) (auto split: option.splits, metis step_inv)

end

text \<open>The contract of a component that never panics under its invariant on the calls it may be
  given, for callers that make at most \<open>bound\<close> calls; the invariant may count them.\<close>

locale counted_machine =
  fixes step :: "'e \<Rightarrow> 's \<Rightarrow> ('o \<times> 's) option"
    and inv :: "nat \<Rightarrow> 's \<Rightarrow> bool"
    and allowed :: "'e \<Rightarrow> bool"
    and bound :: nat
  assumes step_safe: "inv n s \<Longrightarrow> allowed e \<Longrightarrow> n < bound \<Longrightarrow> \<exists>x s'. step e s = Some (x, s') \<and> inv (Suc n) s'"
begin

lemma run_counted:
  "inv n s \<Longrightarrow> list_all allowed es \<Longrightarrow> n + length es \<le> bound \<Longrightarrow>
   \<exists>xs s'. run step es s = Some (xs, s') \<and> inv (n + length es) s'"
proof (induction es arbitrary: s n)
  case Nil
  then show ?case by simp
next
  case (Cons e es)
  then obtain x t where t: "step e s = Some (x, t)" "inv (Suc n) t"
    using step_safe [of n s e] by auto
  with Cons.IH [OF t(2)] Cons.prems show ?case by auto
qed

end

text \<open>The contract without a count, which is the counted one for every bound.\<close>

locale safe_machine =
  fixes step :: "'e \<Rightarrow> 's \<Rightarrow> ('o \<times> 's) option"
    and inv :: "'s \<Rightarrow> bool"
    and allowed :: "'e \<Rightarrow> bool"
  assumes step_safe: "inv s \<Longrightarrow> allowed e \<Longrightarrow> \<exists>x s'. step e s = Some (x, s') \<and> inv s'"
begin

lemma run_safe:
  assumes "inv s" and "list_all allowed es"
  shows "\<exists>xs s'. run step es s = Some (xs, s') \<and> inv s'"
proof -
  have "counted_machine step (\<lambda>_. inv) allowed (length es)"
    by unfold_locales (rule step_safe)
  from counted_machine.run_counted [OF this, of s es 0] assms show ?thesis by simp
qed

end

end
