(* ===== verification/Anvil_TxEnv.thy ===== *)
theory Anvil_TxEnv
  imports Anvil_Tx
begin

text \<open>
  Two conversions of \<open>crates/anvil/core/src/eth/transaction/mod.rs\<close>: a pending transaction into the
  environment the EVM runs on (\<open>to_revm_tx_env\<close>), and an RPC request into a typed transaction
  (\<open>transaction_request_to_typed\<close>). A narrowing \<open>to::<u128>()\<close> of a value that does not fit panics
  (\<open>None\<close>). The deposit fields of a request are free-form JSON: for each of the three keys the model
  keeps whether it is present and, if so, what it deserialises to.
\<close>

section \<open>The environment of a transaction\<close>

record OptimismFields =
  op_source_hash :: "B256 option"
  op_mint :: "u128 option"
  op_is_system_transaction :: "bool option"
  op_enveloped_tx :: "Bytes option"

record TxEnv =
  env_caller :: Address
  env_gas_limit :: u64
  env_gas_price :: U256
  env_transact_to :: TxKind
  env_value :: U256
  env_data :: Bytes
  env_nonce :: "u64 option"
  env_chain_id :: "u64 option"
  env_access_list :: AccessList
  env_gas_priority_fee :: "U256 option"
  env_blob_hashes :: "B256 list"
  env_max_fee_per_blob_gas :: "U256 option"
  env_authorization_list :: "SignedAuthorization list option"
  env_optimism :: OptimismFields

definition default_optimism :: OptimismFields where
  "default_optimism = \<lparr>op_source_hash = None, op_mint = None, op_is_system_transaction = None,
     op_enveloped_tx = None\<rparr>"

definition default_TxEnv :: TxEnv where
  "default_TxEnv = \<lparr>env_caller = 0, env_gas_limit = - 1, env_gas_price = 0, env_transact_to = Call 0,
     env_value = 0, env_data = [], env_nonce = None, env_chain_id = None, env_access_list = [],
     env_gas_priority_fee = None, env_blob_hashes = [], env_max_fee_per_blob_gas = None,
     env_authorization_list = None, env_optimism = default_optimism\<rparr>"

definition to_u128 :: "U256 \<Rightarrow> u128 option" where
  "to_u128 w = (if w < 2 ^ 128 then Some (ucast w) else None)"

fun to_revm_tx_env :: "PendingTransaction \<Rightarrow> TxEnv option" where
  "to_revm_tx_env p =
     (case typed (transaction p) of
        Legacy s \<Rightarrow>
          (let t = stx s
           in Some (default_TxEnv\<lparr>env_caller := sender p, env_transact_to := legacy_to t,
                env_data := legacy_input t, env_chain_id := legacy_chain_id t,
                env_nonce := Some (legacy_nonce t), env_value := legacy_value t,
                env_gas_price := ucast (legacy_gas_price t), env_gas_priority_fee := None,
                env_gas_limit := legacy_gas_limit t, env_access_list := []\<rparr>))
      | EIP2930 s \<Rightarrow>
          (let t = stx s
           in Some (default_TxEnv\<lparr>env_caller := sender p, env_transact_to := eip2930_to t,
                env_data := eip2930_input t, env_chain_id := Some (eip2930_chain_id t),
                env_nonce := Some (eip2930_nonce t), env_value := eip2930_value t,
                env_gas_price := ucast (eip2930_gas_price t), env_gas_priority_fee := None,
                env_gas_limit := eip2930_gas_limit t, env_access_list := eip2930_access_list t\<rparr>))
      | EIP1559 s \<Rightarrow>
          (let t = stx s
           in Some (default_TxEnv\<lparr>env_caller := sender p, env_transact_to := eip1559_to t,
                env_data := eip1559_input t, env_chain_id := Some (eip1559_chain_id t),
                env_nonce := Some (eip1559_nonce t), env_value := eip1559_value t,
                env_gas_price := ucast (eip1559_max_fee t),
                env_gas_priority_fee := Some (ucast (eip1559_max_priority_fee t)),
                env_gas_limit := eip1559_gas_limit t, env_access_list := eip1559_access_list t\<rparr>))
      | EIP4844 s \<Rightarrow>
          (let t = variant_tx (stx s)
           in Some (default_TxEnv\<lparr>env_caller := sender p, env_transact_to := Call (eip4844_to t),
                env_data := eip4844_input t, env_chain_id := Some (eip4844_chain_id t),
                env_nonce := Some (eip4844_nonce t), env_value := eip4844_value t,
                env_gas_price := ucast (eip4844_max_fee t),
                env_gas_priority_fee := Some (ucast (eip4844_max_priority_fee t)),
                env_max_fee_per_blob_gas := Some (ucast (eip4844_max_fee_per_blob_gas t)),
                env_blob_hashes := eip4844_blob_versioned_hashes t,
                env_gas_limit := eip4844_gas_limit t, env_access_list := eip4844_access_list t\<rparr>))
      | EIP7702 s \<Rightarrow>
          (let t = stx s
           in Some (default_TxEnv\<lparr>env_caller := sender p, env_transact_to := Call (eip7702_to t),
                env_data := eip7702_input t, env_chain_id := Some (eip7702_chain_id t),
                env_nonce := Some (eip7702_nonce t), env_value := eip7702_value t,
                env_gas_price := ucast (eip7702_max_fee t),
                env_gas_priority_fee := Some (ucast (eip7702_max_priority_fee t)),
                env_gas_limit := eip7702_gas_limit t, env_access_list := eip7702_access_list t,
                env_authorization_list := Some (eip7702_authorization_list t)\<rparr>))
      | Deposit t \<Rightarrow>
          do {
            mint \<leftarrow> to_u128 (deposit_mint t);
            Some (default_TxEnv\<lparr>env_caller := sender p, env_transact_to := deposit_kind t,
                env_data := deposit_input t, env_chain_id := deposit_chain_id t,
                env_nonce := Some (deposit_nonce t), env_value := deposit_value t,
                env_gas_price := 0, env_gas_priority_fee := None,
                env_gas_limit := deposit_gas_limit t, env_access_list := [],
                env_optimism := \<lparr>op_source_hash = Some (deposit_source_hash t), op_mint = Some mint,
                  op_is_system_transaction = Some (deposit_is_system_tx t),
                  op_enveloped_tx = None\<rparr>\<rparr>)
          })"

section \<open>Requests\<close>

record TxDeposit =
  td_source_hash :: B256
  td_from :: Address
  td_to :: TxKind
  td_mint :: "u128 option"
  td_value :: U256
  td_gas_limit :: u64
  td_is_system_transaction :: bool
  td_input :: Bytes

datatype TypedTransactionRequest =
    LegacyRequest TxLegacy
  | EIP2930Request TxEip2930
  | EIP1559Request TxEip1559
  | EIP4844Request TxEip4844Variant
  | DepositRequest TxDeposit

record OtherFields =
  other_mint :: "U256 option option"
  other_source_hash :: "B256 option option"
  other_is_system_tx :: "bool option option"

record TransactionRequest =
  req_from :: "Address option"
  req_to :: "TxKind option"
  req_gas_price :: "u128 option"
  req_max_fee_per_gas :: "u128 option"
  req_max_priority_fee_per_gas :: "u128 option"
  req_max_fee_per_blob_gas :: "u128 option"
  req_blob_versioned_hashes :: "B256 list option"
  req_gas :: "u64 option"
  req_value :: "U256 option"
  req_input :: "Bytes option"
  req_nonce :: "u64 option"
  req_access_list :: "AccessList option"
  req_sidecar :: "BlobTransactionSidecar option"
  req_transaction_type :: "u8 option"

definition has_optimism_fields :: "OtherFields \<Rightarrow> bool" where
  "has_optimism_fields other \<longleftrightarrow>
     other_source_hash other \<noteq> None \<and> other_mint other \<noteq> None \<and> other_is_system_tx other \<noteq> None"

definition opt_or :: "'a \<Rightarrow> 'a option \<Rightarrow> 'a" where
  "opt_or d x = (case x of Some v \<Rightarrow> v | None \<Rightarrow> d)"

definition deposit_request ::
    "TransactionRequest \<Rightarrow> OtherFields \<Rightarrow> TypedTransactionRequest option option" where
  "deposit_request tx other =
     (case other_mint other of
        None \<Rightarrow> Some None
      | Some None \<Rightarrow> Some None
      | Some (Some m) \<Rightarrow>
          do {
            mint \<leftarrow> to_u128 m;
            Some (case (other_source_hash other, other_is_system_tx other) of
                    (Some (Some h), Some (Some sys)) \<Rightarrow>
                      Some (DepositRequest \<lparr>td_source_hash = h, td_from = opt_or 0 (req_from tx),
                        td_to = opt_or Create (req_to tx), td_mint = Some mint,
                        td_value = opt_or 0 (req_value tx), td_gas_limit = opt_or 0 (req_gas tx),
                        td_is_system_transaction = sys, td_input = opt_or [] (req_input tx)\<rparr>)
                  | _ \<Rightarrow> None)
          })"

definition legacy_of :: "TransactionRequest \<Rightarrow> TxLegacy" where
  "legacy_of tx = \<lparr>legacy_chain_id = None, legacy_nonce = opt_or 0 (req_nonce tx),
     legacy_gas_price = opt_or 0 (req_gas_price tx), legacy_gas_limit = opt_or 0 (req_gas tx),
     legacy_to = opt_or Create (req_to tx), legacy_value = opt_or 0 (req_value tx),
     legacy_input = opt_or [] (req_input tx)\<rparr>"

definition eip2930_of :: "TransactionRequest \<Rightarrow> TxEip2930" where
  "eip2930_of tx = \<lparr>eip2930_chain_id = 0, eip2930_nonce = opt_or 0 (req_nonce tx),
     eip2930_gas_price = opt_or 0 (req_gas_price tx), eip2930_gas_limit = opt_or 0 (req_gas tx),
     eip2930_to = opt_or Create (req_to tx), eip2930_value = opt_or 0 (req_value tx),
     eip2930_access_list = opt_or [] (req_access_list tx),
     eip2930_input = opt_or [] (req_input tx)\<rparr>"

definition eip1559_of :: "TransactionRequest \<Rightarrow> TxEip1559" where
  "eip1559_of tx = \<lparr>eip1559_chain_id = 0, eip1559_nonce = opt_or 0 (req_nonce tx),
     eip1559_gas_limit = opt_or 0 (req_gas tx), eip1559_max_fee = opt_or 0 (req_max_fee_per_gas tx),
     eip1559_max_priority_fee = opt_or 0 (req_max_priority_fee_per_gas tx),
     eip1559_to = opt_or Create (req_to tx), eip1559_value = opt_or 0 (req_value tx),
     eip1559_access_list = opt_or [] (req_access_list tx),
     eip1559_input = opt_or [] (req_input tx)\<rparr>"

definition eip4844_of :: "TransactionRequest \<Rightarrow> TxEip4844" where
  "eip4844_of tx = \<lparr>eip4844_chain_id = 0, eip4844_nonce = opt_or 0 (req_nonce tx),
     eip4844_gas_limit = opt_or 0 (req_gas tx), eip4844_max_fee = opt_or 0 (req_max_fee_per_gas tx),
     eip4844_max_priority_fee = opt_or 0 (req_max_priority_fee_per_gas tx),
     eip4844_to = (case opt_or Create (req_to tx) of Call a \<Rightarrow> a | Create \<Rightarrow> 0),
     eip4844_value = opt_or 0 (req_value tx),
     eip4844_access_list = opt_or [] (req_access_list tx),
     eip4844_blob_versioned_hashes = opt_or [] (req_blob_versioned_hashes tx),
     eip4844_max_fee_per_blob_gas = opt_or 0 (req_max_fee_per_blob_gas tx),
     eip4844_input = opt_or [] (req_input tx)\<rparr>"

text \<open>The guards of the arms of the match, in their order: a field is absent, present or not looked
  at.\<close>

definition legacy_arm :: "TransactionRequest \<Rightarrow> bool" where
  "legacy_arm tx \<longleftrightarrow>
     (req_transaction_type tx = Some 0 \<or> req_transaction_type tx = None \<and> req_gas_price tx \<noteq> None) \<and>
     req_max_fee_per_gas tx = None \<and> req_max_priority_fee_per_gas tx = None \<and>
     req_access_list tx = None \<and> req_max_fee_per_blob_gas tx = None \<and>
     req_blob_versioned_hashes tx = None \<and> req_sidecar tx = None"

definition eip2930_arm :: "TransactionRequest \<Rightarrow> bool" where
  "eip2930_arm tx \<longleftrightarrow>
     (req_transaction_type tx = Some 1 \<or> req_transaction_type tx = None \<and> req_access_list tx \<noteq> None) \<and>
     req_max_fee_per_gas tx = None \<and> req_max_priority_fee_per_gas tx = None \<and>
     req_max_fee_per_blob_gas tx = None \<and> req_blob_versioned_hashes tx = None \<and>
     req_sidecar tx = None"

definition eip1559_arm :: "TransactionRequest \<Rightarrow> bool" where
  "eip1559_arm tx \<longleftrightarrow>
     req_gas_price tx = None \<and> req_blob_versioned_hashes tx = None \<and> req_sidecar tx = None \<and>
     (req_transaction_type tx = Some 2 \<or>
      req_transaction_type tx = None \<and> req_max_fee_per_gas tx \<noteq> None \<or>
      req_transaction_type tx = None \<and> req_max_priority_fee_per_gas tx \<noteq> None \<or>
      req_transaction_type tx = None \<and> req_max_fee_per_gas tx = None \<and>
        req_max_priority_fee_per_gas tx = None \<and> req_access_list tx = None)"

definition transaction_request_to_typed ::
    "TransactionRequest \<Rightarrow> OtherFields \<Rightarrow> TypedTransactionRequest option option" where
  "transaction_request_to_typed tx other =
     (if req_transaction_type tx = Some 0x7E \<or> has_optimism_fields other
      then deposit_request tx other
      else Some
        (if legacy_arm tx then Some (LegacyRequest (legacy_of tx))
         else if eip2930_arm tx then Some (EIP2930Request (eip2930_of tx))
         else if eip1559_arm tx then Some (EIP1559Request (eip1559_of tx))
         else (case (req_transaction_type tx, req_gas_price tx, req_blob_versioned_hashes tx, req_sidecar tx) of
                 (Some ty, None, Some _, Some sidecar) \<Rightarrow>
                   if ty = 3 then Some (EIP4844Request (TxEip4844WithSidecar (eip4844_of tx) sidecar))
                   else None
               | _ \<Rightarrow> None)))"

section \<open>The environment says what the transaction says\<close>

text \<open>The environment written with the accessors of the transaction instead of its payload.\<close>

definition env_of_accessors :: "PendingTransaction \<Rightarrow> OptimismFields \<Rightarrow> TxEnv" where
  "env_of_accessors p op =
     (let tx = typed (transaction p); ess = essentials tx
      in \<lparr>env_caller = sender p, env_gas_limit = tx_gas_limit tx,
          env_gas_price = ucast (typed_gas_price tx), env_transact_to = tx_kind tx,
          env_value = tx_value tx, env_data = tx_data tx, env_nonce = Some (pending_nonce p),
          env_chain_id = tx_chain_id tx, env_access_list = ess_access_list ess,
          env_gas_priority_fee = map_option ucast (ess_max_priority_fee_per_gas ess),
          env_blob_hashes = opt_or [] (ess_blob_versioned_hashes ess),
          env_max_fee_per_blob_gas = map_option ucast (tx_max_fee_per_blob_gas tx),
          env_authorization_list =
            (case tx of EIP7702 t \<Rightarrow> Some (eip7702_authorization_list (stx t)) | _ \<Rightarrow> None),
          env_optimism = op\<rparr>)"

text \<open>The environment handed to the EVM carries exactly what the accessors of the transaction
  report: gas limit, fees, value, data, nonce, chain id, target and access list agree for all six
  transaction types. Building it panics in one case only, a deposit whose mint does not fit 128
  bits.\<close>

theorem tx_env_agrees:
  "to_revm_tx_env p =
     (case typed (transaction p) of
        Deposit t \<Rightarrow>
          (if deposit_mint t < 2 ^ 128
           then Some (env_of_accessors p
             \<lparr>op_source_hash = Some (deposit_source_hash t),
              op_mint = Some (ucast (deposit_mint t)),
              op_is_system_transaction = Some (deposit_is_system_tx t), op_enveloped_tx = None\<rparr>)
           else None)
      | _ \<Rightarrow> Some (env_of_accessors p default_optimism))"
  by (cases "typed (transaction p)")
    (simp_all add: env_of_accessors_def default_TxEnv_def Let_def opt_or_def pending_nonce_def to_u128_def)

section \<open>A request loses no fee\<close>

fun request_gas_price :: "TypedTransactionRequest \<Rightarrow> u128 option" where
  "request_gas_price (LegacyRequest t) = Some (legacy_gas_price t)"
| "request_gas_price (EIP2930Request t) = Some (eip2930_gas_price t)"
| "request_gas_price _ = None"

fun request_max_fee :: "TypedTransactionRequest \<Rightarrow> u128 option" where
  "request_max_fee (EIP1559Request t) = Some (eip1559_max_fee t)"
| "request_max_fee (EIP4844Request t) = Some (eip4844_max_fee (variant_tx t))"
| "request_max_fee _ = None"

fun request_priority_fee :: "TypedTransactionRequest \<Rightarrow> u128 option" where
  "request_priority_fee (EIP1559Request t) = Some (eip1559_max_priority_fee t)"
| "request_priority_fee (EIP4844Request t) = Some (eip4844_max_priority_fee (variant_tx t))"
| "request_priority_fee _ = None"

fun request_access_list :: "TypedTransactionRequest \<Rightarrow> AccessList option" where
  "request_access_list (EIP2930Request t) = Some (eip2930_access_list t)"
| "request_access_list (EIP1559Request t) = Some (eip1559_access_list t)"
| "request_access_list (EIP4844Request t) = Some (eip4844_access_list (variant_tx t))"
| "request_access_list _ = None"

fun request_blobs :: "TypedTransactionRequest \<Rightarrow> B256 list option" where
  "request_blobs (EIP4844Request t) = Some (eip4844_blob_versioned_hashes (variant_tx t))"
| "request_blobs _ = None"

fun request_type :: "TypedTransactionRequest \<Rightarrow> u8" where
  "request_type (LegacyRequest _) = 0"
| "request_type (EIP2930Request _) = 1"
| "request_type (EIP1559Request _) = 2"
| "request_type (EIP4844Request _) = 3"
| "request_type (DepositRequest _) = 0x7E"

definition carries :: "'a option \<Rightarrow> 'a option \<Rightarrow> bool" where
  "carries given got \<longleftrightarrow> (case given of None \<Rightarrow> True | Some v \<Rightarrow> got = Some v)"

lemmas arm_defs = legacy_arm_def eip2930_arm_def eip1559_arm_def
lemmas of_request_defs = legacy_of_def eip2930_of_def eip1559_of_def eip4844_of_def

lemma carries_simps [simp]:
  "carries None got" "carries (Some v) (Some w) \<longleftrightarrow> v = w" "carries given (Some (opt_or d given))"
  by (auto simp: carries_def opt_or_def split: option.splits)

text \<open>The arms of the match, as cases.\<close>

lemma typed_request_cases:
  assumes "transaction_request_to_typed tx other = Some (Some r)"
    and "req_transaction_type tx \<noteq> Some 0x7E" and "\<not> has_optimism_fields other"
  obtains (legacy) "legacy_arm tx" "r = LegacyRequest (legacy_of tx)"
  | (eip2930) "eip2930_arm tx" "r = EIP2930Request (eip2930_of tx)"
  | (eip1559) "eip1559_arm tx" "r = EIP1559Request (eip1559_of tx)"
  | (eip4844) sidecar where "req_transaction_type tx = Some 3" "req_gas_price tx = None"
      "r = EIP4844Request (TxEip4844WithSidecar (eip4844_of tx) sidecar)"
proof -
  from assms have eq: "(if legacy_arm tx then Some (LegacyRequest (legacy_of tx))
         else if eip2930_arm tx then Some (EIP2930Request (eip2930_of tx))
         else if eip1559_arm tx then Some (EIP1559Request (eip1559_of tx))
         else (case (req_transaction_type tx, req_gas_price tx, req_blob_versioned_hashes tx, req_sidecar tx) of
                 (Some ty, None, Some _, Some sidecar) \<Rightarrow>
                   if ty = 3 then Some (EIP4844Request (TxEip4844WithSidecar (eip4844_of tx) sidecar))
                   else None
               | _ \<Rightarrow> None)) = Some r"
    by (simp add: transaction_request_to_typed_def)
  show thesis
  proof (cases "legacy_arm tx \<or> eip2930_arm tx \<or> eip1559_arm tx")
    case True
    with eq legacy eip2930 eip1559 show thesis by (simp split: if_splits)
  next
    case False
    with eq eip4844 show thesis by (auto split: option.splits if_splits)
  qed
qed

lemma typed_request_fees:
  assumes "transaction_request_to_typed tx other = Some (Some r)"
    and "req_transaction_type tx \<noteq> Some 0x7E" and "\<not> has_optimism_fields other"
  shows "carries (req_gas_price tx) (request_gas_price r) \<and>
    carries (req_max_fee_per_gas tx) (request_max_fee r) \<and>
    carries (req_max_priority_fee_per_gas tx) (request_priority_fee r) \<and>
    carries (req_access_list tx) (request_access_list r) \<and>
    carries (req_blob_versioned_hashes tx) (request_blobs r) \<and>
    carries (req_transaction_type tx) (Some (request_type r))"
  using assms
proof (cases rule: typed_request_cases)
  case legacy
  then show ?thesis by (auto simp: legacy_arm_def legacy_of_def)
next
  case eip2930
  then show ?thesis by (auto simp: eip2930_arm_def eip2930_of_def)
next
  case eip1559
  then show ?thesis by (auto simp: eip1559_arm_def eip1559_of_def)
next
  case (eip4844 sidecar)
  then show ?thesis by (simp add: eip4844_of_def)
qed

text \<open>When a request that is not a deposit is accepted, nothing it says about fees is lost: the
  gas price, the fee caps, the access list and the blob hashes it gives are those of the typed
  transaction, and the transaction has the type it asks for.\<close>

theorem typed_request_keeps_fees:
  assumes "transaction_request_to_typed tx other = Some (Some r)"
    and "req_transaction_type tx \<noteq> Some 0x7E" and "\<not> has_optimism_fields other"
  shows "carries (req_gas_price tx) (request_gas_price r) \<and>
    carries (req_max_fee_per_gas tx) (request_max_fee r) \<and>
    carries (req_max_priority_fee_per_gas tx) (request_priority_fee r) \<and>
    carries (req_access_list tx) (request_access_list r) \<and>
    carries (req_blob_versioned_hashes tx) (request_blobs r) \<and>
    carries (req_transaction_type tx) (Some (request_type r))"
  using typed_request_fees [OF assms] by blast

definition sample_request :: TransactionRequest where
  "sample_request = \<lparr>req_from = None, req_to = Some (Call 5), req_gas_price = None,
     req_max_fee_per_gas = Some 30, req_max_priority_fee_per_gas = None,
     req_max_fee_per_blob_gas = Some 7, req_blob_versioned_hashes = None, req_gas = Some 21000,
     req_value = None, req_input = None, req_nonce = Some 4, req_access_list = Some [(9, [1])],
     req_sidecar = None, req_transaction_type = None\<rparr>"

definition no_other :: OtherFields where
  "no_other = \<lparr>other_mint = None, other_source_hash = None, other_is_system_tx = None\<rparr>"

theorem typed_request_keeps_fees_witness:
  "transaction_request_to_typed sample_request no_other =
     Some (Some (EIP1559Request (eip1559_of sample_request))) \<and>
   carries (req_max_fee_per_gas sample_request) (request_max_fee (EIP1559Request (eip1559_of sample_request)))"
proof
  show *: "transaction_request_to_typed sample_request no_other =
     Some (Some (EIP1559Request (eip1559_of sample_request)))"
    by code_simp
  show "carries (req_max_fee_per_gas sample_request) (request_max_fee (EIP1559Request (eip1559_of sample_request)))"
    by (rule typed_request_keeps_fees [OF *, THEN conjunct2, THEN conjunct1])
      (simp_all add: sample_request_def no_other_def has_optimism_fields_def)
qed

section \<open>The cost of a transaction\<close>

definition blob_cost :: "TypedTransaction \<Rightarrow> nat" where
  "blob_cost tx =
     (case tx of
        EIP4844 t \<Rightarrow> unat (payload_blob_gas (variant_tx (stx t))) *
                     unat (eip4844_max_fee_per_blob_gas (variant_tx (stx t)))
      | _ \<Rightarrow> 0)"

definition gas_cost :: "TypedTransaction \<Rightarrow> nat" where
  "gas_cost tx = unat (tx_gas_limit tx) * unat (typed_gas_price tx)"

lemma unat_ucast_u128 [simp]: "unat (ucast (w :: u64) :: u128) = unat w"
  by (rule unat_ucast_up) simp

lemma min_min_add: "min (min a m + b) m = min (a + b) (m :: nat)"
  by (simp add: min_def)

lemma max_cost_value:
  "map_option unat (max_cost tx) =
     (if blob_cost tx < 2 ^ 128 then Some (min (gas_cost tx + blob_cost tx) (2 ^ 128 - 1)) else None)"
proof (cases "is_eip4844 tx")
  case True
  then obtain t where tx: "tx = EIP4844 t" by (cases tx) auto
  show ?thesis
    by (simp add: tx max_cost_def Let_def blob_cost_def gas_cost_def checked_mul_def
        unat_saturating_add unat_saturating_mul unat_mult_no_wrap min_min_add)
next
  case False
  then have "blob_cost tx = 0" by (cases tx) (simp_all add: blob_cost_def)
  with False show ?thesis
    by (simp add: max_cost_def Let_def gas_cost_def unat_saturating_mul)
qed

text \<open>The cost a sender must be able to pay is the gas limit times the gas price plus, for a
  blob transaction, the blob gas times its price, and it saturates at 128 bits. Only the blob product
  is not guarded: the computation panics exactly when that product overflows.\<close>

theorem max_cost_exact:
  "map_option unat (max_cost tx) =
     (if blob_cost tx < 2 ^ 128 then Some (min (gas_cost tx + blob_cost tx) (2 ^ 128 - 1)) else None)"
  by (rule max_cost_value)


end
