(* ===== verification/Anvil_Block.thy ===== *)
theory Anvil_Block
  imports Anvil_TxEnv
begin

text \<open>
  Blocks, receipts and the environment of a block: \<open>crates/anvil/core/src/eth/block.rs\<close>, the receipt
  types of \<open>crates/anvil/core/src/eth/transaction/mod.rs\<close>, and the block and configuration
  environments of \<open>revm\<close> with the fields Anvil reads or writes. The hardfork identifiers are
  \<open>revm\<close>'s; the code only compares their numbers, which are an argument (\<open>spec_ids\<close>). Trie roots,
  the hash of a header and the bloom filter are arguments as well.
\<close>

section \<open>Hardforks and environments\<close>

record spec_ids =
  SPURIOUS_DRAGON :: u8
  BERLIN :: u8
  LONDON :: u8
  MERGE :: u8
  SHANGHAI :: u8
  CANCUN :: u8
  PRAGUE :: u8

record BlobExcessGasAndPrice =
  excess_blob_gas :: u64
  blob_gasprice :: u128

record BlockEnv =
  be_number :: U256
  be_coinbase :: Address
  be_timestamp :: U256
  be_gas_limit :: U256
  be_basefee :: U256
  be_difficulty :: U256
  be_prevrandao :: "B256 option"
  be_blob_excess :: "BlobExcessGasAndPrice option"

record CfgEnv =
  cfg_chain_id :: u64
  disable_block_gas_limit :: bool
  disable_eip3607 :: bool
  disable_base_fee :: bool

record EnvWithHandlerCfg =
  env_cfg :: CfgEnv
  env_block :: BlockEnv
  env_spec_id :: u8
  env_is_optimism :: bool

definition get_blob_excess_gas :: "BlockEnv \<Rightarrow> u64 option" where
  "get_blob_excess_gas b = map_option excess_blob_gas (be_blob_excess b)"

text \<open>The narrowing \<open>to::<u64>()\<close> of a 256-bit number.\<close>

definition to_u64 :: "U256 \<Rightarrow> u64 option" where
  "to_u64 w = (if w < 2 ^ 64 then Some (ucast w) else None)"

section \<open>Receipts\<close>

type_synonym Bloom = "2048 word"

record Log =
  log_address :: Address
  log_topics :: "B256 list"
  log_data :: Bytes

record ReceiptWithBloom =
  status :: bool
  cumulative_gas :: u64
  receipt_logs :: "Log list"
  receipt_bloom :: Bloom

datatype TypedReceipt =
    LegacyReceipt ReceiptWithBloom
  | EIP2930Receipt ReceiptWithBloom
  | EIP1559Receipt ReceiptWithBloom
  | EIP4844Receipt ReceiptWithBloom
  | EIP7702Receipt ReceiptWithBloom
  | DepositReceipt ReceiptWithBloom "u64 option" "u64 option"

fun as_receipt_with_bloom :: "TypedReceipt \<Rightarrow> ReceiptWithBloom" where
  "as_receipt_with_bloom (LegacyReceipt r) = r"
| "as_receipt_with_bloom (EIP2930Receipt r) = r"
| "as_receipt_with_bloom (EIP1559Receipt r) = r"
| "as_receipt_with_bloom (EIP4844Receipt r) = r"
| "as_receipt_with_bloom (EIP7702Receipt r) = r"
| "as_receipt_with_bloom (DepositReceipt r _ _) = r"

definition cumulative_gas_used :: "TypedReceipt \<Rightarrow> u64" where
  "cumulative_gas_used r = cumulative_gas (as_receipt_with_bloom r)"

definition typed_logs_bloom :: "TypedReceipt \<Rightarrow> Bloom" where
  "typed_logs_bloom r = receipt_bloom (as_receipt_with_bloom r)"

definition typed_logs :: "TypedReceipt \<Rightarrow> Log list" where
  "typed_logs r = receipt_logs (as_receipt_with_bloom r)"

section \<open>Headers and blocks\<close>

record Header =
  parent_hash :: B256
  ommers_hash :: B256
  beneficiary :: Address
  state_root :: B256
  transactions_root :: B256
  receipts_root :: B256
  logs_bloom :: Bloom
  difficulty :: U256
  number :: u64
  gas_limit :: u64
  gas_used :: u64
  timestamp :: u64
  extra_data :: Bytes
  mix_hash :: B256
  nonce :: u64
  base_fee_per_gas :: "u64 option"
  withdrawals_root :: "B256 option"
  h_blob_gas_used :: "u64 option"
  h_excess_blob_gas :: "u64 option"
  parent_beacon_block_root :: "B256 option"
  requests_hash :: "B256 option"

record PartialHeader =
  ph_parent_hash :: B256
  ph_beneficiary :: Address
  ph_state_root :: B256
  ph_receipts_root :: B256
  ph_logs_bloom :: Bloom
  ph_difficulty :: U256
  ph_number :: u64
  ph_gas_limit :: u64
  ph_gas_used :: u64
  ph_timestamp :: u64
  ph_extra_data :: Bytes
  ph_mix_hash :: B256
  ph_blob_gas_used :: "u64 option"
  ph_excess_blob_gas :: "u64 option"
  ph_parent_beacon_block_root :: "B256 option"
  ph_nonce :: u64
  ph_base_fee :: "u64 option"
  ph_withdrawals_root :: "B256 option"
  ph_requests_hash :: "B256 option"

record Block =
  header :: Header
  transactions :: "MaybeImpersonatedTransaction list"
  ommers :: "Header list"

text \<open>What blocks need of hashing: the trie roots of a list of transactions and of a list of
  receipts, the hash of a header, the constants for empty lists, and the bloom filter (\<open>accrue\<close> adds
  an item, \<open>bloom_slow\<close> is the filter of a list of logs).\<close>

record chain_hashing =
  transactions_trie :: "MaybeImpersonatedTransaction list \<Rightarrow> B256"
  receipts_trie :: "TypedReceipt list \<Rightarrow> B256"
  hash_slow :: "Header \<Rightarrow> B256"
  EMPTY_OMMER_ROOT_HASH :: B256
  EMPTY_WITHDRAWALS :: B256
  EMPTY_REQUESTS_HASH :: B256
  accrue :: "u8 list \<Rightarrow> Bloom \<Rightarrow> Bloom"
  bloom_slow :: "Log list \<Rightarrow> Bloom"

definition default_PartialHeader :: PartialHeader where
  "default_PartialHeader = \<lparr>ph_parent_hash = 0, ph_beneficiary = 0, ph_state_root = 0,
     ph_receipts_root = 0, ph_logs_bloom = 0, ph_difficulty = 0, ph_number = 0, ph_gas_limit = 0,
     ph_gas_used = 0, ph_timestamp = 0, ph_extra_data = [], ph_mix_hash = 0,
     ph_blob_gas_used = None, ph_excess_blob_gas = None, ph_parent_beacon_block_root = None,
     ph_nonce = 0, ph_base_fee = None, ph_withdrawals_root = None, ph_requests_hash = None\<rparr>"

definition new_Block ::
    "chain_hashing \<Rightarrow> PartialHeader \<Rightarrow> MaybeImpersonatedTransaction list \<Rightarrow> Block" where
  "new_Block hs ph txs =
     \<lparr>header =
       \<lparr>parent_hash = ph_parent_hash ph, ommers_hash = EMPTY_OMMER_ROOT_HASH hs,
        beneficiary = ph_beneficiary ph, state_root = ph_state_root ph,
        transactions_root = transactions_trie hs txs, receipts_root = ph_receipts_root ph,
        logs_bloom = ph_logs_bloom ph, difficulty = ph_difficulty ph, number = ph_number ph,
        gas_limit = ph_gas_limit ph, gas_used = ph_gas_used ph, timestamp = ph_timestamp ph,
        extra_data = ph_extra_data ph, mix_hash = ph_mix_hash ph, nonce = ph_nonce ph,
        base_fee_per_gas = ph_base_fee ph, withdrawals_root = ph_withdrawals_root ph,
        h_blob_gas_used = ph_blob_gas_used ph, h_excess_blob_gas = ph_excess_blob_gas ph,
        parent_beacon_block_root = ph_parent_beacon_block_root ph,
        requests_hash = ph_requests_hash ph\<rparr>,
      transactions = txs, ommers = []\<rparr>"

definition PartialHeader_from :: "Header \<Rightarrow> PartialHeader" where
  "PartialHeader_from h =
     \<lparr>ph_parent_hash = parent_hash h, ph_beneficiary = beneficiary h, ph_state_root = state_root h,
      ph_receipts_root = receipts_root h, ph_logs_bloom = logs_bloom h, ph_difficulty = difficulty h,
      ph_number = number h, ph_gas_limit = gas_limit h, ph_gas_used = gas_used h,
      ph_timestamp = timestamp h, ph_extra_data = extra_data h, ph_mix_hash = mix_hash h,
      ph_blob_gas_used = h_blob_gas_used h, ph_excess_blob_gas = h_excess_blob_gas h,
      ph_parent_beacon_block_root = parent_beacon_block_root h, ph_nonce = nonce h,
      ph_base_fee = base_fee_per_gas h, ph_withdrawals_root = withdrawals_root h,
      ph_requests_hash = requests_hash h\<rparr>"

lemma PartialHeader_round_trip [simp]: "PartialHeader_from (header (new_Block hs ph txs)) = ph"
  by (simp add: PartialHeader_from_def new_Block_def)

lemma new_Block_simps [simp]:
  "transactions (new_Block hs ph txs) = txs"
  "number (header (new_Block hs ph txs)) = ph_number ph"
  "parent_hash (header (new_Block hs ph txs)) = ph_parent_hash ph"
  "timestamp (header (new_Block hs ph txs)) = ph_timestamp ph"
  "gas_used (header (new_Block hs ph txs)) = ph_gas_used ph"
  "gas_limit (header (new_Block hs ph txs)) = ph_gas_limit ph"
  "difficulty (header (new_Block hs ph txs)) = ph_difficulty ph"
  "base_fee_per_gas (header (new_Block hs ph txs)) = ph_base_fee ph"
  "h_blob_gas_used (header (new_Block hs ph txs)) = ph_blob_gas_used ph"
  "h_excess_blob_gas (header (new_Block hs ph txs)) = ph_excess_blob_gas ph"
  by (simp_all add: new_Block_def)

section \<open>The outcome of a block\<close>

text \<open>The result codes of the interpreter are read as numbers; the nodes of a call trace are a type
  parameter, since nothing here looks into them.\<close>

type_synonym InstructionResult = u8

record 'n TransactionInfo =
  transaction_hash :: B256
  transaction_index :: u64
  info_from :: Address
  info_to :: "Address option"
  contract_address :: "Address option"
  traces :: "'n list"
  exit :: InstructionResult
  info_out :: "Bytes option"
  info_nonce :: u64
  info_gas_used :: u64

record 'n BlockInfo =
  bi_block :: Block
  bi_transactions :: "'n TransactionInfo list"
  bi_receipts :: "TypedReceipt list"

end
