(* ===== verification/Anvil_Fees.thy ===== *)
theory Anvil_Fees
  imports Anvil_Block
begin

text \<open>
  Fees in Anvil: \<open>crates/anvil/src/eth/fees.rs\<close> (the fee manager, the fee history cache and its
  service, the fee fields of a request) and the two handlers of \<open>crates/anvil/src/eth/api.rs\<close> that
  read the cache (\<open>fee_history\<close>, \<open>lowest_suggestion_tip\<close>). The consensus formulas for the next base
  fee and the blob fees belong to \<open>alloy\<close> and are an argument (\<open>fee_calc\<close>), as is the arithmetic of
  \<open>f64\<close> (\<open>float_ops\<close>, where \<open>f_lit a b\<close> is the literal for a / b). The cache is a \<open>BTreeMap\<close> of which only lookups, insertions, removals and the
  minimum over its values are used, so an association list is enough.
\<close>

section \<open>The fee manager\<close>

definition MAX_FEE_HISTORY_CACHE_SIZE :: u64 where
  "MAX_FEE_HISTORY_CACHE_SIZE = 2048"

definition MIN_SUGGESTED_PRIORITY_FEE :: u128 where
  "MIN_SUGGESTED_PRIORITY_FEE = 1000000000"

record fee_calc =
  calc_next_block_base_fee :: "u64 \<Rightarrow> u64 \<Rightarrow> u64 \<Rightarrow> u64"
  calc_blob_gasprice :: "u64 \<Rightarrow> u128"
  calc_excess_blob_gas :: "u64 \<Rightarrow> u64 \<Rightarrow> u64"
  header_blob_fee :: "Header \<Rightarrow> u128 option"
  elasticity_multiplier :: u64

record 'f float_ops =
  f_of_u64 :: "u64 \<Rightarrow> 'f"
  f_lit :: "nat \<Rightarrow> nat \<Rightarrow> 'f"
  f_add :: "'f \<Rightarrow> 'f \<Rightarrow> 'f"
  f_mul :: "'f \<Rightarrow> 'f \<Rightarrow> 'f"
  f_div :: "'f \<Rightarrow> 'f \<Rightarrow> 'f"
  f_clamp :: "'f \<Rightarrow> 'f \<Rightarrow> 'f \<Rightarrow> 'f"
  f_round :: "'f \<Rightarrow> 'f"
  f_as_u64 :: "'f \<Rightarrow> u64"
  f_as_usize :: "'f \<Rightarrow> nat"

definition default_elasticity :: "'f float_ops \<Rightarrow> fee_calc \<Rightarrow> 'f" where
  "default_elasticity fo fc = f_div fo (f_lit fo 1 1) (f_of_u64 fo (elasticity_multiplier fc))"

record 'f FeeManager =
  fm_spec_id :: u8
  fm_base_fee :: u64
  fm_is_min_priority_fee_enforced :: bool
  fm_blob_excess_gas_and_price :: BlobExcessGasAndPrice
  fm_gas_price :: u128
  fm_elasticity :: 'f

definition new_FeeManager ::
    "'f float_ops \<Rightarrow> fee_calc \<Rightarrow> u8 \<Rightarrow> u64 \<Rightarrow> bool \<Rightarrow> u128 \<Rightarrow> BlobExcessGasAndPrice \<Rightarrow> 'f FeeManager" where
  "new_FeeManager fo fc spec_id base_fee enforced gas_price blob =
     \<lparr>fm_spec_id = spec_id, fm_base_fee = base_fee, fm_is_min_priority_fee_enforced = enforced,
      fm_blob_excess_gas_and_price = blob, fm_gas_price = gas_price,
      fm_elasticity = default_elasticity fo fc\<rparr>"

definition fees_is_eip1559 :: "spec_ids \<Rightarrow> 'f FeeManager \<Rightarrow> bool" where
  "fees_is_eip1559 ids fm = (LONDON ids \<le> fm_spec_id fm)"

definition fees_is_eip4844 :: "spec_ids \<Rightarrow> 'f FeeManager \<Rightarrow> bool" where
  "fees_is_eip4844 ids fm = (CANCUN ids \<le> fm_spec_id fm)"

definition base_fee_per_blob_gas :: "spec_ids \<Rightarrow> 'f FeeManager \<Rightarrow> u128" where
  "base_fee_per_blob_gas ids fm =
     (if fees_is_eip4844 ids fm then blob_gasprice (fm_blob_excess_gas_and_price fm) else 0)"

definition blob_gas_price :: "spec_ids \<Rightarrow> 'f FeeManager \<Rightarrow> u128" where
  "blob_gas_price ids fm = (if fees_is_eip4844 ids fm then base_fee_per_blob_gas ids fm else 0)"

definition base_fee :: "spec_ids \<Rightarrow> 'f FeeManager \<Rightarrow> u64" where
  "base_fee ids fm = (if fees_is_eip1559 ids fm then fm_base_fee fm else 0)"

definition raw_gas_price :: "'f FeeManager \<Rightarrow> u128" where
  "raw_gas_price fm = fm_gas_price fm"

definition excess_blob_gas_and_price :: "spec_ids \<Rightarrow> 'f FeeManager \<Rightarrow> BlobExcessGasAndPrice option" where
  "excess_blob_gas_and_price ids fm =
     (if fees_is_eip4844 ids fm then Some (fm_blob_excess_gas_and_price fm) else None)"

definition set_gas_price :: "u128 \<Rightarrow> 'f FeeManager \<Rightarrow> 'f FeeManager" where
  "set_gas_price price fm = fm\<lparr>fm_gas_price := price\<rparr>"

definition set_base_fee :: "u64 \<Rightarrow> 'f FeeManager \<Rightarrow> 'f FeeManager" where
  "set_base_fee fee fm = fm\<lparr>fm_base_fee := fee\<rparr>"

definition set_blob_excess_gas_and_price :: "BlobExcessGasAndPrice \<Rightarrow> 'f FeeManager \<Rightarrow> 'f FeeManager" where
  "set_blob_excess_gas_and_price blob fm = fm\<lparr>fm_blob_excess_gas_and_price := blob\<rparr>"

definition calculate_next_block_base_fee :: "fee_calc \<Rightarrow> u128 \<Rightarrow> u128 \<Rightarrow> u64 \<Rightarrow> u64" where
  "calculate_next_block_base_fee fc used limit fee =
     calc_next_block_base_fee fc (ucast used) (ucast limit) fee"

definition get_next_block_base_fee_per_gas ::
    "fee_calc \<Rightarrow> spec_ids \<Rightarrow> u128 \<Rightarrow> u128 \<Rightarrow> u64 \<Rightarrow> 'f FeeManager \<Rightarrow> u64" where
  "get_next_block_base_fee_per_gas fc ids used limit last_fee fm =
     (if base_fee ids fm = 0 then 0 else calculate_next_block_base_fee fc used limit last_fee)"

definition get_next_block_blob_base_fee_per_gas :: "fee_calc \<Rightarrow> u128 \<Rightarrow> u128" where
  "get_next_block_blob_base_fee_per_gas fc excess = calc_blob_gasprice fc (ucast excess)"

definition get_next_block_blob_excess_gas :: "fee_calc \<Rightarrow> u128 \<Rightarrow> u128 \<Rightarrow> u64" where
  "get_next_block_blob_excess_gas fc used excess = calc_excess_blob_gas fc (ucast used) (ucast excess)"

section \<open>The fee history cache\<close>

record 'f FeeHistoryCacheItem =
  item_base_fee :: u128
  item_gas_used_ratio :: 'f
  item_base_fee_per_blob_gas :: "u128 option"
  item_blob_gas_used_ratio :: 'f
  item_excess_blob_gas :: "u128 option"
  item_blob_gas_used :: "u128 option"
  item_rewards :: "u128 list"

type_synonym 'f FeeHistoryCache = "(u64, 'f FeeHistoryCacheItem) hmap"

definition MAX_DATA_GAS_PER_BLOCK :: u64 where
  "MAX_DATA_GAS_PER_BLOCK = 786432"

text \<open>What the sender of a transaction pays on top of the base fee.\<close>

fun effective_reward :: "u128 \<Rightarrow> TypedTransaction option \<Rightarrow> u128" where
  "effective_reward fee (Some (Legacy t)) = saturating_sub (legacy_gas_price (stx t)) fee"
| "effective_reward fee (Some (EIP2930 t)) = saturating_sub (eip2930_gas_price (stx t)) fee"
| "effective_reward fee (Some (EIP1559 t)) =
     min (eip1559_max_priority_fee (stx t)) (saturating_sub (eip1559_max_fee (stx t)) fee)"
| "effective_reward fee (Some (EIP4844 t)) =
     min (eip4844_max_priority_fee (variant_tx (stx t)))
       (saturating_sub (eip4844_max_fee (variant_tx (stx t))) fee)"
| "effective_reward fee (Some (EIP7702 t)) =
     min (eip7702_max_priority_fee (stx t)) (saturating_sub (eip7702_max_fee (stx t)) fee)"
| "effective_reward fee (Some (Deposit t)) = 0"
| "effective_reward fee None = 0"

definition nth_opt :: "'a list \<Rightarrow> nat \<Rightarrow> 'a option" where
  "nth_opt xs i = (if i < length xs then Some (xs ! i) else None)"

definition gas_and_rewards :: "u128 \<Rightarrow> Block \<Rightarrow> TypedReceipt list \<Rightarrow> (u64 \<times> u128) list" where
  "gas_and_rewards fee block receipts =
     map (\<lambda>(i, r). (cumulative_gas_used r,
             effective_reward fee (map_option typed (nth_opt (transactions block) i))))
       (List.enumerate 0 receipts)"

text \<open>The loop over the sorted transactions for one percentile. The sum is a checked addition.\<close>

fun reward_at :: "u64 \<Rightarrow> u64 \<Rightarrow> (u64 \<times> u128) list \<Rightarrow> u128 option option" where
  "reward_at target acc [] = Some None"
| "reward_at target acc ((gas, reward) # txs) =
     do {
       acc' \<leftarrow> checked_add acc gas;
       if target \<le> acc' then Some (Some reward) else reward_at target acc' txs
     }"

primrec percentiles :: "'f float_ops \<Rightarrow> nat \<Rightarrow> 'f \<Rightarrow> 'f list" where
  "percentiles fo 0 p = []"
| "percentiles fo (Suc n) p = p # percentiles fo n (f_add fo p (f_lit fo 1 2))"

definition target_gas :: "'f float_ops \<Rightarrow> 'f \<Rightarrow> 'f \<Rightarrow> u64" where
  "target_gas fo gas p = f_as_u64 fo (f_div fo (f_mul fo p gas) (f_lit fo 100 1))"

fun filter_rewards :: "u64 list \<Rightarrow> (u64 \<times> u128) list \<Rightarrow> u128 list option" where
  "filter_rewards [] txs = Some []"
| "filter_rewards (t # ts) txs =
     do {
       r \<leftarrow> reward_at t 0 txs;
       rs \<leftarrow> filter_rewards ts txs;
       Some (case r of Some x \<Rightarrow> x # rs | None \<Rightarrow> rs)
     }"

definition create_cache_entry ::
    "'f float_ops \<Rightarrow> fee_calc \<Rightarrow> (B256 \<Rightarrow> Block option) \<Rightarrow> (B256 \<Rightarrow> TypedReceipt list option) \<Rightarrow>
     B256 \<Rightarrow> Header \<Rightarrow> ('f FeeHistoryCacheItem \<times> u64 option) option" where
  "create_cache_entry fo fc block_of receipts_of hash h =
     (let reward_percentiles = percentiles fo 201 (f_lit fo 0 1);
          fee = (case base_fee_per_gas h of Some g \<Rightarrow> ucast g | None \<Rightarrow> 0);
          item = \<lparr>item_base_fee = fee, item_gas_used_ratio = f_lit fo 0 1,
                  item_base_fee_per_blob_gas = header_blob_fee fc h,
                  item_blob_gas_used_ratio = f_lit fo 0 1,
                  item_excess_blob_gas = map_option ucast (h_excess_blob_gas h),
                  item_blob_gas_used = map_option ucast (h_blob_gas_used h), item_rewards = []\<rparr>
      in case (block_of hash, receipts_of hash) of
           (Some block, Some receipts) \<Rightarrow>
             (let gas = f_of_u64 fo (gas_used (header block));
                  txs = sort_key snd (gas_and_rewards fee block receipts)
              in do {
                rewards \<leftarrow> filter_rewards (map (target_gas fo gas) reward_percentiles) txs;
                Some (item\<lparr>item_gas_used_ratio := f_div fo gas (f_of_u64 fo (gas_limit (header block))),
                           item_blob_gas_used_ratio :=
                             (case h_blob_gas_used (header block) of
                                Some g \<Rightarrow> f_div fo (f_of_u64 fo g) (f_of_u64 fo MAX_DATA_GAS_PER_BLOCK)
                              | None \<Rightarrow> f_lit fo 0 1),
                           item_rewards := rewards\<rparr>,
                      Some (number (header block)))
              })
         | _ \<Rightarrow> Some (item\<lparr>item_rewards := map (\<lambda>_. 0) reward_percentiles\<rparr>, None))"

text \<open>Eviction: one removal per entry above the limit, each at a checked subtraction.\<close>

fun evict_loop :: "u64 \<Rightarrow> nat \<Rightarrow> nat \<Rightarrow> 'f FeeHistoryCache \<Rightarrow> 'f FeeHistoryCache option" where
  "evict_loop pop_next num 0 cache = Some cache"
| "evict_loop pop_next num (Suc left) cache =
     do {
       key \<leftarrow> checked_sub pop_next (of_nat num);
       evict_loop pop_next (Suc num) left (hm_remove key cache)
     }"

definition insert_cache_entry ::
    "u64 \<Rightarrow> 'f FeeHistoryCacheItem \<Rightarrow> u64 option \<Rightarrow> 'f FeeHistoryCache \<Rightarrow> 'f FeeHistoryCache option" where
  "insert_cache_entry limit item block_number cache =
     (case block_number of
        None \<Rightarrow> Some cache
      | Some n \<Rightarrow>
          (let cache' = hm_insert n item cache;
               pop_next = saturating_sub n limit;
               num_remove = saturating_sub (of_nat (length cache')) limit
           in evict_loop pop_next 0 (unat num_remove) cache'))"

definition insert_cache_entry_for_block ::
    "'f float_ops \<Rightarrow> fee_calc \<Rightarrow> (B256 \<Rightarrow> Block option) \<Rightarrow> (B256 \<Rightarrow> TypedReceipt list option) \<Rightarrow>
     u64 \<Rightarrow> B256 \<Rightarrow> Header \<Rightarrow> 'f FeeHistoryCache \<Rightarrow> 'f FeeHistoryCache option" where
  "insert_cache_entry_for_block fo fc block_of receipts_of limit hash h cache =
     do {
       (item, n) \<leftarrow> create_cache_entry fo fc block_of receipts_of hash h;
       insert_cache_entry limit item n cache
     }"

text \<open>One poll of the service handles every block notification that is waiting.\<close>

fun poll_fee_history ::
    "'f float_ops \<Rightarrow> fee_calc \<Rightarrow> (B256 \<Rightarrow> Block option) \<Rightarrow> (B256 \<Rightarrow> TypedReceipt list option) \<Rightarrow>
     u64 \<Rightarrow> (B256 \<times> Header) list \<Rightarrow> 'f FeeHistoryCache \<Rightarrow> 'f FeeHistoryCache option" where
  "poll_fee_history fo fc block_of receipts_of limit [] cache = Some cache"
| "poll_fee_history fo fc block_of receipts_of limit ((hash, h) # ns) cache =
     do {
       cache' \<leftarrow> insert_cache_entry_for_block fo fc block_of receipts_of limit hash h cache;
       poll_fee_history fo fc block_of receipts_of limit ns cache'
     }"

section \<open>The fee fields of a request\<close>

record FeeDetails =
  fd_gas_price :: "u128 option"
  fd_max_fee_per_gas :: "u128 option"
  fd_max_priority_fee_per_gas :: "u128 option"
  fd_max_fee_per_blob_gas :: "u128 option"

datatype fee_error = InvalidFeeInput

definition zero_fees :: FeeDetails where
  "zero_fees = \<lparr>fd_gas_price = Some 0, fd_max_fee_per_gas = Some 0,
     fd_max_priority_fee_per_gas = Some 0, fd_max_fee_per_blob_gas = None\<rparr>"

definition or_zero_fees :: "FeeDetails \<Rightarrow> FeeDetails" where
  "or_zero_fees fd =
     (let no_fees = fd_gas_price fd = None \<and> fd_max_fee_per_gas fd = None
      in \<lparr>fd_gas_price = (if no_fees then Some 0 else fd_gas_price fd),
          fd_max_fee_per_gas = (if no_fees then Some 0 else fd_max_fee_per_gas fd),
          fd_max_priority_fee_per_gas = fd_max_priority_fee_per_gas fd,
          fd_max_fee_per_blob_gas = (if no_fees then None else fd_max_fee_per_blob_gas fd)\<rparr>)"

definition split_fees :: "FeeDetails \<Rightarrow> u128 option \<times> u128 option \<times> u128 option \<times> u128 option" where
  "split_fees fd = (fd_gas_price fd, fd_max_fee_per_gas fd, fd_max_priority_fee_per_gas fd,
     fd_max_fee_per_blob_gas fd)"

definition check_priority :: "u128 option \<Rightarrow> u128 option \<Rightarrow> bool" where
  "check_priority max_fee max_priority =
     (case max_priority of Some p \<Rightarrow> \<not> opt_or 0 max_fee < p | None \<Rightarrow> True)"

fun new_FeeDetails ::
    "u128 option \<Rightarrow> u128 option \<Rightarrow> u128 option \<Rightarrow> u128 option \<Rightarrow> fee_error + FeeDetails" where
  "new_FeeDetails gas_price None None None =
     Inr \<lparr>fd_gas_price = gas_price, fd_max_fee_per_gas = gas_price,
          fd_max_priority_fee_per_gas = gas_price, fd_max_fee_per_blob_gas = None\<rparr>"
| "new_FeeDetails _ max_fee max_priority None =
     (if check_priority max_fee max_priority
      then Inr \<lparr>fd_gas_price = max_fee, fd_max_fee_per_gas = max_fee,
                fd_max_priority_fee_per_gas = max_priority, fd_max_fee_per_blob_gas = None\<rparr>
      else Inl InvalidFeeInput)"
| "new_FeeDetails _ max_fee max_priority blob =
     (if check_priority max_fee max_priority
      then Inr \<lparr>fd_gas_price = max_fee, fd_max_fee_per_gas = max_fee,
                fd_max_priority_fee_per_gas = max_priority, fd_max_fee_per_blob_gas = blob\<rparr>
      else Inl InvalidFeeInput)"

section \<open>Reading the cache\<close>

datatype BlockNumber = Latest | Earliest | Pending | Number u64 | Safe | Finalized

record 'f FeeHistory =
  oldest_block :: u64
  fh_base_fee_per_gas :: "u128 list"
  fh_gas_used_ratio :: "'f list"
  fh_reward :: "u128 list list"
  fh_base_fee_per_blob_gas :: "u128 list"
  fh_blob_gas_used_ratio :: "'f list"

datatype history_error = InvalidBlockRange | ForkProvider

definition MAX_BLOCK_COUNT :: u64 where
  "MAX_BLOCK_COUNT = 1024"

text \<open>The numbers of an inclusive range.\<close>

definition u64_range :: "u64 \<Rightarrow> u64 \<Rightarrow> u64 list" where
  "u64_range lo hi = map of_nat [unat lo..<Suc (unat hi)]"

definition resolve_newest :: "u64 \<Rightarrow> BlockNumber \<Rightarrow> u64" where
  "resolve_newest current newest =
     (case newest of
        Latest \<Rightarrow> current | Pending \<Rightarrow> current | Earliest \<Rightarrow> 0 | Number n \<Rightarrow> n
      | Safe \<Rightarrow> saturating_sub current 32 | Finalized \<Rightarrow> saturating_sub current (32 * 2))"

definition block_rewards :: "'f float_ops \<Rightarrow> 'f list \<Rightarrow> 'f FeeHistoryCacheItem \<Rightarrow> u128 list" where
  "block_rewards fo ps item =
     map (\<lambda>p. let p = f_clamp fo p (f_lit fo 0 1) (f_lit fo 100 1);
                  index = f_mul fo (f_mul fo (f_div fo (f_round fo p) (f_lit fo 2 1)) (f_lit fo 2 1)) (f_lit fo 2 1)
              in opt_or 0 (nth_opt (item_rewards item) (f_as_usize fo index))) ps"

text \<open>If the node is forked and the newest block predates the fork, \<open>fork\<close> gives the remote node's
  answer for a number of blocks.\<close>

definition fee_history ::
    "'f float_ops \<Rightarrow> spec_ids \<Rightarrow> (u64 \<Rightarrow> (u64 \<Rightarrow> history_error + 'f FeeHistory) option) \<Rightarrow> u64 \<Rightarrow> u64 \<Rightarrow> 'f FeeManager \<Rightarrow>
     'f FeeHistoryCache \<Rightarrow> U256 \<Rightarrow> BlockNumber \<Rightarrow> 'f list \<Rightarrow> (history_error + 'f FeeHistory) option" where
  "fee_history fo ids fork limit best fees cache block_count newest reward_percentiles =
     (let number = resolve_newest best newest
      in case fork number of
           Some answer \<Rightarrow> map_option answer (to_u64 block_count)
         | None \<Rightarrow>
             do {
               count \<leftarrow> map_option (min MAX_BLOCK_COUNT) (to_u64 block_count);
               let lowest = saturating_sub number (saturating_sub count 1);
               if lowest < saturating_sub best limit then Some (Inl InvalidBlockRange)
               else
                 (let items = List.map_filter (\<lambda>n. hm_get cache n) (u64_range lowest number)
                  in Some (Inr
                    \<lparr>oldest_block = lowest,
                     fh_base_fee_per_gas = map item_base_fee items @ [ucast (base_fee ids fees)],
                     fh_gas_used_ratio = map item_gas_used_ratio items,
                     fh_reward = (if reward_percentiles = [] then []
                                  else map (block_rewards fo reward_percentiles) items),
                     fh_base_fee_per_blob_gas =
                       map (\<lambda>it. opt_or 0 (item_base_fee_per_blob_gas it)) items @
                       [base_fee_per_blob_gas ids fees],
                     fh_blob_gas_used_ratio = map item_blob_gas_used_ratio items\<rparr>))
             })"

definition list_min :: "u128 list \<Rightarrow> u128 option" where
  "list_min xs = (case xs of [] \<Rightarrow> None | y # ys \<Rightarrow> Some (foldl min y ys))"

definition lowest_suggestion_tip :: "u64 \<Rightarrow> 'f FeeHistoryCache \<Rightarrow> u128" where
  "lowest_suggestion_tip best cache =
     (let lowest = (case hm_get cache best of
                      Some item \<Rightarrow> list_min (item_rewards item)
                    | None \<Rightarrow> list_min (concat (map (\<lambda>(_, it). item_rewards it) cache)))
      in case lowest of
           Some fee \<Rightarrow> max fee MIN_SUGGESTED_PRIORITY_FEE
         | None \<Rightarrow> MIN_SUGGESTED_PRIORITY_FEE)"

section \<open>The cache holds the latest blocks\<close>

text \<open>The cache holds the blocks from \<open>lo\<close> up to \<open>hi\<close>, exclusive, and no others.\<close>

definition cache_window :: "nat \<Rightarrow> nat \<Rightarrow> 'f FeeHistoryCache \<Rightarrow> bool" where
  "cache_window lo hi cache \<longleftrightarrow>
     distinct (hm_keys cache) \<and> hi \<le> 2 ^ 64 \<and>
     (\<forall>k. hm_get cache k = None \<longleftrightarrow> unat k < lo \<or> hi \<le> unat k)"

lemma cache_window_get:
  "cache_window lo hi cache \<Longrightarrow> hm_get cache k = None \<longleftrightarrow> unat k < lo \<or> hi \<le> unat k"
  by (simp only: cache_window_def)

lemma cache_window_length: "cache_window lo hi cache \<Longrightarrow> length cache = hi - lo"
proof -
  assume w: "cache_window lo hi cache"
  have keys: "k \<in> set (hm_keys cache) \<longleftrightarrow> lo \<le> unat k \<and> unat k < hi" for k
    using cache_window_get [OF w, of k] map_of_eq_None_iff [of cache k] by (simp add: not_less) linarith
  have "unat ` set (hm_keys cache) = {lo..<hi}"
  proof (intro equalityI subsetI)
    fix x assume "x \<in> {lo..<hi}"
    with w have "unat (of_nat x :: u64) = x" by (simp add: unat_of_nat cache_window_def)
    with \<open>x \<in> {lo..<hi}\<close> keys [of "of_nat x"] have "(of_nat x :: u64) \<in> set (hm_keys cache)" by simp
    with \<open>unat (of_nat x :: u64) = x\<close> show "x \<in> unat ` set (hm_keys cache)" by (metis image_eqI)
  next
    fix x assume "x \<in> unat ` set (hm_keys cache)"
    then obtain k where "x = unat k" "k \<in> set (hm_keys cache)" by blast
    with keys show "x \<in> {lo..<hi}" by simp
  qed
  moreover have "inj_on unat (set (hm_keys cache))"
    by (rule inj_onI) (simp add: word_unat_eq_iff)
  ultimately have "card (set (hm_keys cache)) = hi - lo"
    by (metis card_atLeastLessThan card_image)
  with w show ?thesis by (metis cache_window_def distinct_card length_map)
qed

lemma window_insert:
  assumes "cache_window lo hi cache" and "lo \<le> unat n" and "unat n \<le> hi"
  shows "cache_window lo (max hi (Suc (unat n))) (hm_insert n item cache)"
proof -
  have "unat n < 2 ^ LENGTH(64)" by (rule unsigned_less)
  moreover have "hm_get (hm_insert n item cache) k = None \<longleftrightarrow> unat k < lo \<or> max hi (Suc (unat n)) \<le> unat k" for k
    using assms(2,3) cache_window_get [OF assms(1), of k]
    by (cases "k = n") (auto simp: cont_simps word_unat_eq_iff)
  ultimately show ?thesis using assms by (simp add: cache_window_def distinct_update)
qed

lemma window_remove_first:
  assumes "cache_window lo hi cache" and "unat n = lo"
  shows "cache_window (Suc lo) hi (hm_remove n cache)"
proof -
  have "hm_get (hm_remove n cache) k = None \<longleftrightarrow> unat k < Suc lo \<or> hi \<le> unat k" for k
    using assms(2) cache_window_get [OF assms(1), of k]
    by (cases "k = n") (auto simp: cont_simps word_unat_eq_iff)
  with assms show ?thesis by (simp add: cache_window_def distinct_delete)
qed

text \<open>C40. The cache holds a window of consecutive blocks, never more than the limit. Adding an entry
  for the next block, or again for a block of the window (as after a rollback), succeeds, stores the
  entry and keeps a window; only when a full window grows does its oldest block go, and every other
  entry stays.\<close>

theorem fee_cache_window:
  assumes w: "cache_window lo hi cache" and n: "lo \<le> unat n" "unat n \<le> hi"
    and limit: "0 < limit" "unat limit + 1 < 2 ^ 64" and len: "hi - lo \<le> unat limit"
  defines "lo' \<equiv> if unat n = hi \<and> hi - lo = unat limit then Suc lo else lo"
  shows "\<exists>cache'. insert_cache_entry limit item (Some n) cache = Some cache' \<and>
           cache_window lo' (max hi (Suc (unat n))) cache' \<and>
           max hi (Suc (unat n)) - lo' \<le> unat limit \<and>
           (\<forall>k. hm_get cache' k =
              (if k = n then Some item else if unat k < lo' then None else hm_get cache k))"
proof -
  let ?c = "hm_insert n item cache"
  let ?hi = "max hi (Suc (unat n))"
  have w': "cache_window lo ?hi ?c" using w n by (rule window_insert)
  have length: "length ?c = ?hi - lo" using w' by (rule cache_window_length)
  have small: "length ?c < 2 ^ 64" using length len n limit by (auto simp: max_def split: if_splits)
  then have "unat (of_nat (length ?c) :: u64) = length ?c" by (simp add: unat_of_nat)
  then have left: "unat (saturating_sub (of_nat (length ?c)) limit) = ?hi - lo - unat limit"
    by (simp add: unat_saturating_sub length)
  have none: "hm_get cache k = None" if "unat k < lo" for k
    using that cache_window_get [OF w, of k] by blast
  show ?thesis
  proof (cases "unat n = hi \<and> hi - lo = unat limit")
    case True
    then have pos: "0 < unat limit" using limit(1) by (simp add: word_less_nat_alt)
    with True have hi: "?hi - lo - unat limit = 1" "lo < hi" "lo' = Suc lo"
      by (auto simp: lo'_def)
    let ?key = "saturating_sub n limit"
    have key: "unat ?key = lo" using True hi by (simp add: unat_saturating_sub)
    have run: "insert_cache_entry limit item (Some n) cache = Some (hm_remove ?key ?c)"
      using left unfolding hi by (simp add: insert_cache_entry_def Let_def checked_sub_def)
    have "cache_window lo' ?hi (hm_remove ?key ?c)"
      using window_remove_first [OF w' key] hi by simp
    moreover have "hm_get (hm_remove ?key ?c) k =
        (if k = n then Some item else if unat k < lo' then None else hm_get cache k)" for k
    proof -
      have "n \<noteq> ?key" using key True hi by auto
      moreover have "unat k < lo' \<longleftrightarrow> k = ?key \<or> unat k < lo"
        using key hi by (auto simp: word_unat_eq_iff)
      ultimately show ?thesis using none [of k] by (auto simp: cont_simps)
    qed
    ultimately show ?thesis using run hi by auto
  next
    case False
    then have zero: "?hi - lo - unat limit = 0" "lo' = lo" "?hi - lo \<le> unat limit"
      using n len by (auto simp: lo'_def max_def)
    have run: "insert_cache_entry limit item (Some n) cache = Some ?c"
      using left unfolding zero by (simp add: insert_cache_entry_def Let_def)
    have "hm_get ?c k = (if k = n then Some item else if unat k < lo' then None else hm_get cache k)" for k
      using none [of k] zero by (auto simp: cont_simps)
    with run w' zero show ?thesis by auto
  qed
qed

definition sample_item :: "unit FeeHistoryCacheItem" where
  "sample_item = \<lparr>item_base_fee = 7, item_gas_used_ratio = (), item_base_fee_per_blob_gas = None,
     item_blob_gas_used_ratio = (), item_excess_blob_gas = None, item_blob_gas_used = None,
     item_rewards = []\<rparr>"

theorem fee_cache_window_witness:
  "\<exists>cache'. insert_cache_entry 2 sample_item (Some 6) [(4, sample_item), (5, sample_item)] = Some cache' \<and>
     cache_window 5 7 cache' \<and> hm_get cache' 6 = Some sample_item \<and> hm_get cache' 4 = None"
proof -
  have "cache_window 4 6 [(4, sample_item), (5, sample_item)]"
  proof -
    have "hm_get [(4, sample_item), (5, sample_item)] k = None \<longleftrightarrow> unat k < 4 \<or> 6 \<le> unat k" for k :: u64
      by (simp add: word_unat_eq_iff) linarith
    then show ?thesis by (simp add: cache_window_def)
  qed
  from fee_cache_window [OF this, of 6 2 sample_item] show ?thesis by auto
qed

section \<open>Rewards\<close>

lemma reward_at_mono:
  "reward_at s acc txs = Some (Some a) \<Longrightarrow> reward_at t acc txs = Some (Some b) \<Longrightarrow> s \<le> t \<Longrightarrow>
   sorted (map snd txs) \<Longrightarrow> a \<le> b \<and> b \<in> snd ` set txs"
proof (induction txs arbitrary: acc)
  case (Cons tx txs)
  obtain g r where tx: "tx = (g, r)" by (cases tx)
  from Cons.prems obtain acc' where acc: "checked_add acc g = Some acc'"
    by (auto simp: tx split: bind_splits)
  have mem: "reward_at t acc' txs = Some (Some b) \<Longrightarrow> b \<in> snd ` set txs"
    for acc'
  proof (induction txs arbitrary: acc')
    case (Cons x xs)
    then show ?case by (cases x) (auto split: bind_splits if_splits)
  qed simp
  show ?case
  proof (cases "t \<le> acc'")
    case True
    with Cons.prems acc show ?thesis by (auto simp: tx split: if_splits)
  next
    case False
    with Cons.prems acc have t: "reward_at t acc' txs = Some (Some b)" by (simp add: tx)
    with mem have b: "b \<in> snd ` set txs" by simp
    show ?thesis
    proof (cases "s \<le> acc'")
      case True
      with Cons.prems acc b show ?thesis by (auto simp: tx)
    next
      case False
      with Cons.prems acc have "reward_at s acc' txs = Some (Some a)" by (simp add: tx)
      from Cons.IH [OF this t] Cons.prems show ?thesis by (auto simp: tx)
    qed
  qed
qed simp

lemma reward_at_None_mono:
  "reward_at s acc txs = Some None \<Longrightarrow> s \<le> t \<Longrightarrow> reward_at t acc txs = Some None"
proof (induction txs arbitrary: acc)
  case (Cons tx txs)
  then show ?case by (cases tx) (auto split: bind_splits if_splits)
qed simp

lemma filter_rewards_sorted:
  "filter_rewards ts txs = Some rs \<Longrightarrow> sorted ts \<Longrightarrow> sorted (map snd txs) \<Longrightarrow>
   sorted rs \<and> length rs \<le> length ts \<and>
   (\<forall>r\<in>set rs. \<exists>t\<in>set ts. reward_at t 0 txs = Some (Some r))"
proof (induction ts arbitrary: rs)
  case (Cons t ts)
  from Cons.prems(1) obtain r qs where r: "reward_at t 0 txs = Some r"
    and qs: "filter_rewards ts txs = Some qs"
    and rs: "rs = (case r of Some x \<Rightarrow> x # qs | None \<Rightarrow> qs)"
    by (auto split: bind_splits)
  from Cons.IH [OF qs] Cons.prems have IH: "sorted qs" "length qs \<le> length ts"
    "\<And>q. q \<in> set qs \<Longrightarrow> \<exists>u\<in>set ts. reward_at u 0 txs = Some (Some q)"
    by auto
  show ?case
  proof (cases r)
    case None
    with rs IH show ?thesis by auto
  next
    case (Some x)
    have "x \<le> q" if q: "q \<in> set qs" for q
    proof -
      from IH(3) [OF q] obtain u where u: "u \<in> set ts" "reward_at u 0 txs = Some (Some q)" by blast
      from u Cons.prems have "t \<le> u" by auto
      from reward_at_mono [OF r [unfolded Some] u(2) this Cons.prems(3)] show ?thesis by simp
    qed
    with Some rs IH r show ?thesis by auto
  qed
qed simp

text \<open>What the percentile rewards rely on of the floating point arithmetic: the gas targets of the
  percentiles, taken in order, do not decrease.\<close>

definition targets_monotone :: "'f float_ops \<Rightarrow> 'f \<Rightarrow> bool" where
  "targets_monotone fo gas \<longleftrightarrow> sorted (map (target_gas fo gas) (percentiles fo 201 (f_lit fo 0 1)))"

lemma length_percentiles [simp]: "length (percentiles fo n p) = n"
  by (induction n arbitrary: p) simp_all

text \<open>The rewards cached for a block never decrease with the percentile, there are at most 201 of
  them, and each is the effective reward of one of its transactions; for a block that is not found all
  201 are zero and no entry is stored.\<close>

theorem cached_rewards_sorted:
  assumes "create_cache_entry fo fc block_of receipts_of hash h = Some (item, n)"
    and "\<And>block. block_of hash = Some block \<Longrightarrow> targets_monotone fo (f_of_u64 fo (gas_used (header block)))"
  shows "sorted (item_rewards item) \<and> length (item_rewards item) \<le> 201 \<and>
    (case (block_of hash, receipts_of hash) of
       (Some block, Some receipts) \<Rightarrow>
         n = Some (number (header block)) \<and>
         set (item_rewards item) \<subseteq> snd ` set (gas_and_rewards (opt_or 0 (map_option ucast (base_fee_per_gas h))) block receipts)
     | _ \<Rightarrow> n = None \<and> item_rewards item = replicate 201 0)"
proof (cases "\<exists>block receipts. block_of hash = Some block \<and> receipts_of hash = Some receipts")
  case True
  then obtain block receipts where br: "block_of hash = Some block" "receipts_of hash = Some receipts"
    by blast
  let ?fee = "opt_or 0 (map_option ucast (base_fee_per_gas h)) :: u128"
  let ?txs = "sort_key snd (gas_and_rewards ?fee block receipts)"
  let ?ts = "map (target_gas fo (f_of_u64 fo (gas_used (header block)))) (percentiles fo 201 (f_lit fo 0 1))"
  have fee: "(case base_fee_per_gas h of None \<Rightarrow> 0 | Some g \<Rightarrow> ucast g) = ?fee"
    by (simp add: opt_or_def split: option.splits)
  from assms(1) obtain rs where rs: "filter_rewards ?ts ?txs = Some rs"
    and item: "item_rewards item = rs" "n = Some (number (header block))"
    by (auto simp: create_cache_entry_def Let_def br fee split: bind_splits)
  have ts: "sorted ?ts" using assms(2) [OF br(1)] by (simp add: targets_monotone_def)
  from filter_rewards_sorted [OF rs ts sorted_sort_key]
  have *: "sorted rs" "length rs \<le> 201"
    and mem: "\<And>r. r \<in> set rs \<Longrightarrow> \<exists>t. reward_at t 0 ?txs = Some (Some r)"
    by auto
  have "r \<in> snd ` set ?txs" if "r \<in> set rs" for r
    using mem [OF that] reward_at_mono [OF _ _ order_refl sorted_sort_key] by blast
  with * item br show ?thesis by auto
next
  case False
  then have "item_rewards item = map (\<lambda>_. 0) (percentiles fo 201 (f_lit fo 0 1)) \<and> n = None"
    using assms(1) by (auto simp: create_cache_entry_def Let_def split: option.splits)
  moreover have "map (\<lambda>_. 0) (percentiles fo 201 (f_lit fo 0 1)) = replicate 201 (0 :: u128)"
    by (simp add: map_replicate_const)
  ultimately show ?thesis using False by (auto split: option.splits)
qed

text \<open>For evaluation: an arithmetic with a single value, whose targets are all zero.\<close>

definition unit_ops :: "unit float_ops" where
  "unit_ops = \<lparr>f_of_u64 = (\<lambda>_. ()), f_lit = (\<lambda>_ _. ()), f_add = (\<lambda>_ _. ()), f_mul = (\<lambda>_ _. ()),
     f_div = (\<lambda>_ _. ()), f_clamp = (\<lambda>_ _ _. ()), f_round = (\<lambda>_. ()), f_as_u64 = (\<lambda>_. 0),
     f_as_usize = (\<lambda>_. 0)\<rparr>"

definition no_fees :: fee_calc where
  "no_fees = \<lparr>calc_next_block_base_fee = (\<lambda>_ _ f. f), calc_blob_gasprice = (\<lambda>_. 1),
     calc_excess_blob_gas = (\<lambda>a b. a + b), header_blob_fee = (\<lambda>_. None), elasticity_multiplier = 2\<rparr>"

definition sample_legacy :: "u64 \<Rightarrow> u128 \<Rightarrow> MaybeImpersonatedTransaction" where
  "sample_legacy n p = new_Maybe (Legacy \<lparr>stx = \<lparr>legacy_chain_id = None, legacy_nonce = n,
     legacy_gas_price = p, legacy_gas_limit = 21000, legacy_to = Create, legacy_value = 0,
     legacy_input = []\<rparr>, stx_signature = (False, 0, 0), stx_hash = 0\<rparr>)"

definition sample_receipt :: "u64 \<Rightarrow> TypedReceipt" where
  "sample_receipt g = LegacyReceipt \<lparr>status = True, cumulative_gas = g, receipt_logs = [], receipt_bloom = 0\<rparr>"

definition sample_hashing :: chain_hashing where
  "sample_hashing = \<lparr>transactions_trie = (\<lambda>_. 0), receipts_trie = (\<lambda>_. 0),
     hash_slow = (\<lambda>h. ucast (number h) + 1), EMPTY_OMMER_ROOT_HASH = 0, EMPTY_WITHDRAWALS = 0,
     EMPTY_REQUESTS_HASH = 0, accrue = (\<lambda>_ b. b), bloom_slow = (\<lambda>_. 0)\<rparr>"

text \<open>A block with two transactions of ten gas each, the first paying nine and the second one.\<close>

definition sample_block :: Block where
  "sample_block = new_Block sample_hashing
     (default_PartialHeader\<lparr>ph_number := 3, ph_gas_used := 20, ph_gas_limit := 100\<rparr>)
     [sample_legacy 0 9, sample_legacy 1 1]"

lemma unit_targets: "map (target_gas unit_ops g) (percentiles unit_ops n p) = replicate n 0"
  by (induction n arbitrary: p) (simp_all add: target_gas_def unit_ops_def)

lemma unit_monotone: "targets_monotone unit_ops g"
  unfolding targets_monotone_def unit_targets by (simp add: sorted_replicate)

lemma zero_targets: "filter_rewards (replicate n 0) ((g, r) # txs) = Some (replicate n r)"
proof -
  have "unat g < 2 ^ LENGTH(64)" by (rule unsigned_less)
  then show ?thesis by (induction n) (simp_all add: checked_add_def)
qed

theorem cached_rewards_sorted_witness:
  "\<exists>item n. create_cache_entry unit_ops no_fees (\<lambda>_. Some sample_block)
      (\<lambda>_. Some [sample_receipt 10, sample_receipt 20]) 1 (header sample_block) = Some (item, n) \<and>
     sorted (item_rewards item) \<and> set (item_rewards item) \<subseteq> {1, 9} \<and> n = Some 3"
proof -
  let ?rs = "[sample_receipt 10, sample_receipt 20]"
  have txs: "sort_key snd (gas_and_rewards 0 sample_block ?rs) = [(20, 1), (10, 9)]"
    by code_simp
  have fee: "base_fee_per_gas (header sample_block) = None" "number (header sample_block) = 3"
    by (simp_all add: sample_block_def default_PartialHeader_def)
  obtain item n where *: "create_cache_entry unit_ops no_fees (\<lambda>_. Some sample_block) (\<lambda>_. Some ?rs) 1
      (header sample_block) = Some (item, n)"
    unfolding create_cache_entry_def Let_def fee unit_targets option.case txs zero_targets
    by (simp add: txs unit_targets zero_targets)
  from cached_rewards_sorted [OF this unit_monotone]
  have "sorted (item_rewards item)"
    "set (item_rewards item) \<subseteq> snd ` set (gas_and_rewards 0 sample_block ?rs)" "n = Some 3"
    by (simp_all add: fee opt_or_def)
  moreover have "snd ` set (gas_and_rewards 0 sample_block ?rs) = {1, 9}"
    using arg_cong [OF txs, of "\<lambda>xs. snd ` set xs"] by simp
  ultimately show ?thesis using * by blast
qed

section \<open>Percentiles are taken over cumulative gas\<close>

text \<open>The gas of a transaction is read from \<open>cumulative_gas_used\<close> of its receipt, which counts
  the transactions before it as well. In a block of two transactions with ten gas each, of which the
  second pays less, the reward found for a target of 15 is the lower one, although the lower one pays
  for ten gas only.\<close>

theorem percentiles_over_cumulative_gas:
  "reward_at 15 0 (sort_key snd (gas_and_rewards 0 sample_block [sample_receipt 10, sample_receipt 20])) =
     Some (Some 1) \<and>
   reward_at 15 0 (sort_key snd [(10, 9), (10, 1)]) = Some (Some 9)"
  by code_simp

section \<open>The range the history serves\<close>

text \<open>The history accepts one block more than the cache holds: once the cache is full, the block
  just below it passes the range check, but its entry is gone, so that the answer names it as its
  oldest block and lists nothing but the fees of the next block.\<close>

theorem fee_history_boundary:
  assumes w: "cache_window (unat best + 1 - unat limit) (unat best + 1) cache"
    and limit: "0 < limit" "limit \<le> best"
  shows "fee_history fo ids (\<lambda>_. None) limit best fees cache 1 (Number (best - limit)) ps =
    Some (Inr \<lparr>oldest_block = best - limit, fh_base_fee_per_gas = [ucast (base_fee ids fees)],
      fh_gas_used_ratio = [], fh_reward = [],
      fh_base_fee_per_blob_gas = [base_fee_per_blob_gas ids fees], fh_blob_gas_used_ratio = []\<rparr>)"
proof -
  have unat: "unat (best - limit) = unat best - unat limit"
    using limit by (simp add: unat_sub)
  have le: "unat limit \<le> unat best" using limit by (simp add: word_le_nat_alt)
  have "hm_get cache (best - limit) = None"
    unfolding cache_window_get [OF w] unat using le by linarith
  then have items: "List.map_filter (hm_get cache) (u64_range (best - limit) (best - limit)) = []"
    by (simp add: u64_range_def List.map_filter_def)
  have low: "saturating_sub (best - limit) (saturating_sub 1 1) = best - limit"
    by (simp add: saturating_sub_def)
  have sat: "saturating_sub best limit = best - limit"
    using limit by (simp add: saturating_sub_def)
  have one: "to_u64 1 = Some 1" "min MAX_BLOCK_COUNT 1 = 1"
    by code_simp+
  show ?thesis
    by (simp add: fee_history_def Let_def resolve_newest_def one low sat items)
qed

theorem fee_history_boundary_witness:
  "fee_history unit_ops \<lparr>SPURIOUS_DRAGON = 1, BERLIN = 2, LONDON = 3, MERGE = 4, SHANGHAI = 5, CANCUN = 6, PRAGUE = 7\<rparr>
     (\<lambda>_. None) 2 5 (new_FeeManager unit_ops no_fees 7 9 True 9 \<lparr>excess_blob_gas = 0, blob_gasprice = 1\<rparr>)
     [(4, sample_item), (5, sample_item)] 1 (Number 3) [] =
   Some (Inr \<lparr>oldest_block = 3, fh_base_fee_per_gas = [9], fh_gas_used_ratio = [], fh_reward = [],
      fh_base_fee_per_blob_gas = [1], fh_blob_gas_used_ratio = []\<rparr>)"
proof -
  have get: "hm_get [(4, sample_item), (5, sample_item)] k = None \<longleftrightarrow> unat k < 4 \<or> 6 \<le> unat k" for k :: u64
    by (simp add: word_unat_eq_iff) linarith
  then have "cache_window (unat (5 :: u64) + 1 - unat (2 :: u64)) (unat (5 :: u64) + 1) [(4, sample_item), (5, sample_item)]"
    by (simp add: cache_window_def)
  from fee_history_boundary [OF this, of unit_ops] show ?thesis
    by (simp add: base_fee_def base_fee_per_blob_gas_def fees_is_eip1559_def fees_is_eip4844_def new_FeeManager_def)
qed

section \<open>Fee fields\<close>

text \<open>The fee fields of a request are rejected exactly when the priority fee exceeds the fee cap
  (an absent cap counts as zero). An accepted request always has a priority fee within its cap and a
  gas price equal to the cap; a request with a gas price only has all three equal.\<close>

theorem fee_details_checked:
  "case new_FeeDetails gas_price max_fee priority blob of
     Inl _ \<Rightarrow> \<not> check_priority max_fee priority
   | Inr fd \<Rightarrow>
       check_priority max_fee priority \<and>
       check_priority (fd_max_fee_per_gas fd) (fd_max_priority_fee_per_gas fd) \<and>
       fd_gas_price fd = fd_max_fee_per_gas fd \<and> fd_max_fee_per_blob_gas fd = blob \<and>
       (if max_fee = None \<and> priority = None \<and> blob = None
        then fd_max_fee_per_gas fd = gas_price \<and> fd_max_priority_fee_per_gas fd = gas_price
        else fd_max_fee_per_gas fd = max_fee \<and> fd_max_priority_fee_per_gas fd = priority)"
  by (cases "(gas_price, max_fee, priority, blob)" rule: new_FeeDetails.cases)
    (auto simp: check_priority_def opt_or_def split: option.splits)

end
