(* ===== verification/Anvil_Chain.thy ===== *)
theory Anvil_Chain
  imports Anvil_Fees
begin

text \<open>
  The stored chain: \<open>BlockchainStorage\<close> and \<open>Blockchain\<close> of
  \<open>crates/anvil/src/eth/backend/mem/storage.rs\<close>, the serialisable forms of
  \<open>crates/anvil/src/eth/backend/db.rs\<close>, and the two loops of \<open>crates/anvil/src/eth/backend/mem/mod.rs\<close>
  that change the storage when a block is mined and when a snapshot is reverted. The lemmas give what
  each operation does to the blocks, the number index and the transactions, show that the chain stays
  linked by parent hashes, and that a dump can be loaded again.
\<close>

section \<open>Storage\<close>

record 'n MinedTransaction =
  mt_info :: "'n TransactionInfo"
  mt_receipt :: TypedReceipt
  mt_block_hash :: B256
  mt_block_number :: u64

record 'n BlockchainStorage =
  blocks :: "(B256, Block) hmap"
  hashes :: "(u64, B256) hmap"
  best_hash :: B256
  best_number :: u64
  genesis_hash :: B256
  stored_transactions :: "(B256, 'n MinedTransaction) hmap"
  total_difficulty :: U256

definition new_BlockchainStorage ::
    "chain_hashing \<Rightarrow> spec_ids \<Rightarrow> BlockEnv \<Rightarrow> u8 \<Rightarrow> u64 option \<Rightarrow> u64 \<Rightarrow> 'n BlockchainStorage option" where
  "new_BlockchainStorage hs ids env spec_id fee time =
     do {
       limit \<leftarrow> to_u64 (be_gas_limit env);
       let ph = default_PartialHeader
         \<lparr>ph_timestamp := time, ph_base_fee := fee, ph_gas_limit := limit,
          ph_beneficiary := be_coinbase env, ph_difficulty := be_difficulty env,
          ph_blob_gas_used := map_option (\<lambda>_. 0) (be_blob_excess env),
          ph_excess_blob_gas := get_blob_excess_gas env,
          ph_parent_beacon_block_root := (if CANCUN ids \<le> spec_id then Some 0 else None),
          ph_withdrawals_root := (if SHANGHAI ids \<le> spec_id then Some (EMPTY_WITHDRAWALS hs) else None),
          ph_requests_hash := (if PRAGUE ids \<le> spec_id then Some (EMPTY_REQUESTS_HASH hs) else None)\<rparr>;
       let block = new_Block hs ph [];
       let genesis = hash_slow hs (header block);
       Some \<lparr>blocks = [(genesis, block)], hashes = [(0, genesis)], best_hash = genesis,
             best_number = 0, genesis_hash = genesis, stored_transactions = [], total_difficulty = 0\<rparr>
     }"

definition forked_storage :: "u64 \<Rightarrow> B256 \<Rightarrow> U256 \<Rightarrow> 'n BlockchainStorage" where
  "forked_storage block_number block_hash td =
     \<lparr>blocks = [], hashes = [(block_number, block_hash)], best_hash = block_hash,
      best_number = block_number, genesis_hash = 0, stored_transactions = [], total_difficulty = td\<rparr>"

definition empty_storage :: "'n BlockchainStorage" where
  "empty_storage = \<lparr>blocks = [], hashes = [], best_hash = 0, best_number = 0, genesis_hash = 0,
     stored_transactions = [], total_difficulty = 0\<rparr>"

definition remove_block_transactions ::
    "tx_crypto \<Rightarrow> B256 \<Rightarrow> 'n BlockchainStorage \<Rightarrow> 'n BlockchainStorage" where
  "remove_block_transactions cr block_hash s =
     (case hm_get (blocks s) block_hash of
        Some block \<Rightarrow>
          s\<lparr>stored_transactions :=
              foldl (\<lambda>m tx. hm_remove (maybe_hash cr tx) m) (stored_transactions s) (transactions block),
            blocks := hm_insert block_hash (block\<lparr>transactions := []\<rparr>) (blocks s)\<rparr>
      | None \<Rightarrow> s)"

definition remove_block_transactions_by_number ::
    "tx_crypto \<Rightarrow> u64 \<Rightarrow> 'n BlockchainStorage \<Rightarrow> 'n BlockchainStorage" where
  "remove_block_transactions_by_number cr num s =
     (case hm_get (hashes s) num of
        Some h \<Rightarrow> remove_block_transactions cr h s
      | None \<Rightarrow> s)"

definition unwind_one :: "tx_crypto \<Rightarrow> 'n BlockchainStorage \<Rightarrow> u64 \<Rightarrow> 'n BlockchainStorage" where
  "unwind_one cr s i =
     (case hm_get (hashes s) i of
        Some h \<Rightarrow>
          (let s1 = s\<lparr>hashes := hm_remove i (hashes s)\<rparr>
           in case hm_get (blocks s1) h of
                Some block \<Rightarrow>
                  remove_block_transactions_by_number cr (number (header block))
                    (s1\<lparr>blocks := hm_remove h (blocks s1)\<rparr>)
              | None \<Rightarrow> s1)
      | None \<Rightarrow> s)"

definition unwind_to ::
    "tx_crypto \<Rightarrow> u64 \<Rightarrow> B256 \<Rightarrow> 'n BlockchainStorage \<Rightarrow> 'n BlockchainStorage option" where
  "unwind_to cr block_number block_hash s =
     do {
       first \<leftarrow> checked_add block_number 1;
       let s' = foldl (unwind_one cr) s (u64_range first (best_number s));
       Some (s'\<lparr>best_hash := block_hash, best_number := block_number\<rparr>)
     }"

section \<open>Lookups\<close>

definition storage_hash :: "'n BlockchainStorage \<Rightarrow> BlockNumber \<Rightarrow> B256 option" where
  "storage_hash s num =
     (case num of
        Latest \<Rightarrow> Some (best_hash s)
      | Earliest \<Rightarrow> Some (genesis_hash s)
      | Pending \<Rightarrow> None
      | Number n \<Rightarrow> hm_get (hashes s) n
      | Safe \<Rightarrow>
          (if 32 < best_number s then hm_get (hashes s) (best_number s - 32)
           else Some (genesis_hash s))
      | Finalized \<Rightarrow>
          (if 32 * 2 < best_number s then hm_get (hashes s) (best_number s - 32 * 2)
           else Some (genesis_hash s)))"

datatype BlockId = HashId B256 | NumberId BlockNumber

definition blockchain_hash :: "'n BlockchainStorage \<Rightarrow> BlockId \<Rightarrow> B256 option" where
  "blockchain_hash s bid = (case bid of HashId h \<Rightarrow> Some h | NumberId num \<Rightarrow> storage_hash s num)"

definition get_block_by_hash :: "'n BlockchainStorage \<Rightarrow> B256 \<Rightarrow> Block option" where
  "get_block_by_hash s h = hm_get (blocks s) h"

definition get_transaction_by_hash :: "'n BlockchainStorage \<Rightarrow> B256 \<Rightarrow> 'n MinedTransaction option" where
  "get_transaction_by_hash s h = hm_get (stored_transactions s) h"

definition blocks_count :: "'n BlockchainStorage \<Rightarrow> nat" where
  "blocks_count s = length (blocks s)"

section \<open>Dumps\<close>

datatype SerializableTransactionType =
    TypedTx TypedTransaction
  | MaybeImpersonatedTx MaybeImpersonatedTransaction

record SerializableBlock =
  sb_header :: Header
  sb_transactions :: "SerializableTransactionType list"
  sb_ommers :: "Header list"

record 'n SerializableTransaction =
  st_info :: "'n TransactionInfo"
  st_receipt :: TypedReceipt
  st_block_hash :: B256
  st_block_number :: u64

definition ser_tx :: "MaybeImpersonatedTransaction \<Rightarrow> SerializableTransactionType" where
  "ser_tx tx = MaybeImpersonatedTx tx"

fun de_tx :: "SerializableTransactionType \<Rightarrow> MaybeImpersonatedTransaction" where
  "de_tx (TypedTx tx) = new_Maybe tx"
| "de_tx (MaybeImpersonatedTx tx) = tx"

definition ser_block :: "Block \<Rightarrow> SerializableBlock" where
  "ser_block b = \<lparr>sb_header = header b, sb_transactions = map ser_tx (transactions b), sb_ommers = ommers b\<rparr>"

definition de_block :: "SerializableBlock \<Rightarrow> Block" where
  "de_block b = \<lparr>header = sb_header b, transactions = map de_tx (sb_transactions b), ommers = sb_ommers b\<rparr>"

definition ser_mined :: "'n MinedTransaction \<Rightarrow> 'n SerializableTransaction" where
  "ser_mined t = \<lparr>st_info = mt_info t, st_receipt = mt_receipt t, st_block_hash = mt_block_hash t,
     st_block_number = mt_block_number t\<rparr>"

definition de_mined :: "'n SerializableTransaction \<Rightarrow> 'n MinedTransaction" where
  "de_mined t = \<lparr>mt_info = st_info t, mt_receipt = st_receipt t, mt_block_hash = st_block_hash t,
     mt_block_number = st_block_number t\<rparr>"

text \<open>The values of a hash map come in an unspecified order.\<close>

definition serialized_blocks ::
    "((B256 \<times> Block) list \<Rightarrow> (B256 \<times> Block) list) \<Rightarrow> 'n BlockchainStorage \<Rightarrow> SerializableBlock list" where
  "serialized_blocks order s = map (ser_block \<circ> snd) (order (blocks s))"

definition serialized_transactions ::
    "((B256 \<times> 'n MinedTransaction) list \<Rightarrow> (B256 \<times> 'n MinedTransaction) list) \<Rightarrow>
     'n BlockchainStorage \<Rightarrow> 'n SerializableTransaction list" where
  "serialized_transactions order s = map (ser_mined \<circ> snd) (order (stored_transactions s))"

fun load_blocks :: "chain_hashing \<Rightarrow> SerializableBlock list \<Rightarrow> 'n BlockchainStorage \<Rightarrow> 'n BlockchainStorage" where
  "load_blocks hs [] s = s"
| "load_blocks hs (sb # sbs) s =
     (let block = de_block sb; h = hash_slow hs (header block)
      in load_blocks hs sbs
           (s\<lparr>blocks := hm_insert h block (blocks s),
              hashes := hm_insert (number (header block)) h (hashes s)\<rparr>))"

fun load_transactions :: "'n SerializableTransaction list \<Rightarrow> 'n BlockchainStorage \<Rightarrow> 'n BlockchainStorage" where
  "load_transactions [] s = s"
| "load_transactions (st # sts) s =
     (let t = de_mined st
      in load_transactions sts
           (s\<lparr>stored_transactions := hm_insert (transaction_hash (mt_info t)) t (stored_transactions s)\<rparr>))"

section \<open>Mining a block and reverting to one\<close>

text \<open>What mining does to the storage, and what reverting a snapshot does.\<close>

fun insert_mined ::
    "B256 \<Rightarrow> u64 \<Rightarrow> ('n TransactionInfo \<times> TypedReceipt) list \<Rightarrow> 'n BlockchainStorage \<Rightarrow> 'n BlockchainStorage" where
  "insert_mined h n [] s = s"
| "insert_mined h n ((info, receipt) # rest) s =
     insert_mined h n rest
       (s\<lparr>stored_transactions := hm_insert (transaction_hash info)
            \<lparr>mt_info = info, mt_receipt = receipt, mt_block_hash = h, mt_block_number = n\<rparr>
            (stored_transactions s)\<rparr>)"

definition prune_kept_blocks ::
    "tx_crypto \<Rightarrow> nat option \<Rightarrow> u64 \<Rightarrow> 'n BlockchainStorage \<Rightarrow> 'n BlockchainStorage" where
  "prune_kept_blocks cr keeper n s =
     (case keeper of
        Some k \<Rightarrow>
          (if k < length (blocks s)
           then remove_block_transactions_by_number cr
                  (saturating_sub n (if k < 2 ^ 64 then of_nat k else - 1)) s
           else s)
      | None \<Rightarrow> s)"

definition store_block ::
    "tx_crypto \<Rightarrow> bool \<Rightarrow> nat option \<Rightarrow> u64 \<Rightarrow> B256 \<Rightarrow> 'n BlockInfo \<Rightarrow> 'n BlockchainStorage \<Rightarrow> 'n BlockchainStorage" where
  "store_block cr eip3675 keeper block_number block_hash bi s =
     (let block = bi_block bi;
          s1 = s\<lparr>best_number := block_number, best_hash := block_hash,
                 total_difficulty := (if eip3675 then total_difficulty s
                   else saturating_add (total_difficulty s) (difficulty (header block))),
                 blocks := hm_insert block_hash block (blocks s),
                 hashes := hm_insert block_number block_hash (hashes s)\<rparr>;
          s2 = insert_mined block_hash block_number (zip (bi_transactions bi) (bi_receipts bi)) s1
      in prune_kept_blocks cr keeper block_number s2)"

definition revert_one :: "tx_crypto \<Rightarrow> 'n BlockchainStorage \<Rightarrow> u64 \<Rightarrow> 'n BlockchainStorage" where
  "revert_one cr s n =
     (case hm_get (hashes s) n of
        Some h \<Rightarrow>
          (let s1 = s\<lparr>hashes := hm_remove n (hashes s)\<rparr>
           in case hm_get (blocks s1) h of
                Some block \<Rightarrow>
                  s1\<lparr>blocks := hm_remove h (blocks s1),
                     stored_transactions :=
                       foldl (\<lambda>m tx. hm_remove (maybe_hash cr tx) m) (stored_transactions s1) (transactions block)\<rparr>
              | None \<Rightarrow> s1)
      | None \<Rightarrow> s)"

definition revert_blocks ::
    "tx_crypto \<Rightarrow> u64 \<Rightarrow> B256 \<Rightarrow> 'n BlockchainStorage \<Rightarrow> 'n BlockchainStorage option" where
  "revert_blocks cr num h s =
     do {
       first \<leftarrow> checked_add num 1;
       let s' = foldl (revert_one cr) s (rev (u64_range first (best_number s)));
       Some (s'\<lparr>best_number := num, best_hash := h\<rparr>)
     }"

section \<open>Map facts\<close>

lemma hm_remove_filter: "hm_remove k m = filter (\<lambda>p. fst p \<noteq> k) m"
  by (induction m) auto

lemma remove_all_filter: "foldl (\<lambda>m x. hm_remove (f x) m) m xs = filter (\<lambda>p. fst p \<notin> f ` set xs) m"
  by (induction xs arbitrary: m) (simp_all add: hm_remove_filter conj_commute)

lemma hm_insert_fresh: "k \<notin> set (hm_keys m) \<Longrightarrow> hm_insert k v m = m @ [(k, v)]"
  by (induction m) auto

lemma filter_fresh: "set (hm_keys m) \<inter> K = {} \<Longrightarrow> filter (\<lambda>p. fst p \<notin> K) m = m"
  by (induction m) auto

lemma hm_remove_absent: "hm_get m k = None \<Longrightarrow> hm_remove k m = m"
  using filter_fresh [of m "{k}"] by (simp add: hm_remove_filter map_of_eq_None_iff)

lemma hm_get_filter: "hm_get (filter (\<lambda>p. fst p \<notin> K) m) k = (if k \<in> K then None else hm_get m k)"
  by (induction m) auto

lemma u64_range_snoc:
  assumes "lo \<le> hi"
  shows "u64_range lo hi = (if lo = hi then [] else u64_range lo (hi - 1)) @ [hi]"
proof (cases "lo = hi")
  case True
  then show ?thesis by (simp add: u64_range_def)
next
  case False
  with assms have less: "unat lo < unat hi" by (simp add: word_le_nat_alt word_unat_eq_iff)
  then have "1 \<le> hi" by (simp add: word_le_nat_alt)
  then have "Suc (unat (hi - 1)) = unat hi" using less by (simp add: unat_sub)
  with False less show ?thesis by (simp add: u64_range_def)
qed

lemma u64_range_empty: "hi < lo \<Longrightarrow> u64_range lo hi = []"
  by (simp add: u64_range_def word_less_nat_alt)

lemma set_u64_range: "set (u64_range lo hi) = {k. lo \<le> k \<and> k \<le> hi}"
proof -
  have "k \<in> set (u64_range lo hi)" if "lo \<le> k" "k \<le> hi" for k
  proof -
    have "of_nat (unat k) = k" "unat k \<in> {unat lo..<Suc (unat hi)}"
      using that by (simp_all add: word_le_nat_alt)
    then show ?thesis unfolding u64_range_def by (metis image_eqI list.set_map set_upt)
  qed
  moreover have "lo \<le> k \<and> k \<le> hi" if k: "k \<in> set (u64_range lo hi)" for k
  proof -
    from k obtain i where i: "k = of_nat i" "unat lo \<le> i" "i < Suc (unat hi)"
      by (auto simp: u64_range_def)
    have "unat hi < 2 ^ LENGTH(64)" by (rule unsigned_less)
    with i have "unat k = i" by (simp add: unat_of_nat)
    with i show ?thesis by (simp add: word_le_nat_alt)
  qed
  ultimately show ?thesis by blast
qed

section \<open>Storing a block\<close>

lemma insert_mined_fields [simp]:
  "blocks (insert_mined h n xs s) = blocks s" "hashes (insert_mined h n xs s) = hashes s"
  "best_hash (insert_mined h n xs s) = best_hash s" "best_number (insert_mined h n xs s) = best_number s"
  "genesis_hash (insert_mined h n xs s) = genesis_hash s"
  "total_difficulty (insert_mined h n xs s) = total_difficulty s"
  by (induction h n xs s rule: insert_mined.induct) simp_all

definition mined_entries ::
    "B256 \<Rightarrow> u64 \<Rightarrow> ('n TransactionInfo \<times> TypedReceipt) list \<Rightarrow> (B256 \<times> 'n MinedTransaction) list" where
  "mined_entries h n xs = map (\<lambda>(info, receipt). (transaction_hash info,
     \<lparr>mt_info = info, mt_receipt = receipt, mt_block_hash = h, mt_block_number = n\<rparr>)) xs"

lemma insert_mined_fresh:
  "distinct (map (transaction_hash \<circ> fst) xs) \<Longrightarrow>
   set (hm_keys (stored_transactions s)) \<inter> set (map (transaction_hash \<circ> fst) xs) = {} \<Longrightarrow>
   stored_transactions (insert_mined h n xs s) = stored_transactions s @ mined_entries h n xs"
proof (induction h n xs s rule: insert_mined.induct)
  case (2 h n info receipt rest s)
  then have "transaction_hash info \<notin> set (hm_keys (stored_transactions s))" by auto
  with 2 show ?case by (simp add: hm_insert_fresh mined_entries_def Int_Un_distrib2)
qed (simp add: mined_entries_def)

text \<open>A block that can be stored next: its infos belong to its transactions, and nothing of it is
  stored yet.\<close>

definition storable :: "tx_crypto \<Rightarrow> B256 \<Rightarrow> 'n BlockInfo \<Rightarrow> 'n BlockchainStorage \<Rightarrow> bool" where
  "storable cr h bi s \<longleftrightarrow>
     map transaction_hash (bi_transactions bi) = map (maybe_hash cr) (transactions (bi_block bi)) \<and>
     length (bi_receipts bi) = length (bi_transactions bi) \<and>
     distinct (map (maybe_hash cr) (transactions (bi_block bi))) \<and>
     set (hm_keys (stored_transactions s)) \<inter> maybe_hash cr ` set (transactions (bi_block bi)) = {} \<and>
     h \<notin> set (hm_keys (blocks s)) \<and> best_number s + 1 \<notin> set (hm_keys (hashes s)) \<and>
     best_number s \<noteq> - 1"

lemma storable_zip:
  assumes "storable cr h bi s"
  shows "map (transaction_hash \<circ> fst) (zip (bi_transactions bi) (bi_receipts bi)) =
    map (maybe_hash cr) (transactions (bi_block bi))"
proof -
  have "map fst (zip (bi_transactions bi) (bi_receipts bi)) = bi_transactions bi"
    using assms by (simp add: storable_def)
  then have "map transaction_hash (map fst (zip (bi_transactions bi) (bi_receipts bi))) =
      map transaction_hash (bi_transactions bi)"
    by simp
  then show ?thesis using assms by (simp add: storable_def)
qed

lemma store_block_fresh:
  assumes "storable cr h bi s"
  shows "store_block cr e None (best_number s + 1) h bi s =
    s\<lparr>best_number := best_number s + 1, best_hash := h,
      total_difficulty := (if e then total_difficulty s
        else saturating_add (total_difficulty s) (difficulty (header (bi_block bi)))),
      blocks := blocks s @ [(h, bi_block bi)], hashes := hashes s @ [(best_number s + 1, h)],
      stored_transactions := stored_transactions s @
        mined_entries h (best_number s + 1) (zip (bi_transactions bi) (bi_receipts bi))\<rparr>"
proof -
  have "distinct (map (transaction_hash \<circ> fst) (zip (bi_transactions bi) (bi_receipts bi)))"
    "set (hm_keys (stored_transactions s)) \<inter>
       set (map (transaction_hash \<circ> fst) (zip (bi_transactions bi) (bi_receipts bi))) = {}"
    unfolding storable_zip [OF assms] using assms by (simp_all add: storable_def)
  note fresh = insert_mined_fresh [OF this(1)]
  show ?thesis
    using assms \<open>set (hm_keys (stored_transactions s)) \<inter> _ = {}\<close>
    by (intro BlockchainStorage.equality)
      (simp_all add: store_block_def prune_kept_blocks_def Let_def fresh hm_insert_fresh storable_def)
qed

section \<open>Reverting restores the storage\<close>

lemma revert_one_cong:
  "revert_one cr (s\<lparr>best_number := a, best_hash := b, total_difficulty := c\<rparr>) n =
   (revert_one cr s n)\<lparr>best_number := a, best_hash := b, total_difficulty := c\<rparr>"
  by (simp add: revert_one_def Let_def split: option.splits)

lemma revert_fold_cong:
  "foldl (revert_one cr) (s\<lparr>best_number := a, best_hash := b, total_difficulty := c\<rparr>) ns =
   (foldl (revert_one cr) s ns)\<lparr>best_number := a, best_hash := b, total_difficulty := c\<rparr>"
  by (induction ns arbitrary: s) (simp_all only: foldl.simps revert_one_cong)

lemma mined_entries_keys: "hm_keys (mined_entries h n xs) = map (transaction_hash \<circ> fst) xs"
  by (simp add: mined_entries_def case_prod_beta')

lemma revert_store_one:
  assumes st: "storable cr h bi s"
  shows "revert_one cr (store_block cr e None (best_number s + 1) h bi s) (best_number s + 1) =
    s\<lparr>best_number := best_number s + 1, best_hash := h,
      total_difficulty := total_difficulty (store_block cr e None (best_number s + 1) h bi s)\<rparr>"
proof -
  let ?n = "best_number s + 1" and ?E = "mined_entries h (best_number s + 1) (zip (bi_transactions bi) (bi_receipts bi))"
  have fresh: "h \<notin> set (hm_keys (blocks s))" "?n \<notin> set (hm_keys (hashes s))"
    using st by (simp_all add: storable_def)
  have get: "hm_get (hashes s @ [(?n, h)]) ?n = Some h" "hm_get (blocks s @ [(h, bi_block bi)]) h = Some (bi_block bi)"
    using fresh [folded map_of_eq_None_iff [unfolded set_map [symmetric]]]
    by (simp_all add: map_add_def del: map_of_eq_None_iff)
  have rm: "hm_remove ?n (hashes s @ [(?n, h)]) = hashes s" "hm_remove h (blocks s @ [(h, bi_block bi)]) = blocks s"
    using fresh filter_fresh [of "hashes s" "{?n}"] filter_fresh [of "blocks s" "{h}"]
    by (simp_all add: hm_remove_filter)
  have E: "set (hm_keys ?E) = maybe_hash cr ` set (transactions (bi_block bi))"
    unfolding mined_entries_keys storable_zip [OF st] by simp
  then have "filter (\<lambda>p. fst p \<notin> maybe_hash cr ` set (transactions (bi_block bi))) ?E = []"
    by (auto simp: filter_empty_conv)
  moreover have "filter (\<lambda>p. fst p \<notin> maybe_hash cr ` set (transactions (bi_block bi))) (stored_transactions s) =
      stored_transactions s"
    by (rule filter_fresh) (use st in \<open>simp add: storable_def\<close>)
  ultimately show ?thesis
    by (simp add: store_block_fresh [OF st] revert_one_def Let_def get rm remove_all_filter del: map_of_append)
qed

text \<open>Mining block after block, each on top of the last.\<close>

fun store_run ::
    "tx_crypto \<Rightarrow> bool \<Rightarrow> (B256 \<times> 'n BlockInfo) list \<Rightarrow> 'n BlockchainStorage \<Rightarrow> 'n BlockchainStorage" where
  "store_run cr e [] s = s"
| "store_run cr e ((h, bi) # bis) s = store_run cr e bis (store_block cr e None (best_number s + 1) h bi s)"

fun storable_run :: "tx_crypto \<Rightarrow> bool \<Rightarrow> (B256 \<times> 'n BlockInfo) list \<Rightarrow> 'n BlockchainStorage \<Rightarrow> bool" where
  "storable_run cr e [] s = True"
| "storable_run cr e ((h, bi) # bis) s \<longleftrightarrow>
     storable cr h bi s \<and> storable_run cr e bis (store_block cr e None (best_number s + 1) h bi s)"

lemma store_run_snoc:
  "store_run cr e (xs @ [(h, bi)]) s =
   store_block cr e None (best_number (store_run cr e xs s) + 1) h bi (store_run cr e xs s)"
  by (induction cr e xs s rule: store_run.induct) simp_all

lemma storable_run_snoc:
  "storable_run cr e (xs @ [(h, bi)]) s \<longleftrightarrow> storable_run cr e xs s \<and> storable cr h bi (store_run cr e xs s)"
  by (induction cr e xs s rule: store_run.induct) simp_all

lemma store_run_best:
  "storable_run cr e xs s \<Longrightarrow> unat (best_number (store_run cr e xs s)) = unat (best_number s) + length xs"
proof (induction cr e xs s rule: store_run.induct)
  case (2 cr e h bi bis s)
  then have st: "storable cr h bi s" by simp
  then have "unat (best_number s + 1) = unat (best_number s) + 1"
    using unat_Suc_less_iff [of "best_number s"] by (simp add: storable_def unat_add_no_wrap)
  with 2 store_block_fresh [OF st, of e] show ?case by simp
qed simp

lemma revert_fold_run:
  "storable_run cr e xs s \<Longrightarrow> first = best_number s + 1 \<Longrightarrow> best_number s \<noteq> - 1 \<Longrightarrow>
   \<exists>a b c. foldl (revert_one cr) (store_run cr e xs s) (rev (u64_range first (best_number (store_run cr e xs s)))) =
     s\<lparr>best_number := a, best_hash := b, total_difficulty := c\<rparr>"
proof (induction xs rule: rev_induct)
  case Nil
  have "best_number s < first"
    using Nil(2,3) unat_Suc_less_iff [of "best_number s"] by (simp add: word_less_nat_alt unat_add_no_wrap)
  then have "foldl (revert_one cr) s (rev (u64_range first (best_number s))) =
      s\<lparr>best_number := best_number s, best_hash := best_hash s, total_difficulty := total_difficulty s\<rparr>"
    by (simp add: u64_range_empty)
  then show ?case unfolding store_run.simps by blast
next
  case (snoc x xs)
  obtain h bi where x: "x = (h, bi)" by (cases x)
  let ?t = "store_run cr e xs s"
  from snoc.prems have run: "storable_run cr e xs s" and st: "storable cr h bi ?t"
    by (simp_all add: x storable_run_snoc)
  let ?top = "best_number ?t + 1"
  have top: "best_number (store_block cr e None ?top h bi ?t) = ?top"
    by (simp add: store_block_fresh [OF st])
  have ne: "best_number ?t \<noteq> - 1" using st by (simp add: storable_def)
  have "unat first \<le> unat (best_number ?t) + 1"
    using snoc.prems(2,3) unat_Suc_less_iff [of "best_number s"] store_run_best [OF run]
    by (simp add: unat_add_no_wrap)
  then have "first \<le> ?top"
    using ne unat_Suc_less_iff [of "best_number ?t"] by (simp add: word_le_nat_alt unat_add_no_wrap)
  moreover have "best_number ?t < first" if "first = ?top"
    using that ne unat_Suc_less_iff [of "best_number ?t"] by (simp add: word_less_nat_alt unat_add_no_wrap)
  ultimately have range: "rev (u64_range first ?top) = ?top # rev (u64_range first (best_number ?t))"
    by (cases "first = ?top") (simp_all add: u64_range_snoc u64_range_empty)
  from snoc.IH [OF run snoc.prems(2,3)] obtain a b c where
    "foldl (revert_one cr) ?t (rev (u64_range first (best_number ?t))) =
       s\<lparr>best_number := a, best_hash := b, total_difficulty := c\<rparr>"
    by (elim exE)
  then have "foldl (revert_one cr) (store_run cr e (xs @ [x]) s)
      (rev (u64_range first (best_number (store_run cr e (xs @ [x]) s)))) =
    s\<lparr>best_number := ?top, best_hash := h,
      total_difficulty := total_difficulty (store_block cr e None ?top h bi ?t)\<rparr>"
    by (simp add: x store_run_snoc top range revert_store_one [OF st] revert_fold_cong)
  then show ?case by blast
qed

lemma revert_fold_difficulty [simp]:
  "total_difficulty (foldl (revert_one cr) s ns) = total_difficulty s"
proof (induction ns arbitrary: s)
  case (Cons n ns)
  have "total_difficulty (revert_one cr s n) = total_difficulty s"
    by (simp add: revert_one_def Let_def split: option.splits)
  with Cons show ?case by simp
qed simp

lemma revert_store_run:
  assumes "storable_run cr e bis s" and "best_number s \<noteq> - 1"
  shows "revert_blocks cr (best_number s) (best_hash s) (store_run cr e bis s) =
    Some (s\<lparr>total_difficulty := total_difficulty (store_run cr e bis s)\<rparr>)"
proof -
  from revert_fold_run [OF assms(1) refl assms(2)] obtain a b c where
    run: "foldl (revert_one cr) (store_run cr e bis s)
      (rev (u64_range (best_number s + 1) (best_number (store_run cr e bis s)))) =
     s\<lparr>best_number := a, best_hash := b, total_difficulty := c\<rparr>"
    by (elim exE)
  have "total_difficulty (store_run cr e bis s) = c"
    using arg_cong [OF run, of total_difficulty] by simp
  moreover have "checked_add (best_number s) 1 = Some (best_number s + 1)"
    using assms(2) unat_Suc_less_iff [of "best_number s"] by (simp add: checked_add_def)
  ultimately show ?thesis by (simp add: revert_blocks_def run Let_def)
qed


definition sample_crypto :: tx_crypto where
  "sample_crypto = \<lparr>signer = (\<lambda>_. Some 1), tx_encode = (\<lambda>_. []), deposit_encode = (\<lambda>_. []), keccak = (\<lambda>_. 0)\<rparr>"

definition sample_info :: "B256 \<Rightarrow> unit TransactionInfo" where
  "sample_info h = \<lparr>transaction_hash = h, transaction_index = 0, info_from = 1, info_to = None,
     contract_address = None, traces = [], exit = 1, info_out = None, info_nonce = 0, info_gas_used = 21000\<rparr>"

text \<open>A block with one transaction, whose hash is zero, on top of a forked block.\<close>

definition sample_bi :: "unit BlockInfo" where
  "sample_bi = \<lparr>bi_block = new_Block sample_hashing
       (default_PartialHeader\<lparr>ph_number := 8, ph_parent_hash := 70, ph_difficulty := 5\<rparr>) [sample_legacy 0 9],
     bi_transactions = [sample_info 0], bi_receipts = [sample_receipt 21000]\<rparr>"


section \<open>Unwinding leaves the transactions behind\<close>

text \<open>The index gives every stored block the number in its header.\<close>

definition numbered :: "'n BlockchainStorage \<Rightarrow> bool" where
  "numbered s \<longleftrightarrow> (\<forall>n h b. hm_get (hashes s) n = Some h \<longrightarrow> hm_get (blocks s) h = Some b \<longrightarrow> number (header b) = n)"

lemma unwind_one_numbered:
  assumes "numbered s"
  shows "unwind_one cr s i =
    (case hm_get (hashes s) i of
       Some h \<Rightarrow> s\<lparr>hashes := hm_remove i (hashes s), blocks := hm_remove h (blocks s)\<rparr>
     | None \<Rightarrow> s)"
proof (cases "hm_get (hashes s) i")
  case (Some h)
  show ?thesis
  proof (cases "hm_get (blocks s) h")
    case None
    then have "hm_remove h (blocks s) = blocks s"
      by (rule hm_remove_absent)
    with Some None show ?thesis by (simp add: unwind_one_def)
  next
    case (Some b)
    with \<open>hm_get (hashes s) i = Some h\<close> assms have "number (header b) = i" by (simp add: numbered_def)
    with Some \<open>hm_get (hashes s) i = Some h\<close> show ?thesis
      by (simp add: unwind_one_def remove_block_transactions_by_number_def cont_simps)
  qed
qed (simp add: unwind_one_def)

lemma numbered_remove:
  "numbered s \<Longrightarrow> numbered (s\<lparr>hashes := hm_remove i (hashes s), blocks := hm_remove h (blocks s)\<rparr>)"
  by (auto simp: numbered_def cont_simps)

lemma unwind_fold:
  "numbered s \<Longrightarrow> numbered (foldl (unwind_one cr) s ns) \<and>
   stored_transactions (foldl (unwind_one cr) s ns) = stored_transactions s \<and>
   best_number (foldl (unwind_one cr) s ns) = best_number s \<and>
   (\<forall>k. hm_get (hashes (foldl (unwind_one cr) s ns)) k = (if k \<in> set ns then None else hm_get (hashes s) k)) \<and>
   (\<forall>h. hm_get (blocks (foldl (unwind_one cr) s ns)) h =
      (if \<exists>k\<in>set ns. hm_get (hashes s) k = Some h then None else hm_get (blocks s) h))"
proof (induction ns arbitrary: s)
  case (Cons i ns)
  let ?t = "unwind_one cr s i"
  note one = unwind_one_numbered [OF Cons.prems, of cr i]
  have t: "numbered ?t" "stored_transactions ?t = stored_transactions s" "best_number ?t = best_number s"
    "hashes ?t = hm_remove i (hashes s)"
    using Cons.prems numbered_remove [OF Cons.prems]
    by (auto simp: one hm_remove_absent split: option.splits)
  have b: "hm_get (blocks ?t) h = (if hm_get (hashes s) i = Some h then None else hm_get (blocks s) h)" for h
    by (auto simp: one cont_simps split: option.splits)
  from Cons.IH [OF t(1)] show ?case
    unfolding foldl.simps t(2-4) b
    by (auto simp: cont_simps)
qed simp

lemma unwind_to_numbered:
  assumes "numbered s" and "unwind_to cr n h s = Some s'"
  shows "stored_transactions s' = stored_transactions s \<and> best_number s' = n \<and> best_hash s' = h \<and> numbered s' \<and>
    (\<forall>k. hm_get (hashes s') k = (if n < k \<and> k \<le> best_number s then None else hm_get (hashes s) k)) \<and>
    (\<forall>g. hm_get (blocks s') g =
       (if \<exists>k. n < k \<and> k \<le> best_number s \<and> hm_get (hashes s) k = Some g then None else hm_get (blocks s) g))"
proof -
  from assms(2) obtain first where first: "checked_add n 1 = Some first"
    and s': "s' = (foldl (unwind_one cr) s (u64_range first (best_number s)))\<lparr>best_hash := h, best_number := n\<rparr>"
    by (auto simp: unwind_to_def Let_def split: bind_splits)
  then have "unat first = unat n + 1" by (auto simp: checked_add_Some unat_add_no_wrap)
  then have range: "k \<in> set (u64_range first (best_number s)) \<longleftrightarrow> n < k \<and> k \<le> best_number s" for k
    by (auto simp: set_u64_range word_le_nat_alt word_less_nat_alt)
  from unwind_fold [OF assms(1), of cr "u64_range first (best_number s)"] show ?thesis
    unfolding s' range numbered_def by (simp add: Bex_def range)
qed

text \<open>C36. Unwinding the chain, which a rollback and a reorganisation do, forgets the blocks above the
  target and their numbers, but none of their transactions: every transaction and receipt of a removed
  block can still be looked up, with the hash of a block that is gone.\<close>

theorem unwind_keeps_transactions:
  assumes "numbered s" and "unwind_to cr n h s = Some s'"
    and "get_transaction_by_hash s g = Some t" and "hm_get (hashes s) k = Some (mt_block_hash t)"
    and "n < k" and "k \<le> best_number s"
  shows "get_transaction_by_hash s' g = Some t \<and> get_block_by_hash s' (mt_block_hash t) = None"
  using unwind_to_numbered [OF assms(1,2)] assms(3-6)
  by (auto simp: get_transaction_by_hash_def get_block_by_hash_def)

theorem unwind_keeps_transactions_witness:
  "\<exists>s' t. unwind_to sample_crypto 7 70 (store_run sample_crypto True [(80, sample_bi)] (forked_storage 7 70 100)) = Some s' \<and>
     best_number s' = 7 \<and> get_transaction_by_hash s' 0 = Some t \<and> get_block_by_hash s' (mt_block_hash t) = None"
proof -
  let ?s = "store_run sample_crypto True [(80, sample_bi)] (forked_storage 7 70 100)"
  have hs: "hashes ?s = [(7, 70), (8, 80)]" and bs: "blocks ?s = [(80, bi_block sample_bi)]"
    and best: "best_number ?s = 8" by code_simp+
  have num: "number (header (bi_block sample_bi)) = 8" by code_simp
  have n: "numbered ?s" unfolding numbered_def hs bs by (auto simp: num split: if_splits)
  have u: "unwind_to sample_crypto 7 70 ?s \<noteq> None" by code_simp
  then obtain s' where u: "unwind_to sample_crypto 7 70 ?s = Some s'" by auto
  have "get_transaction_by_hash ?s 0 \<noteq> None" by code_simp
  then obtain t where t: "get_transaction_by_hash ?s 0 = Some t" by auto
  have "map_option mt_block_hash (get_transaction_by_hash ?s 0) = Some 80" by code_simp
  with t have th: "mt_block_hash t = 80" by simp
  have k: "hm_get (hashes ?s) 8 = Some (mt_block_hash t)" unfolding hs th by simp
  have "best_number s' = 7" using u by (auto simp: unwind_to_def Let_def split: bind_splits)
  with unwind_keeps_transactions [OF n u t k] u best show ?thesis by auto
qed

section \<open>The chain stays linked\<close>

definition header_at :: "'n BlockchainStorage \<Rightarrow> B256 \<Rightarrow> Header option" where
  "header_at s h = map_option header (hm_get (blocks s) h)"

text \<open>The index covers the numbers from \<open>base\<close> to the best block without gaps and without
  repetitions, blocks are stored under their hash, and above the base every block is stored and names
  the block before it as its parent. (The base is the genesis block, or the block of a fork, which is
  not stored.)\<close>

definition chain_ok :: "chain_hashing \<Rightarrow> u64 \<Rightarrow> 'n BlockchainStorage \<Rightarrow> bool" where
  "chain_ok hs base s \<longleftrightarrow>
     base \<le> best_number s \<and>
     (\<forall>n. hm_get (hashes s) n = None \<longleftrightarrow> \<not> (base \<le> n \<and> n \<le> best_number s)) \<and>
     hm_get (hashes s) (best_number s) = Some (best_hash s) \<and>
     (\<forall>n m h. hm_get (hashes s) n = Some h \<longrightarrow> hm_get (hashes s) m = Some h \<longrightarrow> n = m) \<and>
     (\<forall>h d. header_at s h = Some d \<longrightarrow> hash_slow hs d = h) \<and>
     (\<forall>n h h'. base \<le> n \<longrightarrow> n < best_number s \<longrightarrow> hm_get (hashes s) n = Some h \<longrightarrow>
        hm_get (hashes s) (n + 1) = Some h' \<longrightarrow> map_option parent_hash (header_at s h') = Some h)"

lemma chain_okD:
  assumes "chain_ok hs base s"
  shows "base \<le> best_number s"
    and "hm_get (hashes s) n = None \<longleftrightarrow> \<not> (base \<le> n \<and> n \<le> best_number s)"
    and "hm_get (hashes s) (best_number s) = Some (best_hash s)"
    and "hm_get (hashes s) n = Some h \<Longrightarrow> hm_get (hashes s) m = Some h \<Longrightarrow> n = m"
    and "header_at s h = Some d \<Longrightarrow> hash_slow hs d = h"
    and "base \<le> n \<Longrightarrow> n < best_number s \<Longrightarrow> hm_get (hashes s) n = Some h \<Longrightarrow>
      hm_get (hashes s) (n + 1) = Some h' \<Longrightarrow> map_option parent_hash (header_at s h') = Some h"
  using assms unfolding chain_ok_def by blast+

lemma new_storage_ok:
  "new_BlockchainStorage hs ids env spec fee time = Some s \<Longrightarrow> chain_ok hs 0 s"
  by (auto simp: new_BlockchainStorage_def chain_ok_def header_at_def Let_def split: bind_splits if_splits)

lemma forked_storage_ok: "chain_ok hs n (forked_storage n h td)"
  by (auto simp: forked_storage_def chain_ok_def header_at_def split: if_splits)

lemma chain_ok_shrink:
  assumes ok: "chain_ok hs base s" and n: "hm_get (hashes s) n = Some h"
    and best: "best_number s' = n" "best_hash s' = h"
    and hashes: "\<And>k. hm_get (hashes s') k = (if n < k \<and> k \<le> best_number s then None else hm_get (hashes s) k)"
    and blocks: "\<And>g. header_at s' g =
      (if \<exists>k. n < k \<and> k \<le> best_number s \<and> hm_get (hashes s) k = Some g then None else header_at s g)"
  shows "chain_ok hs base s'"
proof -
  have range: "base \<le> n" "n \<le> best_number s" using chain_okD(2) [OF ok, of n] n by auto
  have dom: "hm_get (hashes s') k = None \<longleftrightarrow> \<not> (base \<le> k \<and> k \<le> n)" for k
    using chain_okD(2) [OF ok, of k] range by (auto simp: hashes)
  have low: "hm_get (hashes s') k = hm_get (hashes s) k" if "k \<le> n" for k
    using that by (auto simp: hashes)
  have keep: "header_at s' g = header_at s g" if "hm_get (hashes s) k = Some g" "k \<le> n" for k g
  proof -
    have "\<not> (\<exists>m. n < m \<and> m \<le> best_number s \<and> hm_get (hashes s) m = Some g)"
    proof
      assume "\<exists>m. n < m \<and> m \<le> best_number s \<and> hm_get (hashes s) m = Some g"
      then obtain m where m: "n < m" "hm_get (hashes s) m = Some g" by blast
      from chain_okD(4) [OF ok m(2) that(1)] m(1) that(2) show False by simp
    qed
    then show ?thesis unfolding blocks by (rule if_not_P)
  qed
  have inj: "k = m" if "hm_get (hashes s') k = Some g" "hm_get (hashes s') m = Some g" for k m g
    using that chain_okD(4) [OF ok] by (auto simp: hashes split: if_splits)
  have keys: "hash_slow hs d = g" if "header_at s' g = Some d" for g d
    using that chain_okD(5) [OF ok] by (auto simp: blocks split: if_splits)
  have link: "map_option parent_hash (header_at s' g') = Some g"
    if k: "base \<le> k" "k < n" "hm_get (hashes s') k = Some g" "hm_get (hashes s') (k + 1) = Some g'" for k g g'
  proof -
    have k1: "k + 1 \<le> n" using k(2) by (rule inc_le)
    have "hm_get (hashes s) k = Some g" "hm_get (hashes s) (k + 1) = Some g'"
      using k low [of k] low [OF k1] by simp_all
    with chain_okD(6) [OF ok k(1), of g g'] keep [OF _ k1] k(2) range show ?thesis by simp
  qed
  have top: "hm_get (hashes s') n = Some h" using n low [of n] by simp
  from range(1) dom top inj keys link show ?thesis unfolding chain_ok_def best by blast
qed

lemma chain_ok_store:
  assumes ok: "chain_ok hs base s" and fresh: "\<And>k. hm_get (hashes s) k \<noteq> Some h"
    and hash: "hash_slow hs d = h" and parent: "parent_hash d = best_hash s"
    and room: "best_number s \<noteq> - 1"
    and best: "best_number s' = best_number s + 1" "best_hash s' = h"
    and hashes: "\<And>k. hm_get (hashes s') k = (if k = best_number s + 1 then Some h else hm_get (hashes s) k)"
    and blocks: "\<And>g. header_at s' g = (if g = h then Some d else header_at s g)"
  shows "chain_ok hs base s'"
proof -
  have next_n: "unat (best_number s + 1) = unat (best_number s) + 1"
    using room unat_Suc_less_iff [of "best_number s"] by (simp add: unat_add_no_wrap)
  have dom: "hm_get (hashes s') k = None \<longleftrightarrow> \<not> (base \<le> k \<and> k \<le> best_number s + 1)" for k
    using chain_okD(1) [OF ok] chain_okD(2) [OF ok, of k] next_n
    by (auto simp: hashes word_le_nat_alt word_unat_eq_iff)
  have inj: "k = m" if "hm_get (hashes s') k = Some g" "hm_get (hashes s') m = Some g" for k m g
    using that chain_okD(4) [OF ok] fresh by (auto simp: hashes split: if_splits)
  have keys: "hash_slow hs c = g" if "header_at s' g = Some c" for g c
    using that chain_okD(5) [OF ok] hash by (auto simp: blocks split: if_splits)
  have link: "map_option parent_hash (header_at s' g') = Some g"
    if k: "base \<le> k" "k < best_number s + 1" "hm_get (hashes s') k = Some g" "hm_get (hashes s') (k + 1) = Some g'" for k g g'
  proof (cases "k = best_number s")
    case True
    with k have "g' = h" "g = best_hash s"
      using chain_okD(3) [OF ok] next_n by (auto simp: hashes)
    with parent show ?thesis by (simp add: blocks)
  next
    case False
    with k(2) next_n have less: "k < best_number s"
      by (auto simp: word_less_nat_alt word_unat_eq_iff)
    then have "k \<noteq> best_number s + 1" "k + 1 \<noteq> best_number s + 1"
      using next_n by (auto simp: word_less_nat_alt)
    with k have old: "hm_get (hashes s) k = Some g" "hm_get (hashes s) (k + 1) = Some g'"
      by (simp_all add: hashes)
    with fresh have "g' \<noteq> h" by blast
    with chain_okD(6) [OF ok k(1) less old] show ?thesis by (simp add: blocks)
  qed
  have "base \<le> best_number s + 1" using chain_okD(1) [OF ok] next_n by (simp add: word_le_nat_alt)
  moreover have "hm_get (hashes s') (best_number s + 1) = Some h" by (simp add: hashes)
  ultimately show ?thesis using dom inj keys link unfolding chain_ok_def best by blast
qed

section \<open>Mining, reverting and unwinding keep the chain\<close>

lemma remove_transactions_keeps:
  "hashes (remove_block_transactions_by_number cr n s) = hashes s"
  "best_number (remove_block_transactions_by_number cr n s) = best_number s"
  "best_hash (remove_block_transactions_by_number cr n s) = best_hash s"
  "genesis_hash (remove_block_transactions_by_number cr n s) = genesis_hash s"
  "header_at (remove_block_transactions_by_number cr n s) h = header_at s h"
  by (auto simp: remove_block_transactions_by_number_def remove_block_transactions_def header_at_def
      cont_simps split: option.splits)

lemma prune_keeps:
  "hashes (prune_kept_blocks cr keeper n s) = hashes s"
  "best_number (prune_kept_blocks cr keeper n s) = best_number s"
  "best_hash (prune_kept_blocks cr keeper n s) = best_hash s"
  "genesis_hash (prune_kept_blocks cr keeper n s) = genesis_hash s"
  "header_at (prune_kept_blocks cr keeper n s) h = header_at s h"
  by (simp_all add: prune_kept_blocks_def remove_transactions_keeps split: option.splits)

lemma store_block_fields:
  "best_number (store_block cr e keeper n h bi s) = n"
  "best_hash (store_block cr e keeper n h bi s) = h"
  "genesis_hash (store_block cr e keeper n h bi s) = genesis_hash s"
  "hm_get (hashes (store_block cr e keeper n h bi s)) k = (if k = n then Some h else hm_get (hashes s) k)"
  "header_at (store_block cr e keeper n h bi s) g = (if g = h then Some (header (bi_block bi)) else header_at s g)"
  by (simp_all add: store_block_def Let_def prune_keeps cont_simps)
    (simp_all add: header_at_def cont_simps)

lemma store_block_ok:
  assumes "chain_ok hs base s" and "\<And>k. hm_get (hashes s) k \<noteq> Some h"
    and "hash_slow hs (header (bi_block bi)) = h" and "parent_hash (header (bi_block bi)) = best_hash s"
    and "best_number s \<noteq> - 1"
  shows "chain_ok hs base (store_block cr e keeper (best_number s + 1) h bi s)"
  by (rule chain_ok_store [OF assms]) (simp_all add: store_block_fields)

lemma revert_fold:
  "(\<forall>k. hm_get (hashes (foldl (revert_one cr) s ns)) k = (if k \<in> set ns then None else hm_get (hashes s) k)) \<and>
   (\<forall>h. header_at (foldl (revert_one cr) s ns) h =
      (if \<exists>k\<in>set ns. hm_get (hashes s) k = Some h then None else header_at s h))"
proof (induction ns arbitrary: s)
  case (Cons i ns)
  let ?t = "revert_one cr s i"
  have t: "hashes ?t = hm_remove i (hashes s)"
    by (auto simp: revert_one_def Let_def hm_remove_absent split: option.splits)
  have b: "header_at ?t h = (if hm_get (hashes s) i = Some h then None else header_at s h)" for h
    by (auto simp: revert_one_def header_at_def Let_def cont_simps split: option.splits)
  from Cons.IH [of ?t] show ?case
    unfolding foldl.simps t b by (auto simp: cont_simps)
qed simp

lemma above_range:
  assumes "checked_add n 1 = Some first"
  shows "k \<in> set (u64_range first b) \<longleftrightarrow> n < k \<and> k \<le> b"
proof -
  from assms have "unat first = unat n + 1" by (auto simp: checked_add_Some unat_add_no_wrap)
  then show ?thesis by (auto simp: set_u64_range word_le_nat_alt word_less_nat_alt)
qed

text \<open>\<open>s'\<close> is \<open>s\<close> cut after number \<open>n\<close>, where the block with hash \<open>h\<close> is.\<close>

definition cut_at :: "u64 \<Rightarrow> B256 \<Rightarrow> 'n BlockchainStorage \<Rightarrow> 'n BlockchainStorage \<Rightarrow> bool" where
  "cut_at n h s s' \<longleftrightarrow>
     best_number s' = n \<and> best_hash s' = h \<and> genesis_hash s' = genesis_hash s \<and>
     (\<forall>k. hm_get (hashes s') k = (if n < k \<and> k \<le> best_number s then None else hm_get (hashes s) k)) \<and>
     (\<forall>g. header_at s' g =
       (if \<exists>k. n < k \<and> k \<le> best_number s \<and> hm_get (hashes s) k = Some g then None else header_at s g))"

lemma revert_genesis: "genesis_hash (foldl (revert_one cr) s ns) = genesis_hash s"
proof (induction ns arbitrary: s)
  case (Cons n ns)
  have "genesis_hash (revert_one cr s n) = genesis_hash s"
    by (simp add: revert_one_def Let_def split: option.splits)
  with Cons show ?case by simp
qed simp

lemma unwind_genesis: "genesis_hash (foldl (unwind_one cr) s ns) = genesis_hash s"
proof (induction ns arbitrary: s)
  case (Cons n ns)
  have "genesis_hash (unwind_one cr s n) = genesis_hash s"
    by (simp add: unwind_one_def Let_def remove_transactions_keeps split: option.splits)
  with Cons show ?case by simp
qed simp

lemma revert_blocks_cut:
  assumes run: "revert_blocks cr n h s = Some s'"
  shows "cut_at n h s s'"
proof -
  from run obtain first where first: "checked_add n 1 = Some first"
    and s': "s' = (foldl (revert_one cr) s (rev (u64_range first (best_number s))))\<lparr>best_number := n, best_hash := h\<rparr>"
    by (auto simp: revert_blocks_def Let_def split: bind_splits)
  note fold = revert_fold [of cr s "rev (u64_range first (best_number s))", unfolded set_rev above_range [OF first] Bex_def]
  have "header_at s' g = header_at (foldl (revert_one cr) s (rev (u64_range first (best_number s)))) g" for g
    by (simp add: s' header_at_def)
  then have "header_at s' g =
      (if \<exists>k. (n < k \<and> k \<le> best_number s) \<and> hm_get (hashes s) k = Some g then None else header_at s g)" for g
    using fold by metis
  then show ?thesis using fold revert_genesis [of cr s] by (simp add: cut_at_def s' conj_assoc)
qed

lemma unwind_to_cut:
  assumes "numbered s" and run: "unwind_to cr n h s = Some s'"
  shows "cut_at n h s s'"
proof -
  have "genesis_hash s' = genesis_hash s"
    using run by (auto simp: unwind_to_def Let_def unwind_genesis split: bind_splits)
  moreover have "header_at s' g =
      (if \<exists>k. n < k \<and> k \<le> best_number s \<and> hm_get (hashes s) k = Some g then None else header_at s g)" for g
    using unwind_to_numbered [OF assms] unfolding header_at_def by (metis option.map(1))
  ultimately show ?thesis using unwind_to_numbered [OF assms] unfolding cut_at_def by blast
qed

lemma cut_at_ok:
  assumes "chain_ok hs base s" and "hm_get (hashes s) n = Some h" and "cut_at n h s s'"
  shows "chain_ok hs base s'"
  by (rule chain_ok_shrink [OF assms(1,2)]) (use assms(3) in \<open>simp_all add: cut_at_def\<close>)

section \<open>Dumps can be loaded again\<close>

text \<open>A storage whose maps agree with each other: blocks and transactions are stored under their
  hashes, and the index names exactly the stored blocks by their numbers.\<close>

definition dumpable :: "chain_hashing \<Rightarrow> 'n BlockchainStorage \<Rightarrow> bool" where
  "dumpable hs s \<longleftrightarrow>
     distinct (hm_keys (blocks s)) \<and> distinct (hm_keys (stored_transactions s)) \<and>
     list_all (\<lambda>(h, b). hash_slow hs (header b) = h \<and> hm_get (hashes s) (number (header b)) = Some h) (blocks s) \<and>
     list_all (\<lambda>(n, h). case hm_get (blocks s) h of Some b \<Rightarrow> number (header b) = n | None \<Rightarrow> False) (hashes s) \<and>
     list_all (\<lambda>(h, t). transaction_hash (mt_info t) = h) (stored_transactions s)"

lemma de_ser [simp]: "de_block (ser_block b) = b" "de_mined (ser_mined t) = t"
  by (simp_all add: de_block_def ser_block_def de_mined_def ser_mined_def comp_def ser_tx_def map_idI)

lemma load_blocks_maps:
  "hm_get (blocks (load_blocks hs (map ser_block bs) s)) =
     hm_get (rev (map (\<lambda>b. (hash_slow hs (header b), b)) bs) @ blocks s)"
  "hm_get (hashes (load_blocks hs (map ser_block bs) s)) =
     hm_get (rev (map (\<lambda>b. (number (header b), hash_slow hs (header b))) bs) @ hashes s)"
  "stored_transactions (load_blocks hs (map ser_block bs) s) = stored_transactions s"
  by (induction bs arbitrary: s) (auto simp: Let_def cont_simps fun_eq_iff map_add_def split: option.splits)

lemma load_transactions_maps:
  "hm_get (stored_transactions (load_transactions (map ser_mined ts) s)) =
     hm_get (rev (map (\<lambda>t. (transaction_hash (mt_info t), t)) ts) @ stored_transactions s)"
  "blocks (load_transactions (map ser_mined ts) s) = blocks s"
  "hashes (load_transactions (map ser_mined ts) s) = hashes s"
  by (induction ts arbitrary: s) (auto simp: Let_def cont_simps fun_eq_iff map_add_def split: option.splits)

lemma map_of_same_set:
  assumes "distinct (map fst ys)" and "\<And>k v. (k, v) \<in> set ys \<longleftrightarrow> map_of xs k = Some v"
  shows "map_of (rev ys) = map_of xs"
proof
  fix k
  have "map_of (rev ys) k = Some v \<longleftrightarrow> map_of xs k = Some v" for v
    using map_of_eq_Some_iff [of "rev ys" k v] assms by (simp add: rev_map [symmetric])
  then show "map_of (rev ys) k = map_of xs k"
    by (metis option.exhaust)
qed

lemma reordered_map:
  assumes "hash_order order" and "distinct (hm_keys m)"
    and "list_all (\<lambda>(k, v). f v = k) m"
  shows "map_of (rev (map (\<lambda>v. (f v, v)) (map snd (order m)))) = map_of m"
proof -
  have s: "set (order m) = set m" by (rule hash_order.set_order [OF assms(1)])
  have "(f v, v) = (k, v)" if "(k, v) \<in> set m" for k v
    using assms(3) that by (auto simp: list_all_iff)
  then have "map ((\<lambda>v. (f v, v)) \<circ> snd) (order m) = order m"
    by (intro map_idI) (auto simp: s)
  then have o: "map (\<lambda>v. (f v, v)) (map snd (order m)) = order m" by simp
  have "distinct m" using assms(2) by (simp add: distinct_map)
  then have "distinct (order m)" by (simp add: hash_order.distinct_order [OF assms(1)])
  then have "distinct (map fst (order m))"
    using assms(2) unfolding distinct_map s by blast
  then show ?thesis
    unfolding o by (rule map_of_same_set) (use assms(2) in \<open>simp add: s map_of_eq_Some_iff\<close>)
qed

lemma reordered_index:
  assumes "hash_order order" and d: "dumpable hs s"
  shows "map_of (rev (map (\<lambda>b. (number (header b), hash_slow hs (header b))) (map snd (order (blocks s))))) = map_of (hashes s)"
proof (rule map_of_same_set)
  have set: "set (order (blocks s)) = set (blocks s)" by (rule hash_order.set_order [OF assms(1)])
  have b: "hash_slow hs (header b) = h \<and> hm_get (hashes s) (number (header b)) = Some h" if "(h, b) \<in> set (blocks s)" for h b
    using d that by (auto simp: dumpable_def list_all_iff)
  have keys: "distinct (hm_keys (blocks s))" using d by (simp add: dumpable_def)
  then have inj: "inj_on fst (set (blocks s))" and "distinct (blocks s)" by (auto simp: distinct_map)
  then have "distinct (order (blocks s))" by (simp add: hash_order.distinct_order [OF assms(1)])
  moreover have "inj_on (\<lambda>p. number (header (snd p))) (set (blocks s))"
  proof (rule inj_onI)
    fix p q assume p: "p \<in> set (blocks s)" and q: "q \<in> set (blocks s)"
      and "number (header (snd p)) = number (header (snd q))"
    with b [of "fst p" "snd p"] b [of "fst q" "snd q"] have "fst p = fst q" by simp
    with inj p q show "p = q" by (auto dest: inj_onD)
  qed
  ultimately show "distinct (map fst (map (\<lambda>b. (number (header b), hash_slow hs (header b))) (map snd (order (blocks s)))))"
    by (simp add: distinct_map set comp_def)
  fix n h
  show "(n, h) \<in> set (map (\<lambda>b. (number (header b), hash_slow hs (header b))) (map snd (order (blocks s)))) \<longleftrightarrow>
    map_of (hashes s) n = Some h"
  proof
    assume "map_of (hashes s) n = Some h"
    then have "(n, h) \<in> set (hashes s)" by (rule map_of_SomeD)
    then obtain c where c: "hm_get (blocks s) h = Some c" "number (header c) = n"
      using d by (auto simp: dumpable_def list_all_iff split: option.splits)
    from map_of_SomeD [OF c(1)] b [of h c] c(2)
    show "(n, h) \<in> set (map (\<lambda>b. (number (header b), hash_slow hs (header b))) (map snd (order (blocks s))))"
      by (force simp: set)
  qed (use b in \<open>force simp: set\<close>)
qed

text \<open>C33. A dump of the storage, in whatever order the hash maps hand out their entries, loaded into
  an empty storage gives back every block, every number and every transaction.\<close>

theorem dump_load_roundtrip:
  assumes "dumpable hs s" and "hash_order ob" and "hash_order ot"
  shows "(let s' = load_transactions (serialized_transactions ot s)
             (load_blocks hs (serialized_blocks ob s) empty_storage)
    in get_block_by_hash s' = get_block_by_hash s \<and> hm_get (hashes s') = hm_get (hashes s) \<and>
       get_transaction_by_hash s' = get_transaction_by_hash s)"
proof -
  have s: "serialized_blocks ob s = map ser_block (map snd (ob (blocks s)))"
    "serialized_transactions ot s = map ser_mined (map snd (ot (stored_transactions s)))"
    by (simp_all add: serialized_blocks_def serialized_transactions_def)
  have "list_all (\<lambda>(h, b). hash_slow hs (header b) = h) (blocks s)"
    and "distinct (hm_keys (blocks s))" and "distinct (hm_keys (stored_transactions s))"
    and "list_all (\<lambda>(h, t). transaction_hash (mt_info t) = h) (stored_transactions s)"
    using assms(1) by (auto simp: dumpable_def list_all_iff)
  note r = reordered_map [where f = "\<lambda>b. hash_slow hs (header b)", OF assms(2) this(2,1)]
    reordered_map [where f = "\<lambda>t. transaction_hash (mt_info t)", OF assms(3) this(3,4)]
    reordered_index [OF assms(2,1)]
  show ?thesis
    unfolding s Let_def get_block_by_hash_def get_transaction_by_hash_def
    by (simp only: load_transactions_maps load_blocks_maps) (simp add: empty_storage_def r [unfolded map_map])
qed

text \<open>A block without transactions and one with a transaction on top.\<close>

definition two_blocks :: "unit BlockchainStorage" where
  "two_blocks = store_block sample_crypto True None 8 9 sample_bi
     (load_blocks sample_hashing [ser_block (new_Block sample_hashing (default_PartialHeader\<lparr>ph_number := 7\<rparr>) [])] empty_storage)"

theorem dump_load_roundtrip_witness:
  "dumpable sample_hashing two_blocks \<and> blocks_count two_blocks = 2 \<and>
   map_option mt_block_number (get_transaction_by_hash (load_transactions (serialized_transactions reverse_order two_blocks)
      (load_blocks sample_hashing (serialized_blocks reverse_order two_blocks) empty_storage)) 0) = Some 8"
proof -
  have d: "dumpable sample_hashing two_blocks" by code_simp
  have t: "map_option mt_block_number (get_transaction_by_hash two_blocks 0) = Some 8" by code_simp
  have "blocks_count two_blocks = 2" by code_simp
  with d t dump_load_roundtrip [OF d reversed.hash_order_axioms reversed.hash_order_axioms]
  show ?thesis by (simp add: Let_def)
qed

end
