(* ===== verification/Anvil_Db.thy ===== *)
theory Anvil_Db
  imports Anvil_Chain
begin

text \<open>
  The in-memory database of \<open>anvil\<close>: snapshots of \<open>revm\<close>'s \<open>CacheDB\<close>
  (\<open>crates/anvil/src/eth/backend/db.rs\<close>), the numbered snapshots of
  \<open>crates/evm/core/src/state_snapshot.rs\<close>, and \<open>MemDb\<close>
  (\<open>crates/anvil/src/eth/backend/mem/in_memory_db.rs\<close>, \<open>crates/evm/core/src/backend/in_memory_db.rs\<close>).

  Bytecode is a type parameter \<open>'c\<close>. Of a \<open>CacheDB\<close> the fields are kept that the sources touch; how
  transactions change them is up to the virtual machine, so a lemma about a database that is written to
  holds for every sequence of contents. The lemmas show that a state survives being moved out and back
  in, and that a numbered snapshot survives everything except a revert to an older one.
\<close>

section \<open>Databases and their snapshots\<close>

record 'c AccountInfo =
  ai_balance :: U256
  ai_nonce :: u64
  code_hash :: B256
  ai_code :: "'c option"

datatype AccountState = NotExisting | Touched | StorageCleared | NoState

record 'c DbAccount =
  acc_info :: "'c AccountInfo"
  account_state :: AccountState
  acc_storage :: "(U256, U256) hmap"

record 'c CacheDB =
  accounts :: "(Address, 'c DbAccount) hmap"
  contracts :: "(B256, 'c) hmap"
  block_hashes :: "(U256, B256) hmap"

record 'c StateSnapshot =
  snap_accounts :: "(Address, 'c AccountInfo) hmap"
  snap_storage :: "(Address, (U256, U256) hmap) hmap"
  snap_block_hashes :: "(U256, B256) hmap"

type_synonym 'c account_order = "(Address \<times> 'c DbAccount) list \<Rightarrow> (Address \<times> 'c DbAccount) list"
type_synonym 'c info_order = "(Address \<times> 'c AccountInfo) list \<Rightarrow> (Address \<times> 'c AccountInfo) list"

definition empty_db :: "'c CacheDB" where
  "empty_db = \<lparr>accounts = [], contracts = [], block_hashes = []\<rparr>"

text \<open>The loop of \<open>clear_into_state_snapshot\<close> takes the code of an account out of \<open>contracts\<close>; a
  second account with the same code finds it gone.\<close>

fun take_accounts ::
    "(Address \<times> 'c DbAccount) list \<Rightarrow> (B256, 'c) hmap \<Rightarrow> (Address, 'c AccountInfo) hmap \<Rightarrow>
     (Address, (U256, U256) hmap) hmap \<Rightarrow>
     (B256, 'c) hmap \<times> (Address, 'c AccountInfo) hmap \<times> (Address, (U256, U256) hmap) hmap" where
  "take_accounts [] cs accs storage = (cs, accs, storage)"
| "take_accounts ((addr, acc) # rest) cs accs storage =
     (let h = code_hash (acc_info acc)
      in take_accounts rest (hm_remove h cs)
           (hm_insert addr ((acc_info acc)\<lparr>ai_code := hm_get cs h\<rparr>) accs)
           (hm_insert addr (acc_storage acc) storage))"

definition clear_into_state_snapshot :: "'c account_order \<Rightarrow> 'c CacheDB \<Rightarrow> 'c StateSnapshot \<times> 'c CacheDB" where
  "clear_into_state_snapshot order db =
     (let (cs, accs, storage) = take_accounts (order (accounts db)) (contracts db) [] []
      in (\<lparr>snap_accounts = accs, snap_storage = storage, snap_block_hashes = block_hashes db\<rparr>,
          db\<lparr>accounts := [], contracts := cs, block_hashes := []\<rparr>))"

fun read_accounts ::
    "(B256, 'c) hmap \<Rightarrow> (Address \<times> 'c DbAccount) list \<Rightarrow> (Address, 'c AccountInfo) hmap \<Rightarrow>
     (Address, (U256, U256) hmap) hmap \<Rightarrow> (Address, 'c AccountInfo) hmap \<times> (Address, (U256, U256) hmap) hmap" where
  "read_accounts cs [] accs storage = (accs, storage)"
| "read_accounts cs ((addr, acc) # rest) accs storage =
     read_accounts cs rest
       (hm_insert addr ((acc_info acc)\<lparr>ai_code := hm_get cs (code_hash (acc_info acc))\<rparr>) accs)
       (hm_insert addr (acc_storage acc) storage)"

definition read_as_state_snapshot :: "'c account_order \<Rightarrow> 'c CacheDB \<Rightarrow> 'c StateSnapshot" where
  "read_as_state_snapshot order db =
     (let (accs, storage) = read_accounts (contracts db) (order (accounts db)) [] []
      in \<lparr>snap_accounts = accs, snap_storage = storage, snap_block_hashes = block_hashes db\<rparr>)"

definition clear_db :: "'c account_order \<Rightarrow> 'c CacheDB \<Rightarrow> 'c CacheDB" where
  "clear_db order db = snd (clear_into_state_snapshot order db)"

fun init_accounts ::
    "(Address \<times> 'c AccountInfo) list \<Rightarrow> (Address, (U256, U256) hmap) hmap \<Rightarrow> 'c CacheDB \<Rightarrow> 'c CacheDB" where
  "init_accounts [] storage db = db"
| "init_accounts ((addr, acc) # rest) storage db =
     (let cs = (case ai_code acc of Some code \<Rightarrow> hm_insert (code_hash acc) code (contracts db) | None \<Rightarrow> contracts db);
          dbacc = \<lparr>acc_info = acc\<lparr>ai_code := None\<rparr>, account_state = NoState,
            acc_storage = (case hm_get storage addr of Some st \<Rightarrow> st | None \<Rightarrow> [])\<rparr>
      in init_accounts rest (hm_remove addr storage)
           (db\<lparr>contracts := cs, accounts := hm_insert addr dbacc (accounts db)\<rparr>))"

definition init_from_state_snapshot :: "'c info_order \<Rightarrow> 'c StateSnapshot \<Rightarrow> 'c CacheDB \<Rightarrow> 'c CacheDB" where
  "init_from_state_snapshot order snap db =
     (init_accounts (order (snap_accounts snap)) (snap_storage snap) db)
       \<lparr>block_hashes := snap_block_hashes snap\<rparr>"

section \<open>Numbered snapshots\<close>

record 't StateSnapshots =
  snap_id :: U256
  state_snapshots :: "(U256, 't) hmap"

definition no_snapshots :: "'t StateSnapshots" where
  "no_snapshots = \<lparr>snap_id = 0, state_snapshots = []\<rparr>"

definition next_snap_id :: "'t StateSnapshots \<Rightarrow> U256 \<times> 't StateSnapshots" where
  "next_snap_id s = (snap_id s, s\<lparr>snap_id := saturating_add (snap_id s) 1\<rparr>)"

definition snap_get :: "U256 \<Rightarrow> 't StateSnapshots \<Rightarrow> 't option" where
  "snap_get i s = hm_get (state_snapshots s) i"

text \<open>Addition on \<open>U256\<close> wraps around.\<close>

function remove_after :: "U256 \<Rightarrow> U256 \<Rightarrow> (U256, 't) hmap \<Rightarrow> (U256, 't) hmap" where
  "remove_after to_revert limit m =
     (if to_revert < limit then remove_after (to_revert + 1) limit (hm_remove to_revert m) else m)"
  by pat_completeness auto

lemma unat_succ_below: "unat (w + 1) = unat w + 1" if "w < v" for w v :: "'a::len word"
proof -
  have "w \<noteq> - 1" using that by (metis leD word_n1_ge)
  then show ?thesis using unat_Suc_less_iff [of w] by (simp add: unat_add_no_wrap)
qed

termination remove_after
proof (relation "measure (\<lambda>(t, limit, m). unat limit - unat t)")
  fix t limit :: U256 and m :: "(U256, 't) hmap"
  assume t: "t < limit"
  then have "unat t < unat limit" by (simp add: word_less_nat_alt)
  with unat_succ_below [OF t]
  show "((t + 1, limit, hm_remove t m), (t, limit, m)) \<in> measure (\<lambda>(t, limit, m). unat limit - unat t)"
    by simp
qed simp

declare remove_after.simps [simp del]

definition snap_remove :: "U256 \<Rightarrow> 't StateSnapshots \<Rightarrow> 't option \<times> 't StateSnapshots" where
  "snap_remove i s =
     (hm_get (state_snapshots s) i,
      s\<lparr>state_snapshots := remove_after (i + 1) (snap_id s) (hm_remove i (state_snapshots s))\<rparr>)"

definition snap_clear :: "'t StateSnapshots \<Rightarrow> 't StateSnapshots" where
  "snap_clear s = s\<lparr>state_snapshots := []\<rparr>"

definition snap_remove_at :: "U256 \<Rightarrow> 't StateSnapshots \<Rightarrow> 't option \<times> 't StateSnapshots" where
  "snap_remove_at i s = (hm_get (state_snapshots s) i, s\<lparr>state_snapshots := hm_remove i (state_snapshots s)\<rparr>)"

definition snap_insert :: "'t \<Rightarrow> 't StateSnapshots \<Rightarrow> U256 \<times> 't StateSnapshots" where
  "snap_insert t s =
     (let (i, s1) = next_snap_id s in (i, s1\<lparr>state_snapshots := hm_insert i t (state_snapshots s1)\<rparr>))"

definition snap_insert_at :: "'t \<Rightarrow> U256 \<Rightarrow> 't StateSnapshots \<Rightarrow> U256 \<times> 't StateSnapshots" where
  "snap_insert_at t i s = (i, s\<lparr>state_snapshots := hm_insert i t (state_snapshots s)\<rparr>)"

section \<open>The in-memory database\<close>

record 'c MemDb =
  inner :: "'c CacheDB"
  mem_snapshots :: "'c CacheDB StateSnapshots"

datatype RevertStateSnapshotAction = RevertRemove | RevertKeep

definition is_keep :: "RevertStateSnapshotAction \<Rightarrow> bool" where
  "is_keep a = (a = RevertKeep)"

definition default_MemDb :: "'c MemDb" where
  "default_MemDb = \<lparr>inner = empty_db, mem_snapshots = no_snapshots\<rparr>"

definition snapshot_state :: "'c MemDb \<Rightarrow> U256 \<times> 'c MemDb" where
  "snapshot_state db =
     (let (i, ss) = snap_insert (inner db) (mem_snapshots db) in (i, db\<lparr>mem_snapshots := ss\<rparr>))"

definition revert_state :: "U256 \<Rightarrow> RevertStateSnapshotAction \<Rightarrow> 'c MemDb \<Rightarrow> bool \<times> 'c MemDb" where
  "revert_state i action db =
     (let (found, ss) = snap_remove i (mem_snapshots db)
      in case found of
           Some snap \<Rightarrow>
             (let ss' = (if is_keep action then snd (snap_insert_at snap i ss) else ss)
              in (True, db\<lparr>mem_snapshots := ss', inner := snap\<rparr>))
         | None \<Rightarrow> (False, db\<lparr>mem_snapshots := ss\<rparr>))"

definition current_state :: "'c MemDb \<Rightarrow> 'c MemDb" where
  "current_state db = default_MemDb\<lparr>inner := inner db\<rparr>"

definition db_insert_block_hash :: "U256 \<Rightarrow> B256 \<Rightarrow> 'c MemDb \<Rightarrow> 'c MemDb" where
  "db_insert_block_hash num h db =
     db\<lparr>inner := (inner db)\<lparr>block_hashes := hm_insert num h (block_hashes (inner db))\<rparr>\<rparr>"

section \<open>Accounts, dumps and their loading\<close>

text \<open>The operations of \<open>revm\<close> that the sources call on a \<open>CacheDB\<close>, and those on bytecode.\<close>

record ('c, 'e) cache_ops =
  basic_ref :: "'c CacheDB \<Rightarrow> Address \<Rightarrow> 'e + 'c AccountInfo option"
  basic :: "'c CacheDB \<Rightarrow> Address \<Rightarrow> ('e + 'c AccountInfo option) \<times> 'c CacheDB"
  code_by_hash_ref :: "'c CacheDB \<Rightarrow> B256 \<Rightarrow> 'e + 'c"
  insert_account_info :: "Address \<Rightarrow> 'c AccountInfo \<Rightarrow> 'c CacheDB \<Rightarrow> 'c CacheDB"
  insert_account_storage :: "Address \<Rightarrow> U256 \<Rightarrow> U256 \<Rightarrow> 'c CacheDB \<Rightarrow> ('e + unit) \<times> 'c CacheDB"
  new_raw :: "Bytes \<Rightarrow> 'c"
  default_code :: 'c
  code_hash_slow :: "'c \<Rightarrow> B256"
  original_bytes :: "'c \<Rightarrow> Bytes"
  keccak_code :: "Bytes \<Rightarrow> B256"
  KECCAK_EMPTY :: B256

definition default_AccountInfo :: "('c, 'e) cache_ops \<Rightarrow> 'c AccountInfo" where
  "default_AccountInfo ops = \<lparr>ai_balance = 0, ai_nonce = 0, code_hash = KECCAK_EMPTY ops, ai_code = Some (default_code ops)\<rparr>"

definition db_insert_account :: "('c, 'e) cache_ops \<Rightarrow> Address \<Rightarrow> 'c AccountInfo \<Rightarrow> 'c MemDb \<Rightarrow> 'c MemDb" where
  "db_insert_account ops a acc db = db\<lparr>inner := insert_account_info ops a acc (inner db)\<rparr>"

definition db_set_storage_at ::
    "('c, 'e) cache_ops \<Rightarrow> Address \<Rightarrow> B256 \<Rightarrow> B256 \<Rightarrow> 'c MemDb \<Rightarrow> ('e + unit) \<times> 'c MemDb" where
  "db_set_storage_at ops a slot val db =
     (let (r, c) = insert_account_storage ops a slot val (inner db) in (r, db\<lparr>inner := c\<rparr>))"

text \<open>The three setters read the account, change one field and write it back.\<close>

definition db_update_account ::
    "('c, 'e) cache_ops \<Rightarrow> ('c AccountInfo \<Rightarrow> 'c AccountInfo) \<Rightarrow> Address \<Rightarrow> 'c MemDb \<Rightarrow> ('e + unit) \<times> 'c MemDb" where
  "db_update_account ops f a db =
     (let (r, c) = basic ops (inner db) a; db1 = db\<lparr>inner := c\<rparr>
      in case r of
           Inl e \<Rightarrow> (Inl e, db1)
         | Inr acc \<Rightarrow>
             (let acc' = f (case acc of Some i \<Rightarrow> i | None \<Rightarrow> default_AccountInfo ops)
              in (Inr (), db_insert_account ops a acc' db1)))"

definition db_set_nonce :: "('c, 'e) cache_ops \<Rightarrow> Address \<Rightarrow> u64 \<Rightarrow> 'c MemDb \<Rightarrow> ('e + unit) \<times> 'c MemDb" where
  "db_set_nonce ops a n = db_update_account ops (\<lambda>i. i\<lparr>ai_nonce := n\<rparr>) a"

definition db_set_balance :: "('c, 'e) cache_ops \<Rightarrow> Address \<Rightarrow> U256 \<Rightarrow> 'c MemDb \<Rightarrow> ('e + unit) \<times> 'c MemDb" where
  "db_set_balance ops a balance = db_update_account ops (\<lambda>i. i\<lparr>ai_balance := balance\<rparr>) a"

definition db_set_code :: "('c, 'e) cache_ops \<Rightarrow> Address \<Rightarrow> Bytes \<Rightarrow> 'c MemDb \<Rightarrow> ('e + unit) \<times> 'c MemDb" where
  "db_set_code ops a code =
     db_update_account ops
       (\<lambda>i. i\<lparr>code_hash := (if code = [] then KECCAK_EMPTY ops else keccak_code ops code),
              ai_code := Some (new_raw ops code)\<rparr>) a"

record SerializableAccountRecord =
  sar_nonce :: u64
  sar_balance :: U256
  sar_code :: Bytes
  sar_storage :: "(B256 \<times> B256) list"

record ('n, 'c) SerializableState =
  ss_block :: "BlockEnv option"
  ss_accounts :: "(Address \<times> SerializableAccountRecord) list"
  ss_best_block_number :: "u64 option"
  ss_blocks :: "SerializableBlock list"
  ss_transactions :: "'n SerializableTransaction list"
  ss_historical_states :: "(B256 \<times> 'c StateSnapshot) list option"

fun dump_accounts ::
    "('c, 'e) cache_ops \<Rightarrow> 'c CacheDB \<Rightarrow> (Address \<times> 'c DbAccount) list \<Rightarrow>
     'e + (Address \<times> SerializableAccountRecord) list" where
  "dump_accounts ops db [] = Inr []"
| "dump_accounts ops db ((k, v) # rest) =
     (case (case ai_code (acc_info v) of Some code \<Rightarrow> Inr code
            | None \<Rightarrow> code_by_hash_ref ops db (code_hash (acc_info v))) of
        Inl e \<Rightarrow> Inl e
      | Inr code \<Rightarrow>
          (case dump_accounts ops db rest of
             Inl e \<Rightarrow> Inl e
           | Inr records \<Rightarrow>
               Inr ((k, \<lparr>sar_nonce = ai_nonce (acc_info v), sar_balance = ai_balance (acc_info v),
                         sar_code = original_bytes ops code,
                         sar_storage = sort_key fst (acc_storage v)\<rparr>) # records)))"

text \<open>The records are collected into a \<open>BTreeMap\<close>, which sorts them by address.\<close>

definition mem_dump_state ::
    "('c, 'e) cache_ops \<Rightarrow> 'c account_order \<Rightarrow> BlockEnv \<Rightarrow> u64 \<Rightarrow> SerializableBlock list \<Rightarrow>
     'n SerializableTransaction list \<Rightarrow> (B256 \<times> 'c StateSnapshot) list option \<Rightarrow> 'c MemDb \<Rightarrow>
     'e + ('n, 'c) SerializableState" where
  "mem_dump_state ops order at best sblocks stxs historical db =
     (case dump_accounts ops (inner db) (order (accounts (inner db))) of
        Inl e \<Rightarrow> Inl e
      | Inr records \<Rightarrow>
          Inr \<lparr>ss_block = Some at, ss_accounts = sort_key fst records, ss_best_block_number = Some best,
               ss_blocks = sblocks, ss_transactions = stxs, ss_historical_states = historical\<rparr>)"

fun load_storage ::
    "('c, 'e) cache_ops \<Rightarrow> Address \<Rightarrow> (B256 \<times> B256) list \<Rightarrow> 'c MemDb \<Rightarrow> ('e + unit) \<times> 'c MemDb" where
  "load_storage ops a [] db = (Inr (), db)"
| "load_storage ops a ((k, v) # rest) db =
     (case db_set_storage_at ops a k v db of
        (Inl e, db1) \<Rightarrow> (Inl e, db1)
      | (Inr _, db1) \<Rightarrow> load_storage ops a rest db1)"

definition old_nonce :: "('c, 'e) cache_ops \<Rightarrow> 'c MemDb \<Rightarrow> Address \<Rightarrow> u64" where
  "old_nonce ops db a = (case basic_ref ops (inner db) a of Inr (Some acc) \<Rightarrow> ai_nonce acc | _ \<Rightarrow> 0)"

fun load_accounts ::
    "('c, 'e) cache_ops \<Rightarrow> (Address \<times> SerializableAccountRecord) list \<Rightarrow> 'c MemDb \<Rightarrow> ('e + bool) \<times> 'c MemDb" where
  "load_accounts ops [] db = (Inr True, db)"
| "load_accounts ops ((addr, account) # rest) db =
     (let acc = \<lparr>ai_balance = sar_balance account, ai_nonce = max (old_nonce ops db addr) (sar_nonce account),
            code_hash = KECCAK_EMPTY ops,
            ai_code = (if sar_code account = [] then None else Some (new_raw ops (sar_code account)))\<rparr>
      in case load_storage ops addr (sar_storage account) (db_insert_account ops addr acc db) of
           (Inl e, db1) \<Rightarrow> (Inl e, db1)
         | (Inr _, db1) \<Rightarrow> load_accounts ops rest db1)"

definition db_load_state ::
    "('c, 'e) cache_ops \<Rightarrow> ('n, 'c) SerializableState \<Rightarrow> 'c MemDb \<Rightarrow> ('e + bool) \<times> 'c MemDb" where
  "db_load_state ops state db = load_accounts ops (ss_accounts state) db"

section \<open>A state survives being moved out and back in\<close>

lemma take_accounts_contracts:
  "take_accounts xs cs accs st = (cs', accs', st') \<Longrightarrow>
   hm_get cs' h = (if h \<in> (\<lambda>p. code_hash (acc_info (snd p))) ` set xs then None else hm_get cs h)"
  by (induction xs cs accs st rule: take_accounts.induct) (auto simp: Let_def cont_simps)

lemma take_accounts_other:
  "take_accounts xs cs accs st = (cs', accs', st') \<Longrightarrow> a \<notin> fst ` set xs \<Longrightarrow>
   hm_get accs' a = hm_get accs a \<and> hm_get st' a = hm_get st a"
  by (induction xs cs accs st rule: take_accounts.induct) (auto simp: Let_def cont_simps)

lemma take_accounts_distinct:
  "take_accounts xs cs accs st = (cs', accs', st') \<Longrightarrow> distinct (hm_keys accs) \<Longrightarrow> distinct (hm_keys accs')"
  by (induction xs cs accs st rule: take_accounts.induct) (auto simp: Let_def distinct_update)

lemma take_accounts_get:
  "take_accounts xs cs accs st = (cs', accs', st') \<Longrightarrow> distinct (map fst xs) \<Longrightarrow> (a, acc) \<in> set xs \<Longrightarrow>
   \<exists>code. hm_get accs' a = Some ((acc_info acc)\<lparr>ai_code := code\<rparr>) \<and> hm_get st' a = Some (acc_storage acc) \<and>
     (code \<noteq> None \<longrightarrow> code = hm_get cs (code_hash (acc_info acc)))"
proof (induction xs cs accs st rule: take_accounts.induct)
  case (2 addr acc' rest cs accs st)
  note run = 2(2) [unfolded take_accounts.simps Let_def]
  show ?case
  proof (cases "a = addr")
    case True
    with 2(3,4) have "acc = acc'" and "addr \<notin> fst ` set rest" by force+
    with take_accounts_other [OF run, of addr] True show ?thesis by (auto simp: cont_simps)
  next
    case False
    with 2(3,4) have "distinct (map fst rest)" "(a, acc) \<in> set rest" by auto
    from 2(1) [OF refl run this] show ?thesis by (auto simp: cont_simps split: if_splits)
  qed
qed simp

lemma take_accounts_code:
  "take_accounts xs cs accs st = (cs', accs', st') \<Longrightarrow> distinct (map fst xs) \<Longrightarrow>
   h \<in> (\<lambda>p. code_hash (acc_info (snd p))) ` set xs \<Longrightarrow>
   \<exists>a i. hm_get accs' a = Some i \<and> code_hash i = h \<and> ai_code i = hm_get cs h"
proof (induction xs cs accs st rule: take_accounts.induct)
  case (2 addr acc' rest cs accs st)
  note run = 2(2) [unfolded take_accounts.simps Let_def]
  show ?case
  proof (cases "h = code_hash (acc_info acc')")
    case True
    from 2(3) have "addr \<notin> fst ` set rest" by simp
    from take_accounts_other [OF run this] True show ?thesis
      by (intro exI [of _ addr] exI [of _ "(acc_info acc')\<lparr>ai_code := hm_get cs h\<rparr>"]) (auto simp: cont_simps)
  next
    case False
    with 2(3,4) have "distinct (map fst rest)" "h \<in> (\<lambda>p. code_hash (acc_info (snd p))) ` set rest" by auto
    from 2(1) [OF refl run this] False show ?thesis by (auto simp: cont_simps)
  qed
qed simp

lemma init_accounts_get:
  "distinct (map fst ys) \<Longrightarrow>
   hm_get (accounts (init_accounts ys st db)) a =
     (case map_of ys a of
        Some i \<Rightarrow> Some \<lparr>acc_info = i\<lparr>ai_code := None\<rparr>, account_state = NoState,
                    acc_storage = (case hm_get st a of Some s \<Rightarrow> s | None \<Rightarrow> [])\<rparr>
      | None \<Rightarrow> hm_get (accounts db) a)"
proof (induction ys st db rule: init_accounts.induct)
  case (2 addr acc rest st db)
  then have "map_of rest addr = None" by (auto simp: map_of_eq_None_iff)
  with 2 show ?case by (auto simp: Let_def cont_simps split: option.splits)
qed simp

lemma init_accounts_contracts:
  "(\<And>a i c. (a, i) \<in> set ys \<Longrightarrow> ai_code i = Some c \<Longrightarrow> cs (code_hash i) = Some c) \<Longrightarrow>
   hm_get (contracts (init_accounts ys st db)) h =
     (if \<exists>i \<in> snd ` set ys. code_hash i = h \<and> ai_code i \<noteq> None then cs h else hm_get (contracts db) h)"
proof (induction ys arbitrary: st db)
  case (Cons y ys)
  obtain addr acc where y: "y = (addr, acc)" by (rule prod.exhaust)
  have ys: "cs (code_hash i) = Some c" if "(a, i) \<in> set ys" "ai_code i = Some c" for a i c
    using Cons.prems [of a i c] that by simp
  have acc: "cs (code_hash acc) = Some c" if "ai_code acc = Some c" for c
    using Cons.prems [of addr acc] that y by simp
  show ?case
    unfolding y init_accounts.simps Let_def
    by (subst Cons.IH) (auto simp: ys acc cont_simps split: option.splits)
qed simp

text \<open>Two databases that answer every query alike: the same accounts up to the code kept beside the
  account, which both find by its hash, and the bookkeeping \<open>account_state\<close>.\<close>

definition stored_account :: "'c DbAccount \<Rightarrow> 'c DbAccount" where
  "stored_account acc = acc\<lparr>acc_info := (acc_info acc)\<lparr>ai_code := None\<rparr>, account_state := NoState\<rparr>"

definition same_state :: "'c CacheDB \<Rightarrow> 'c CacheDB \<Rightarrow> bool" where
  "same_state db db' \<longleftrightarrow>
     (\<forall>a. map_option stored_account (hm_get (accounts db) a) = map_option stored_account (hm_get (accounts db') a)) \<and>
     (\<forall>h. hm_get (contracts db) h = hm_get (contracts db') h) \<and>
     block_hashes db = block_hashes db'"

lemma snapshot_round_trip:
  assumes o: "hash_order o1" "hash_order o2" and d: "distinct (hm_keys (accounts db))"
    and snap: "clear_into_state_snapshot o1 db = (snap, db')"
  shows "same_state (init_from_state_snapshot o2 snap db') db"
proof -
  obtain cs accs st where t: "take_accounts (o1 (accounts db)) (contracts db) [] [] = (cs, accs, st)"
    by (metis prod_cases3)
  then have snap: "snap = \<lparr>snap_accounts = accs, snap_storage = st, snap_block_hashes = block_hashes db\<rparr>"
    and db': "db' = db\<lparr>accounts := [], contracts := cs, block_hashes := []\<rparr>"
    using snap by (auto simp: clear_into_state_snapshot_def)
  have set1: "set (o1 (accounts db)) = set (accounts db)" by (rule hash_order.set_order [OF o(1)])
  have dx: "distinct (map fst (o1 (accounts db)))"
    using d hash_order.distinct_order [OF o(1), of "accounts db"] by (auto simp: distinct_map set1)
  have da: "distinct (hm_keys accs)" by (rule take_accounts_distinct [OF t]) simp
  have set2: "set (o2 accs) = set accs" by (rule hash_order.set_order [OF o(2)])
  have dy: "distinct (map fst (o2 accs))"
    using da hash_order.distinct_order [OF o(2), of accs] by (auto simp: distinct_map set2)
  have m2: "map_of (o2 accs) = map_of accs"
    using dy da by (subst map_of_inject_set) (simp_all add: set2)
  have get: "hm_get (accounts (init_accounts (o2 accs) st db')) a =
      map_option stored_account (hm_get (accounts db) a)" for a
  proof (cases "hm_get (accounts db) a")
    case None
    then have "a \<notin> fst ` set (o1 (accounts db))" by (simp add: set1 map_of_eq_None_iff)
    from take_accounts_other [OF t this] None show ?thesis
      by (simp add: init_accounts_get [OF dy] m2 db')
  next
    case (Some acc)
    then have "(a, acc) \<in> set (o1 (accounts db))" by (simp add: set1 map_of_SomeD)
    from take_accounts_get [OF t dx this] Some show ?thesis
      by (auto simp: init_accounts_get [OF dy] m2 stored_account_def)
  qed
  have code: "hm_get (contracts db) (code_hash i) = Some c" if "(a, i) \<in> set (o2 accs)" "ai_code i = Some c" for a i c
  proof -
    from that(1) have a: "hm_get accs a = Some i" using da by (simp add: set2)
    then have "a \<in> fst ` set (o1 (accounts db))"
      using take_accounts_other [OF t, of a] by fastforce
    then obtain acc where "(a, acc) \<in> set (o1 (accounts db))" by auto
    from take_accounts_get [OF t dx this] a that(2) show ?thesis by auto
  qed
  have restored: "hm_get (contracts (init_accounts (o2 accs) st db')) h =
      (if \<exists>i \<in> snd ` set (o2 accs). code_hash i = h \<and> ai_code i \<noteq> None then hm_get (contracts db) h
       else hm_get (contracts db') h)" for h
    by (rule init_accounts_contracts) (rule code)
  have contracts: "hm_get (contracts (init_accounts (o2 accs) st db')) h = hm_get (contracts db) h" for h
  proof (cases "h \<in> (\<lambda>p. code_hash (acc_info (snd p))) ` set (o1 (accounts db))")
    case False
    then have "hm_get cs h = hm_get (contracts db) h" by (simp add: take_accounts_contracts [OF t])
    then show ?thesis unfolding restored by (simp add: db')
  next
    case True
    from take_accounts_code [OF t dx True] obtain a i where
      "hm_get accs a = Some i" "code_hash i = h" "ai_code i = hm_get (contracts db) h" by blast
    moreover from True have "hm_get cs h = None" by (simp add: take_accounts_contracts [OF t])
    ultimately show ?thesis
      unfolding restored by (force simp: db' set2 dest!: map_of_SomeD)
  qed
  have idem: "stored_account (stored_account acc) = stored_account acc" for acc :: "'a DbAccount"
    by (simp add: stored_account_def)
  show ?thesis
    by (simp add: same_state_def init_from_state_snapshot_def snap get contracts option.map_comp comp_def idem)
qed


definition shared_code_db :: "nat CacheDB" where
  "shared_code_db = \<lparr>accounts =
       [(1, \<lparr>acc_info = \<lparr>ai_balance = 5, ai_nonce = 1, code_hash = 9, ai_code = None\<rparr>, account_state = Touched, acc_storage = [(0, 7)]\<rparr>),
        (2, \<lparr>acc_info = \<lparr>ai_balance = 6, ai_nonce = 2, code_hash = 9, ai_code = None\<rparr>, account_state = Touched, acc_storage = []\<rparr>)],
     contracts = [(9, 33), (8, 44)], block_hashes = [(1, 100)]\<rparr>"


section \<open>Numbered snapshots survive later ones\<close>

text \<open>Every stored snapshot has a number below the next one.\<close>

definition snapshots_ok :: "'t StateSnapshots \<Rightarrow> bool" where
  "snapshots_ok s \<longleftrightarrow> (\<forall>k. snap_id s \<le> k \<longrightarrow> snap_get k s = None)"

lemma remove_after_get:
  "hm_get (remove_after t limit m) k = (if t \<le> k \<and> k < limit then None else hm_get m k)"
proof (induction t limit m rule: remove_after.induct)
  case (1 t limit m)
  show ?case
  proof (cases "t < limit")
    case True
    have "t + 1 \<le> k \<longleftrightarrow> t < k" using unat_succ_below [OF True] by (auto simp: word_le_nat_alt word_less_nat_alt)
    with 1 [OF True] True show ?thesis
      by (subst remove_after.simps) (auto simp: cont_simps)
  next
    case False
    then show ?thesis by (subst remove_after.simps) auto
  qed
qed

lemma succ_le_iff: "i \<noteq> - 1 \<Longrightarrow> i + 1 \<le> k \<longleftrightarrow> i < k" for i k :: "'a::len word"
  using unat_succ_below [of i "- 1"] by (auto simp: word_le_nat_alt word_less_nat_alt word_order.not_eq_extremum)

lemma snap_remove_get:
  assumes "snapshots_ok s" and "i \<noteq> - 1"
  shows "snap_get k (snd (snap_remove i s)) = (if i \<le> k then None else snap_get k s)"
  using assms by (auto simp: snap_remove_def snap_get_def snapshots_ok_def remove_after_get cont_simps succ_le_iff)

lemma snap_remove_id [simp]: "snap_id (snd (snap_remove i s)) = snap_id s"
  by (simp add: snap_remove_def)

lemma snap_insert_simps:
  assumes "snap_id s \<noteq> - 1"
  shows "fst (snap_insert t s) = snap_id s" and "snap_id (snd (snap_insert t s)) = snap_id s + 1"
    and "snap_get k (snd (snap_insert t s)) = (if k = snap_id s then Some t else snap_get k s)"
  using assms unat_Suc_less_iff [of "snap_id s"]
  by (simp_all add: snap_insert_def next_snap_id_def snap_get_def saturating_add_def cont_simps)

lemma snap_insert_ok: "snapshots_ok s \<Longrightarrow> snap_id s \<noteq> - 1 \<Longrightarrow> snapshots_ok (snd (snap_insert t s))"
  by (auto simp: snapshots_ok_def snap_insert_simps succ_le_iff)

text \<open>What may happen to a database: transactions give it other contents, snapshots are taken and
  reverted to.\<close>

datatype 'c DbCall = Write "'c CacheDB" | Snapshot | Revert U256 RevertStateSnapshotAction

definition db_call :: "'c DbCall \<Rightarrow> 'c MemDb \<Rightarrow> ((U256 + bool) option \<times> 'c MemDb) option" where
  "db_call c db =
     (case c of
        Write contents \<Rightarrow> Some (None, db\<lparr>inner := contents\<rparr>)
      | Snapshot \<Rightarrow> (let (i, db') = snapshot_state db in Some (Some (Inl i), db'))
      | Revert i action \<Rightarrow> (let (b, db') = revert_state i action db in Some (Some (Inr b), db')))"

text \<open>Calls that do not go back behind snapshot \<open>i\<close>.\<close>

definition stays_above :: "U256 \<Rightarrow> 'c DbCall \<Rightarrow> bool" where
  "stays_above i c \<longleftrightarrow>
     (case c of Revert k action \<Rightarrow> k \<noteq> - 1 \<and> (i < k \<or> (i = k \<and> is_keep action)) | _ \<Rightarrow> True)"

lemma revert_state_get:
  assumes "snapshots_ok (mem_snapshots db)" and "i \<noteq> - 1" and "revert_state i action db = (b, db')"
  shows "b \<longleftrightarrow> snap_get i (mem_snapshots db) \<noteq> None"
    and "inner db' = (case snap_get i (mem_snapshots db) of Some t \<Rightarrow> t | None \<Rightarrow> inner db)"
    and "snap_get k (mem_snapshots db') =
      (if i < k \<or> (i = k \<and> \<not> is_keep action) then None else snap_get k (mem_snapshots db))"
    and "snap_id (mem_snapshots db') = snap_id (mem_snapshots db)"
proof -
  have r: "snap_remove i (mem_snapshots db) = (snap_get i (mem_snapshots db), snd (snap_remove i (mem_snapshots db)))"
    by (simp add: snap_remove_def snap_get_def)
  note g = snap_remove_get [OF assms(1,2)]
  show "b \<longleftrightarrow> snap_get i (mem_snapshots db) \<noteq> None"
    and "inner db' = (case snap_get i (mem_snapshots db) of Some t \<Rightarrow> t | None \<Rightarrow> inner db)"
    and "snap_id (mem_snapshots db') = snap_id (mem_snapshots db)"
    using assms(3) unfolding revert_state_def
    by (subst (asm) r, auto simp: Let_def snap_insert_at_def split: option.splits if_splits)+
  show "snap_get k (mem_snapshots db') =
      (if i < k \<or> (i = k \<and> \<not> is_keep action) then None else snap_get k (mem_snapshots db))"
  proof (cases "snap_get i (mem_snapshots db)")
    case None
    with assms(3) have "mem_snapshots db' = snd (snap_remove i (mem_snapshots db))"
      unfolding revert_state_def by (subst (asm) r) auto
    with g [of k] None show ?thesis by auto
  next
    case (Some t)
    with assms(3) have m: "mem_snapshots db' = (if is_keep action then snd (snap_insert_at t i (snd (snap_remove i (mem_snapshots db))))
        else snd (snap_remove i (mem_snapshots db)))"
      unfolding revert_state_def by (subst (asm) r) (auto simp: Let_def)
    have ins: "snap_get k (snd (snap_insert_at t i s)) = (if k = i then Some t else snap_get k s)" for s
      by (simp add: snap_insert_at_def snap_get_def cont_simps)
    show ?thesis using g [of k] Some by (auto simp: m ins)
  qed
qed

definition guarded :: "U256 \<Rightarrow> 'c CacheDB \<Rightarrow> nat \<Rightarrow> 'c MemDb \<Rightarrow> bool" where
  "guarded i t room db \<longleftrightarrow>
     snapshots_ok (mem_snapshots db) \<and> snap_get i (mem_snapshots db) = Some t \<and>
     unat (snap_id (mem_snapshots db)) + room < 2 ^ 256"

lemma guarded_id: "guarded i t room db \<Longrightarrow> i < snap_id (mem_snapshots db) \<and> i \<noteq> - 1"
  unfolding guarded_def snapshots_ok_def by (metis leD option.distinct(1) not_le word_n1_ge)

lemma guarded_step:
  assumes g: "guarded i t (Suc room) db" and call: "db_call c db = Some (x, db')" and stays: "stays_above i c"
  shows "guarded i t room db'"
proof -
  have ok: "snapshots_ok (mem_snapshots db)" and get: "snap_get i (mem_snapshots db) = Some t"
    and room: "unat (snap_id (mem_snapshots db)) + Suc room < 2 ^ 256" using g by (auto simp: guarded_def)
  show ?thesis
  proof (cases c)
    case (Write contents)
    with call ok get room show ?thesis by (auto simp: db_call_def guarded_def)
  next
    case Snapshot
    have "unat (snap_id (mem_snapshots db)) + 1 < 2 ^ LENGTH(256)" using room by simp
    then have n: "snap_id (mem_snapshots db) \<noteq> - 1" unfolding unat_Suc_less_iff .
    have "mem_snapshots db' = snd (snap_insert (inner db) (mem_snapshots db))"
      using call Snapshot by (auto simp: db_call_def snapshot_state_def split: prod.splits)
    moreover have "unat (snap_id (mem_snapshots db) + 1) = unat (snap_id (mem_snapshots db)) + 1"
      using room by (simp add: unat_add_no_wrap)
    ultimately show ?thesis
      using guarded_id [OF g] ok get room by (auto simp: guarded_def snap_insert_ok snap_insert_simps n)
  next
    case (Revert k action)
    then obtain b where r: "revert_state k action db = (b, db')"
      using call by (auto simp: db_call_def split: prod.splits)
    have k: "k \<noteq> - 1" "i < k \<or> i = k \<and> is_keep action" using stays Revert by (auto simp: stays_above_def)
    note rs = revert_state_get [OF ok k(1) r]
    have "snapshots_ok (mem_snapshots db')"
      using ok unfolding snapshots_ok_def rs(3,4) by simp
    moreover have "snap_get i (mem_snapshots db') = Some t" using k(2) get unfolding rs(3) by auto
    ultimately show ?thesis using room by (simp add: guarded_def rs(4))
  qed
qed

lemma guarded_run:
  "guarded i t (length cs) db \<Longrightarrow> list_all (stays_above i) cs \<Longrightarrow> run db_call cs db = Some (xs, db') \<Longrightarrow> guarded i t 0 db'"
proof (induction cs arbitrary: db xs)
  case (Cons c cs)
  from Cons.prems(3) obtain x d ys where c: "db_call c db = Some (x, d)" and r: "run db_call cs d = Some (ys, db')"
    by (auto split: option.splits)
  have "guarded i t (length cs) d" by (rule guarded_step [OF _ c]) (use Cons.prems in simp_all)
  from Cons.IH [OF this _ r] Cons.prems(2) show ?case by simp
qed simp

lemma db_run_total: "\<exists>xs db'. run db_call cs db = Some (xs, db')"
proof (induction cs arbitrary: db)
  case (Cons c cs)
  have "\<exists>x d. db_call c db = Some (x, d)"
    by (cases c) (simp_all add: db_call_def split_beta)
  then obtain x d where "db_call c db = Some (x, d)" by blast
  with Cons.IH [of d] show ?case by auto
qed simp

text \<open>C18. A snapshot of the database is a fixed point to return to: after it, whatever is written, whatever
  snapshots are taken and reverted to, as long as none before it is, reverting to it succeeds and brings
  the contents back exactly; the snapshots taken since are gone and those before it are kept.\<close>

theorem snapshot_restores_db:
  assumes "snapshots_ok (mem_snapshots db)" and "unat (snap_id (mem_snapshots db)) + length cs + 1 < 2 ^ 256"
    and "snapshot_state db = (i, db1)" and "list_all (stays_above i) cs" and "run db_call cs db1 = Some (xs, db2)"
  shows "\<exists>db3. revert_state i RevertRemove db2 = (True, db3) \<and> inner db3 = inner db \<and>
    (\<forall>k. i \<le> k \<longrightarrow> snap_get k (mem_snapshots db3) = None)"
proof -
  have "unat (snap_id (mem_snapshots db)) + 1 < 2 ^ LENGTH(256)" using assms(2) by simp
  then have n: "snap_id (mem_snapshots db) \<noteq> - 1" unfolding unat_Suc_less_iff .
  have s: "mem_snapshots db1 = snd (snap_insert (inner db) (mem_snapshots db))" "i = snap_id (mem_snapshots db)"
    using assms(3) snap_insert_simps(1) [OF n, of "inner db"] by (auto simp: snapshot_state_def split: prod.splits)
  have "unat (snap_id (mem_snapshots db) + 1) = unat (snap_id (mem_snapshots db)) + 1"
    using assms(2) by (simp add: unat_add_no_wrap)
  then have "guarded i (inner db) (length cs) db1"
    using assms(1,2) by (simp add: guarded_def s snap_insert_ok snap_insert_simps n)
  from guarded_run [OF this assms(4,5)] have g: "guarded i (inner db) 0 db2" .
  obtain b db3 where r: "revert_state i RevertRemove db2 = (b, db3)" by (rule prod.exhaust)
  have ok: "snapshots_ok (mem_snapshots db2)" and get: "snap_get i (mem_snapshots db2) = Some (inner db)"
    using g by (auto simp: guarded_def)
  note rs = revert_state_get [OF ok conjunct2 [OF guarded_id [OF g]] r]
  show ?thesis
    using r rs(1,2) get by (intro exI [of _ db3]) (auto simp: rs(3) is_keep_def word_le_less_eq)
qed

theorem snapshot_restores_db_witness:
  "\<exists>db2 db3. run db_call [Write empty_db, Snapshot, Write shared_code_db, Revert 1 RevertRemove]
      (snd (snapshot_state (default_MemDb\<lparr>inner := shared_code_db\<rparr>))) = Some ([None, Some (Inl 1), None, Some (Inr True)], db2) \<and>
    inner db2 = empty_db \<and> revert_state 0 RevertRemove db2 = (True, db3) \<and> inner db3 = shared_code_db"
proof -
  let ?db = "default_MemDb\<lparr>inner := shared_code_db\<rparr>"
  let ?cs = "[Write empty_db, Snapshot, Write shared_code_db, Revert 1 RevertRemove]"
  have ok: "snapshots_ok (mem_snapshots ?db)"
    by (simp add: snapshots_ok_def snap_get_def default_MemDb_def no_snapshots_def)
  have room: "unat (snap_id (mem_snapshots ?db)) + length ?cs + 1 < 2 ^ 256"
    by (simp add: default_MemDb_def no_snapshots_def)
  have id: "snapshot_state ?db = (0, snd (snapshot_state ?db))"
    by (simp add: snapshot_state_def snap_insert_def next_snap_id_def default_MemDb_def no_snapshots_def)
  have stays: "list_all (stays_above 0) ?cs" by (simp add: stays_above_def is_keep_def)
  have "map_option fst (run db_call ?cs (snd (snapshot_state ?db))) = Some [None, Some (Inl 1), None, Some (Inr True)]"
    and "map_option (accounts \<circ> inner \<circ> snd) (run db_call ?cs (snd (snapshot_state ?db))) = Some []"
    and "map_option (contracts \<circ> inner \<circ> snd) (run db_call ?cs (snd (snapshot_state ?db))) = Some []"
    and "map_option (block_hashes \<circ> inner \<circ> snd) (run db_call ?cs (snd (snapshot_state ?db))) = Some []"
    by code_simp+
  then obtain db2 where r: "run db_call ?cs (snd (snapshot_state ?db)) = Some ([None, Some (Inl 1), None, Some (Inr True)], db2)"
    and "inner db2 = empty_db" by (auto simp: empty_db_def)
  with snapshot_restores_db [OF ok room id stays r] show ?thesis by auto
qed

text \<open>Reverting to the largest number, which no snapshot has, fails, but empties the list of
  snapshots on the way: the number after it wraps around to zero.\<close>

theorem revert_of_largest_id:
  assumes "snapshots_ok (mem_snapshots db)"
  shows "\<exists>db'. revert_state (- 1) action db = (False, db') \<and> inner db' = inner db \<and>
    (\<forall>k. snap_get k (mem_snapshots db') = None)"
proof -
  have n: "snap_get (- 1) (mem_snapshots db) = None" using assms by (simp add: snapshots_ok_def)
  have "hm_get (remove_after 0 (snap_id (mem_snapshots db)) (hm_remove (- 1) (state_snapshots (mem_snapshots db)))) k = None" for k
    using assms by (auto simp: remove_after_get cont_simps snapshots_ok_def snap_get_def)
  then show ?thesis
    using n by (simp add: revert_state_def snap_remove_def snap_get_def)
qed

theorem revert_of_largest_id_witness:
  "\<exists>db'. revert_state (- 1) RevertRemove (snd (snapshot_state (default_MemDb :: nat MemDb))) = (False, db') \<and>
     snap_get 0 (mem_snapshots db') = None \<and> snap_get 0 (mem_snapshots (snd (snapshot_state (default_MemDb :: nat MemDb)))) \<noteq> None"
proof -
  let ?db = "snd (snapshot_state (default_MemDb :: nat MemDb))"
  have m: "mem_snapshots ?db = \<lparr>snap_id = 1, state_snapshots = [(0, empty_db)]\<rparr>"
    by (simp add: snapshot_state_def snap_insert_def next_snap_id_def default_MemDb_def no_snapshots_def saturating_add_def)
  have "snapshots_ok (mem_snapshots ?db)" by (auto simp: m snapshots_ok_def snap_get_def)
  from revert_of_largest_id [OF this, of RevertRemove] show ?thesis by (auto simp: m snap_get_def)
qed

section \<open>Loading a dump never lowers a nonce\<close>

text \<open>What \<open>revm\<close> documents of the two writes: the account information that was inserted is what is
  read back, at that address and no other, and writing a storage slot changes no account.\<close>

definition cache_ops_ok :: "('c, 'e) cache_ops \<Rightarrow> bool" where
  "cache_ops_ok ops \<longleftrightarrow>
     (\<forall>a acc db b. case basic_ref ops (insert_account_info ops a acc db) b of
        Inr (Some i) \<Rightarrow> if b = a then ai_nonce i = ai_nonce acc \<and> ai_balance i = ai_balance acc
                        else basic_ref ops db b = Inr (Some i)
      | r \<Rightarrow> b \<noteq> a \<and> r = basic_ref ops db b) \<and>
     (\<forall>a k v db b. basic_ref ops (snd (insert_account_storage ops a k v db)) b = basic_ref ops db b)"

lemma old_nonce_insert:
  "cache_ops_ok ops \<Longrightarrow> old_nonce ops (db_insert_account ops a acc db) b = (if b = a then ai_nonce acc else old_nonce ops db b)"
proof -
  assume "cache_ops_ok ops"
  then have "case basic_ref ops (insert_account_info ops a acc (inner db)) b of
        Inr (Some i) \<Rightarrow> if b = a then ai_nonce i = ai_nonce acc \<and> ai_balance i = ai_balance acc
                        else basic_ref ops (inner db) b = Inr (Some i)
      | r \<Rightarrow> b \<noteq> a \<and> r = basic_ref ops (inner db) b"
    unfolding cache_ops_ok_def by blast
  then show ?thesis
    by (auto simp: old_nonce_def db_insert_account_def split: sum.splits option.splits if_splits)
qed

lemma old_nonce_storage:
  "cache_ops_ok ops \<Longrightarrow> old_nonce ops (snd (load_storage ops a kvs db)) b = old_nonce ops db b"
proof (induction ops a kvs db rule: load_storage.induct)
  case (2 ops a k v rest db)
  have "old_nonce ops (snd (db_set_storage_at ops a k v db)) b = old_nonce ops db b"
    using 2(2) by (simp add: old_nonce_def db_set_storage_at_def cache_ops_ok_def split_beta)
  with 2 show ?case by (auto split: prod.splits sum.splits)
qed simp

lemma load_accounts_nonce:
  "cache_ops_ok ops \<Longrightarrow> distinct (map fst xs) \<Longrightarrow> load_accounts ops xs db = (r, db') \<Longrightarrow>
   old_nonce ops db b \<le> old_nonce ops db' b \<and>
   (r = Inr True \<longrightarrow> old_nonce ops db' b =
      (case map_of xs b of Some acc \<Rightarrow> max (old_nonce ops db b) (sar_nonce acc) | None \<Rightarrow> old_nonce ops db b))"
proof (induction ops xs db rule: load_accounts.induct)
  case (2 ops addr account rest db)
  let ?acc = "\<lparr>ai_balance = sar_balance account, ai_nonce = max (old_nonce ops db addr) (sar_nonce account),
     code_hash = KECCAK_EMPTY ops, ai_code = (if sar_code account = [] then None else Some (new_raw ops (sar_code account)))\<rparr>"
  obtain r1 db1 where l: "load_storage ops addr (sar_storage account) (db_insert_account ops addr ?acc db) = (r1, db1)"
    by (rule prod.exhaust)
  have n1: "old_nonce ops db1 c = (if c = addr then max (old_nonce ops db addr) (sar_nonce account) else old_nonce ops db c)" for c
    using old_nonce_storage [OF 2(2), of addr "sar_storage account" "db_insert_account ops addr ?acc db" c]
    by (simp add: l old_nonce_insert [OF 2(2)])
  show ?case
  proof (cases r1)
    case (Inl e)
    with 2(4) l n1 show ?thesis by (auto simp: Let_def)
  next
    case (Inr u)
    with 2(4) l have r: "load_accounts ops rest db1 = (r, db')" by simp
    have d: "distinct (map fst rest)" and "map_of rest addr = None" using 2(3) by (auto simp: map_of_eq_None_iff)
    with 2(1) [OF refl l [symmetric] Inr 2(2) d r] show ?thesis by (auto simp: n1 split: option.splits)
  qed
qed simp

text \<open>Loading a dump into a running node never lowers the nonce of an account, also when the load
  fails half way; a load that succeeds gives every dumped account the larger of its two nonces and
  leaves the others alone.\<close>

theorem load_state_nonces:
  assumes "cache_ops_ok ops" and "distinct (map fst (ss_accounts state))" and "db_load_state ops state db = (r, db')"
  shows "old_nonce ops db b \<le> old_nonce ops db' b \<and>
    (r = Inr True \<longrightarrow> old_nonce ops db' b =
      (case map_of (ss_accounts state) b of
         Some acc \<Rightarrow> max (old_nonce ops db b) (sar_nonce acc) | None \<Rightarrow> old_nonce ops db b))"
  using load_accounts_nonce [OF assms(1,2)] assms(3) by (simp add: db_load_state_def)

definition sample_ops :: "(nat, unit) cache_ops" where
  "sample_ops = \<lparr>basic_ref = (\<lambda>db a. Inr (map_option acc_info (hm_get (accounts db) a))),
     basic = (\<lambda>db a. (Inr (map_option acc_info (hm_get (accounts db) a)), db)),
     code_by_hash_ref = (\<lambda>db h. Inr 0),
     insert_account_info = (\<lambda>a acc db. db\<lparr>accounts := hm_insert a \<lparr>acc_info = acc, account_state = Touched, acc_storage = []\<rparr> (accounts db)\<rparr>),
     insert_account_storage = (\<lambda>a k v db. (Inr (), db)), new_raw = length, default_code = 0, code_hash_slow = of_nat, original_bytes = (\<lambda>_. []),
     keccak_code = (\<lambda>_. 1), KECCAK_EMPTY = 0\<rparr>"

definition sample_dump :: "(unit, nat) SerializableState" where
  "sample_dump = \<lparr>ss_block = None, ss_accounts = [(1, \<lparr>sar_nonce = 0, sar_balance = 8, sar_code = [], sar_storage = [(0, 4)]\<rparr>),
     (3, \<lparr>sar_nonce = 6, sar_balance = 8, sar_code = [], sar_storage = []\<rparr>)],
     ss_best_block_number = None, ss_blocks = [], ss_transactions = [], ss_historical_states = None\<rparr>"

theorem load_state_nonces_witness:
  "cache_ops_ok sample_ops \<and>
   (let db = default_MemDb\<lparr>inner := shared_code_db\<rparr>; (r, db') = db_load_state sample_ops sample_dump db
    in r = Inr True \<and> old_nonce sample_ops db 1 = 1 \<and> old_nonce sample_ops db' 1 = 1 \<and>
       old_nonce sample_ops db' 2 = 2 \<and> old_nonce sample_ops db' 3 = 6)"
proof -
  let ?db = "default_MemDb\<lparr>inner := shared_code_db\<rparr>"
  have ok: "cache_ops_ok sample_ops"
    by (auto simp: cache_ops_ok_def sample_ops_def cont_simps split: option.splits)
  have d: "distinct (map fst (ss_accounts sample_dump))" by code_simp
  obtain r db' where l: "db_load_state sample_ops sample_dump ?db = (r, db')" by (rule prod.exhaust)
  have "fst (db_load_state sample_ops sample_dump ?db) = Inr True" by code_simp
  then have r: "r = Inr True" using l by simp
  have "old_nonce sample_ops ?db 1 = 1" "old_nonce sample_ops ?db 2 = 2" "old_nonce sample_ops ?db 3 = 0"
    and "map_option sar_nonce (map_of (ss_accounts sample_dump) 1) = Some 0"
    and "map_option sar_nonce (map_of (ss_accounts sample_dump) 3) = Some 6"
    and "map_option sar_nonce (map_of (ss_accounts sample_dump) 2) = None"
    by code_simp+
  with load_state_nonces [OF ok d l, of 1] load_state_nonces [OF ok d l, of 2] load_state_nonces [OF ok d l, of 3] r ok l
  show ?thesis by (auto simp: max_def)
qed

end
