(* ===== verification/Anvil_Validate.thy ===== *)
theory Anvil_Validate
  imports Anvil_Db
begin

text \<open>
  The transaction validator of \<open>crates/anvil/src/eth/backend/mem/mod.rs\<close>
  (\<open>validate_pool_transaction_for\<close>, \<open>validate_for\<close>) and the errors of
  \<open>crates/anvil/src/eth/error.rs\<close>. The checks are a list that is gone through until one fails. The
  lemmas show what an accepted transaction has passed, that the chain of a legacy transaction is not
  looked at, and that a value of more than 128 bits makes the validator panic.
\<close>

section \<open>Errors\<close>

datatype ('r, 'b) InvalidTransactionError =
    NonceTooLow | NonceTooHigh | NonceMaxValue | InsufficientFundsForTransfer | MaxInitCodeSizeExceeded
  | InsufficientFunds | GasUintOverflow | GasTooLow | GasTooHigh string | TipAboveFeeCap | FeeCapTooLow
  | BasicOutOfGas u128 | RevertedWith "Bytes option" | SenderNoEOA | InvalidChainId | IncompatibleEIP155
  | AccessListNotSupported | BlobFeeCapTooLow | BlobVersionedHashesNotSupported | MaxFeePerBlobGasNotSupported
  | NoBlobHashes | TooManyBlobs nat | BlobTransactionValidationError 'b | BlobCreateTransaction
  | BlobVersionNotSupported | EmptyBlobs | AuthorizationListNotSupported | RevmError 'r

text \<open>The errors of \<open>revm\<close> with the conversion; the ones that are forwarded are a type parameter.\<close>

datatype 'r InvalidTransaction =
    RInvalidChainId | RPriorityFeeGreaterThanMaxFee | RGasPriceLessThanBasefee | RCallerGasLimitMoreThanBlock
  | RCallGasCostMoreThanGasLimit | RGasFloorMoreThanGasLimit | RRejectCallerWithCode | RLackOfFundForMaxFee
  | ROverflowPaymentInTransaction | RNonceOverflowInTransaction | RCreateInitCodeSizeLimit | RNonceTooHigh
  | RNonceTooLow | RAccessListNotSupported | RBlobGasPriceGreaterThanMax | RBlobVersionedHashesNotSupported
  | RMaxFeePerBlobGasNotSupported | RBlobCreateTransaction | RBlobVersionNotSupported | REmptyBlobs
  | RTooManyBlobs nat | RAuthorizationListNotSupported | RForwarded 'r

fun invalid_from :: "'r InvalidTransaction \<Rightarrow> ('r, 'b) InvalidTransactionError" where
  "invalid_from RInvalidChainId = InvalidChainId"
| "invalid_from RPriorityFeeGreaterThanMaxFee = TipAboveFeeCap"
| "invalid_from RGasPriceLessThanBasefee = FeeCapTooLow"
| "invalid_from RCallerGasLimitMoreThanBlock = GasTooHigh ''CallerGasLimitMoreThanBlock''"
| "invalid_from RCallGasCostMoreThanGasLimit = GasTooHigh ''CallGasCostMoreThanGasLimit''"
| "invalid_from RGasFloorMoreThanGasLimit = GasTooHigh ''CallGasCostMoreThanGasLimit''"
| "invalid_from RRejectCallerWithCode = SenderNoEOA"
| "invalid_from RLackOfFundForMaxFee = InsufficientFunds"
| "invalid_from ROverflowPaymentInTransaction = GasUintOverflow"
| "invalid_from RNonceOverflowInTransaction = NonceMaxValue"
| "invalid_from RCreateInitCodeSizeLimit = MaxInitCodeSizeExceeded"
| "invalid_from RNonceTooHigh = NonceTooHigh"
| "invalid_from RNonceTooLow = NonceTooLow"
| "invalid_from RAccessListNotSupported = AccessListNotSupported"
| "invalid_from RBlobGasPriceGreaterThanMax = BlobFeeCapTooLow"
| "invalid_from RBlobVersionedHashesNotSupported = BlobVersionedHashesNotSupported"
| "invalid_from RMaxFeePerBlobGasNotSupported = MaxFeePerBlobGasNotSupported"
| "invalid_from RBlobCreateTransaction = BlobCreateTransaction"
| "invalid_from RBlobVersionNotSupported = BlobVersionNotSupported"
| "invalid_from REmptyBlobs = EmptyBlobs"
| "invalid_from (RTooManyBlobs n) = TooManyBlobs n"
| "invalid_from RAuthorizationListNotSupported = AuthorizationListNotSupported"
| "invalid_from (RForwarded e) = RevmError e"

section \<open>The validator\<close>

text \<open>The outcome of a check: \<open>None\<close> is a panic, \<open>Some None\<close> success, \<open>Some (Some e)\<close> the error \<open>e\<close>.\<close>

type_synonym 'e check = "'e option option"

fun checks :: "'e check list \<Rightarrow> 'e check" where
  "checks [] = Some None"
| "checks (c # cs) = (case c of Some None \<Rightarrow> checks cs | r \<Rightarrow> r)"

abbreviation fails_with :: "bool \<Rightarrow> 'e \<Rightarrow> 'e check" where
  "fails_with b e \<equiv> Some (if b then Some e else None)"

definition MIN_TRANSACTION_GAS :: u128 where "MIN_TRANSACTION_GAS = 21000"
definition MAX_BLOBS_PER_BLOCK :: nat where "MAX_BLOBS_PER_BLOCK = 6"

fun is_deposit :: "TypedTransaction \<Rightarrow> bool" where
  "is_deposit (Deposit _) = True"
| "is_deposit _ = False"

definition check_chain_id ::
    "spec_ids \<Rightarrow> u64 \<Rightarrow> EnvWithHandlerCfg \<Rightarrow> TypedTransaction \<Rightarrow> ('r, 'b) InvalidTransactionError check" where
  "check_chain_id ids chain_id env tx =
     (case tx_chain_id tx of
        Some tx_id \<Rightarrow>
          (if chain_id \<noteq> tx_id
           then (case as_legacy tx of
                   Some legacy \<Rightarrow>
                     fails_with (SPURIOUS_DRAGON ids \<le> env_spec_id env \<and> legacy_chain_id (stx legacy) = None)
                       IncompatibleEIP155
                 | None \<Rightarrow> Some (Some InvalidChainId))
           else Some None)
      | None \<Rightarrow> Some None)"

definition check_gas :: "EnvWithHandlerCfg \<Rightarrow> TypedTransaction \<Rightarrow> ('r, 'b) InvalidTransactionError check" where
  "check_gas env tx =
     checks
      [fails_with (tx_gas_limit tx < ucast MIN_TRANSACTION_GAS) GasTooLow,
       (if \<not> disable_block_gas_limit (env_cfg env)
        then do {
          limit \<leftarrow> to_u64 (be_gas_limit (env_block env));
          fails_with (limit < tx_gas_limit tx) (GasTooHigh ''tx.gas_limit > env.block.gas_limit'')
        } else Some None)]"

definition check_fees ::
    "spec_ids \<Rightarrow> EnvWithHandlerCfg \<Rightarrow> TypedTransaction \<Rightarrow> ('r, 'b) InvalidTransactionError check" where
  "check_fees ids env tx =
     (if LONDON ids \<le> env_spec_id env
      then checks
        [do {
           fee \<leftarrow> to_u128 (be_basefee (env_block env));
           fails_with (typed_gas_price tx < fee \<and> \<not> is_deposit tx) FeeCapTooLow
         },
         (case (ess_max_priority_fee_per_gas (essentials tx), ess_max_fee_per_gas (essentials tx)) of
            (Some tip, Some cap) \<Rightarrow> fails_with (cap < tip) TipAboveFeeCap
          | _ \<Rightarrow> Some None)]
      else Some None)"

text \<open>Validating the blobs against the trusted setup is done by \<open>alloy\<close>.\<close>

definition check_blobs ::
    "spec_ids \<Rightarrow> (TxEip4844Variant \<Rightarrow> 'b option) \<Rightarrow> EnvWithHandlerCfg \<Rightarrow> TypedTransaction \<Rightarrow>
     ('r, 'b) InvalidTransactionError check" where
  "check_blobs ids validate env tx =
     (case tx of
        EIP4844 t \<Rightarrow>
          (if CANCUN ids \<le> env_spec_id env
           then let blob_count = length (eip4844_blob_versioned_hashes (variant_tx (stx t)))
                in checks
                  [(case (ess_max_fee_per_blob_gas (essentials tx), be_blob_excess (env_block env)) of
                      (Some fee, Some b) \<Rightarrow> fails_with (fee < blob_gasprice b) BlobFeeCapTooLow
                    | _ \<Rightarrow> Some None),
                   fails_with (blob_count = 0) NoBlobHashes,
                   fails_with (MAX_BLOBS_PER_BLOCK < blob_count) (TooManyBlobs blob_count),
                   Some (map_option BlobTransactionValidationError (validate (stx t)))]
           else Some None)
      | _ \<Rightarrow> Some None)"

text \<open>Adding the minted amount to a balance wraps around at 256 bits.\<close>

definition check_funds :: "'c AccountInfo \<Rightarrow> TypedTransaction \<Rightarrow> ('r, 'b) InvalidTransactionError check" where
  "check_funds account tx =
     do {
       cost \<leftarrow> max_cost tx;
       case tx of
         Deposit d \<Rightarrow> fails_with (ai_balance account + deposit_mint d < tx_value tx) InsufficientFunds
       | _ \<Rightarrow>
           do {
             val \<leftarrow> to_u128 (tx_value tx);
             case checked_add cost val of
               None \<Rightarrow> Some (Some InsufficientFunds)
             | Some req_funds \<Rightarrow> fails_with (ai_balance account < ucast req_funds) InsufficientFunds
           }
     }"

definition checks_before_funds ::
    "spec_ids \<Rightarrow> u64 \<Rightarrow> (TxEip4844Variant \<Rightarrow> 'b option) \<Rightarrow> TypedTransaction \<Rightarrow> 'c AccountInfo \<Rightarrow> EnvWithHandlerCfg \<Rightarrow>
     ('r, 'b) InvalidTransactionError check list" where
  "checks_before_funds ids chain_id validate tx account env =
     [check_chain_id ids chain_id env tx, check_gas env tx,
      fails_with (tx_nonce tx < ai_nonce account \<and> \<not> is_deposit tx) NonceTooLow,
      check_fees ids env tx, check_blobs ids validate env tx]"

definition validate_pool_transaction_for ::
    "spec_ids \<Rightarrow> u64 \<Rightarrow> (TxEip4844Variant \<Rightarrow> 'b option) \<Rightarrow> PendingTransaction \<Rightarrow> 'c AccountInfo \<Rightarrow> EnvWithHandlerCfg \<Rightarrow>
     ('r, 'b) InvalidTransactionError check" where
  "validate_pool_transaction_for ids chain_id validate pending account env =
     (let tx = typed (transaction pending)
      in checks (checks_before_funds ids chain_id validate tx account env @ [check_funds account tx]))"

definition validate_for ::
    "spec_ids \<Rightarrow> u64 \<Rightarrow> (TxEip4844Variant \<Rightarrow> 'b option) \<Rightarrow> PendingTransaction \<Rightarrow> 'c AccountInfo \<Rightarrow> EnvWithHandlerCfg \<Rightarrow>
     ('r, 'b) InvalidTransactionError check" where
  "validate_for ids chain_id validate tx account env =
     checks [validate_pool_transaction_for ids chain_id validate tx account env,
             fails_with (ai_nonce account < pending_nonce tx) NonceTooHigh]"

section \<open>What an accepted transaction has passed\<close>

lemma checks_ok: "checks cs = Some None \<longleftrightarrow> (\<forall>c\<in>set cs. c = Some None)"
  by (induction cs) (auto split: option.splits)

lemma checks_append: "checks (xs @ ys) = (case checks xs of Some None \<Rightarrow> checks ys | r \<Rightarrow> r)"
  by (induction xs) (auto split: option.splits)

declare checks.simps [simp del]

lemma unat_max_cost: "max_cost tx = Some c \<Longrightarrow> unat c = min (gas_cost tx + blob_cost tx) (2 ^ 128 - 1)"
  using max_cost_value [of tx] by (auto split: if_splits)

lemma unat_to_u64: "to_u64 w = Some v \<Longrightarrow> unat v = unat w"
  by (auto simp: to_u64_def word_less_nat_alt unsigned_ucast_eq take_bit_nat_eq_self split: if_splits)

lemma unat_to_u128: "to_u128 w = Some v \<Longrightarrow> unat v = unat w"
  by (auto simp: to_u128_def word_less_nat_alt unsigned_ucast_eq take_bit_nat_eq_self split: if_splits)

lemma check_funds_ok:
  assumes "check_funds account tx = Some None" and "\<not> is_deposit tx"
  shows "min (gas_cost tx + blob_cost tx) (2 ^ 128 - 1) + unat (tx_value tx) \<le> unat (ai_balance account)"
proof -
  from assms obtain cost val req where c: "max_cost tx = Some cost" and v: "to_u128 (tx_value tx) = Some val"
    and r: "checked_add cost val = Some req" and b: "\<not> ai_balance account < ucast req"
    by (cases tx) (auto simp: check_funds_def split: bind_splits option.splits if_splits)
  have "unat req = unat cost + unat val" using r by (auto simp: checked_add_Some unat_add_no_wrap)
  moreover have "unat (ucast req :: U256) = unat req" by (rule unat_ucast_up) simp
  ultimately show ?thesis
    using b unat_max_cost [OF c] unat_to_u128 [OF v] by (simp add: not_less word_le_nat_alt)
qed

text \<open>C12. A transaction the validator accepts, other than a deposit, asks for at least the minimum gas
  and not for more than the block has, has a nonce the account has not used, after London pays the
  base fee and does not offer a tip above its cap, and the account can pay for it: the cost of its gas and
  its blobs, cut off at 128 bits, together with its value.\<close>

theorem accepted_transaction_payable:
  assumes "validate_pool_transaction_for ids chain_id validate pending account env =
      (Some None :: ('r, 'b) InvalidTransactionError check)"
    and "tx = typed (transaction pending)" and "\<not> is_deposit tx"
  shows "21000 \<le> unat (tx_gas_limit tx) \<and>
    (\<not> disable_block_gas_limit (env_cfg env) \<longrightarrow> unat (tx_gas_limit tx) \<le> unat (be_gas_limit (env_block env))) \<and>
    ai_nonce account \<le> tx_nonce tx \<and>
    (LONDON ids \<le> env_spec_id env \<longrightarrow> unat (be_basefee (env_block env)) \<le> unat (typed_gas_price tx)) \<and>
    min (gas_cost tx + blob_cost tx) (2 ^ 128 - 1) + unat (tx_value tx) \<le> unat (ai_balance account)"
proof -
  have all: "check_gas env tx = (Some None :: ('r, 'b) InvalidTransactionError check)"
      "\<not> tx_nonce tx < ai_nonce account" "check_fees ids env tx = (Some None :: ('r, 'b) InvalidTransactionError check)"
      "check_funds account tx = (Some None :: ('r, 'b) InvalidTransactionError check)"
    using assms by (auto simp: validate_pool_transaction_for_def checks_before_funds_def checks_ok Let_def split: if_splits)
  have m: "unat (ucast MIN_TRANSACTION_GAS :: u64) = 21000" by (simp add: MIN_TRANSACTION_GAS_def)
  have g1: "\<not> tx_gas_limit tx < ucast MIN_TRANSACTION_GAS"
    using all(1) unfolding check_gas_def checks_ok by (auto split: if_splits)
  have g2: "unat (tx_gas_limit tx) \<le> unat (be_gas_limit (env_block env))" if l: "\<not> disable_block_gas_limit (env_cfg env)"
  proof -
    from l all(1) obtain limit where "to_u64 (be_gas_limit (env_block env)) = Some limit" "\<not> limit < tx_gas_limit tx"
      unfolding check_gas_def checks_ok by (auto split: if_splits bind_splits)
    then show ?thesis using unat_to_u64 by (auto simp: not_less word_le_nat_alt)
  qed
  have f: "unat (be_basefee (env_block env)) \<le> unat (typed_gas_price tx)" if l: "LONDON ids \<le> env_spec_id env"
  proof -
    from l all(3) assms(3) obtain fee where "to_u128 (be_basefee (env_block env)) = Some fee" "\<not> typed_gas_price tx < fee"
      unfolding check_fees_def checks_ok by (auto simp: checks_ok split: if_splits bind_splits)
    then show ?thesis using unat_to_u128 by (auto simp: not_less word_le_nat_alt)
  qed
  show ?thesis
    using g1 g2 f all(2) check_funds_ok [OF all(4) assms(3)] m by (auto simp: not_less word_le_nat_alt)
qed

definition sample_ids :: spec_ids where
  "sample_ids = \<lparr>SPURIOUS_DRAGON = 1, BERLIN = 2, LONDON = 3, MERGE = 4, SHANGHAI = 5, CANCUN = 6, PRAGUE = 7\<rparr>"

definition sample_block_env :: BlockEnv where
  "sample_block_env = \<lparr>be_number = 1, be_coinbase = 0, be_timestamp = 5, be_gas_limit = 30000, be_basefee = 7,
     be_difficulty = 0, be_prevrandao = None, be_blob_excess = None\<rparr>"

definition sample_env :: EnvWithHandlerCfg where
  "sample_env = \<lparr>env_cfg = \<lparr>cfg_chain_id = 1, disable_block_gas_limit = False, disable_eip3607 = False, disable_base_fee = False\<rparr>,
     env_block = sample_block_env, env_spec_id = 6, env_is_optimism = False\<rparr>"

definition sample_account :: "U256 \<Rightarrow> nat AccountInfo" where
  "sample_account b = \<lparr>ai_balance = b, ai_nonce = 0, code_hash = 0, ai_code = None\<rparr>"

definition signed_for :: "u64 option \<Rightarrow> U256 \<Rightarrow> PendingTransaction" where
  "signed_for chain value = \<lparr>transaction = new_Maybe (Legacy \<lparr>stx = \<lparr>legacy_chain_id = chain, legacy_nonce = 0,
     legacy_gas_price = 9, legacy_gas_limit = 21000, legacy_to = Call 5, legacy_value = value, legacy_input = []\<rparr>,
     stx_signature = (False, 0, 0), stx_hash = 0\<rparr>), sender = 3, pending_hash = 0\<rparr>"

definition no_blob_errors :: "TxEip4844Variant \<Rightarrow> unit option" where
  "no_blob_errors t = None"

theorem accepted_transaction_payable_witness:
  "validate_pool_transaction_for sample_ids 1 no_blob_errors (signed_for (Some 1) 4) (sample_account 189004) sample_env =
     (Some None :: (unit, unit) InvalidTransactionError check) \<and>
   min (gas_cost (typed (transaction (signed_for (Some 1) 4))) + blob_cost (typed (transaction (signed_for (Some 1) 4)))) (2 ^ 128 - 1) + 4
     \<le> unat (189004 :: U256)"
proof -
  let ?tx = "typed (transaction (signed_for (Some 1) 4))"
  have v: "validate_pool_transaction_for sample_ids 1 no_blob_errors (signed_for (Some 1) 4) (sample_account 189004) sample_env =
     (Some None :: (unit, unit) InvalidTransactionError check)" by code_simp
  have "\<not> is_deposit ?tx" by code_simp
  from accepted_transaction_payable [OF v refl this]
  have "min (gas_cost ?tx + blob_cost ?tx) (2 ^ 128 - 1) + unat (tx_value ?tx) \<le> unat (ai_balance (sample_account 189004))"
    by blast
  moreover have "unat (tx_value ?tx) = 4" "ai_balance (sample_account 189004) = 189004"
    by (simp_all add: signed_for_def new_Maybe_def sample_account_def)
  ultimately show ?thesis using v by simp
qed

section \<open>The chain of a legacy transaction\<close>

lemma check_chain_id_legacy: "check_chain_id ids chain_id env (Legacy t) = Some None"
  by (simp add: check_chain_id_def split: option.splits)

text \<open>The validator does not look at the chain a legacy transaction is signed for: its verdict on
  such a transaction is the same on every chain. The error for a transaction signed for another chain is
  guarded by a test that the chain is absent, where it is known to be present.\<close>

theorem legacy_chain_unchecked:
  assumes "typed (transaction pending) = Legacy t"
  shows "validate_pool_transaction_for ids chain1 validate pending account env =
    validate_pool_transaction_for ids chain2 validate pending account env"
  by (simp add: validate_pool_transaction_for_def checks_before_funds_def assms check_chain_id_legacy)

theorem legacy_chain_unchecked_witness:
  "validate_pool_transaction_for sample_ids 5 no_blob_errors (signed_for (Some 1) 4) (sample_account 189004) sample_env =
     (Some None :: (unit, unit) InvalidTransactionError check)"
proof -
  have "typed (transaction (signed_for (Some 1) 4)) = Legacy \<lparr>stx = \<lparr>legacy_chain_id = Some 1, legacy_nonce = 0,
     legacy_gas_price = 9, legacy_gas_limit = 21000, legacy_to = Call 5, legacy_value = 4, legacy_input = []\<rparr>,
     stx_signature = (False, 0, 0), stx_hash = 0\<rparr>" by (simp add: signed_for_def new_Maybe_def)
  from legacy_chain_unchecked [OF this, of sample_ids 5 no_blob_errors "sample_account 189004" sample_env 1]
  have "validate_pool_transaction_for sample_ids 5 no_blob_errors (signed_for (Some 1) 4) (sample_account 189004) sample_env =
    (validate_pool_transaction_for sample_ids 1 no_blob_errors (signed_for (Some 1) 4) (sample_account 189004) sample_env ::
      (unit, unit) InvalidTransactionError check)" .
  also have "\<dots> = Some None" by code_simp
  finally show ?thesis .
qed

section \<open>Values beyond 128 bits\<close>

text \<open>The sender's funds are computed in 128 bits: a transaction that passes the other checks and
  moves a value that does not fit is not refused, it makes the validator panic, whatever the account
  holds.\<close>

theorem huge_value_panics:
  assumes "tx = typed (transaction pending)" and "\<not> is_deposit tx" and "2 ^ 128 \<le> tx_value tx"
    and "checks (checks_before_funds ids chain_id validate tx account env) =
      (Some None :: ('r, 'b) InvalidTransactionError check)"
  shows "validate_pool_transaction_for ids chain_id validate pending account env =
      (None :: ('r, 'b) InvalidTransactionError check)"
proof -
  have "to_u128 (tx_value tx) = None" using assms(3) by (simp add: to_u128_def not_less)
  then have "check_funds account tx = (None :: ('r, 'b) InvalidTransactionError check)"
    using assms(2) by (cases tx; cases "max_cost tx") (simp_all add: check_funds_def)
  then show ?thesis
    using assms(1,4) by (simp add: validate_pool_transaction_for_def checks_append Let_def checks.simps)
qed

theorem huge_value_panics_witness:
  "validate_pool_transaction_for sample_ids 1 no_blob_errors (signed_for (Some 1) (2 ^ 128)) (sample_account (- 1)) sample_env =
     (None :: (unit, unit) InvalidTransactionError check)"
proof (rule huge_value_panics [OF refl])
  show "\<not> is_deposit (typed (transaction (signed_for (Some 1) (2 ^ 128))))" by code_simp
  show "2 ^ 128 \<le> tx_value (typed (transaction (signed_for (Some 1) (2 ^ 128))))"
    by (simp add: signed_for_def new_Maybe_def)
  show "checks (checks_before_funds sample_ids 1 no_blob_errors (typed (transaction (signed_for (Some 1) (2 ^ 128))))
      (sample_account (- 1)) sample_env) = (Some None :: (unit, unit) InvalidTransactionError check)"
    by code_simp
qed

end
