(* ===== verification/Pool_Types.thy ===== *)
theory Pool_Types
  imports Anvil_Tx
begin

text \<open>
  The data of Anvil's transaction pool: the markers that tie transactions together and their
  priority (\<open>crates/anvil/src/eth/pool/transactions.rs\<close>), and the markers the RPC layer gives a
  new transaction (\<open>required_marker\<close> in \<open>crates/anvil/src/eth/api.rs\<close>).
\<close>

section \<open>Markers\<close>

type_synonym TxMarker = "u8 list"

text \<open>\<open>u64::to_le_bytes\<close>.\<close>

definition to_le_bytes :: "u64 \<Rightarrow> u8 list" where
  "to_le_bytes w = map (\<lambda>i. ucast (drop_bit (8 * i) w)) [0..<8]"

definition to_marker :: "u64 \<Rightarrow> Address \<Rightarrow> TxMarker" where
  "to_marker nonce from = to_le_bytes nonce @ address_bytes from"

definition required_marker :: "u64 \<Rightarrow> u64 \<Rightarrow> Address \<Rightarrow> TxMarker list" where
  "required_marker provided_nonce on_chain_nonce from =
     (if provided_nonce = on_chain_nonce then []
      else let prev_nonce = saturating_sub provided_nonce 1
           in if on_chain_nonce \<le> prev_nonce then [to_marker prev_nonce from] else [])"

section \<open>Pool transactions\<close>

datatype TransactionOrder = Fifo | Fees

fun order_priority :: "TransactionOrder \<Rightarrow> TypedTransaction \<Rightarrow> u128" where
  "order_priority Fifo tx = 0"
| "order_priority Fees tx = typed_gas_price tx"

record PoolTransaction =
  pending_transaction :: PendingTransaction
  requires :: "TxMarker list"
  provides :: "TxMarker list"
  priority :: u128

definition new_PoolTransaction :: "PendingTransaction \<Rightarrow> PoolTransaction" where
  "new_PoolTransaction tx =
     \<lparr>pending_transaction = tx, requires = [], provides = [], priority = 0\<rparr>"

definition tx_hash :: "PoolTransaction \<Rightarrow> TxHash" where
  "tx_hash tx = pending_hash (pending_transaction tx)"

definition tx_gas_price :: "PoolTransaction \<Rightarrow> u128" where
  "tx_gas_price tx = typed_gas_price (typed (transaction (pending_transaction tx)))"

datatype PoolError =
    CyclicTransaction
  | ReplacementUnderpriced PoolTransaction
  | AlreadyImported PoolTransaction

text \<open>The transaction the RPC layer puts into the pool for a signed transaction.\<close>

definition api_pool_transaction ::
    "TransactionOrder \<Rightarrow> u64 \<Rightarrow> PendingTransaction \<Rightarrow> PoolTransaction" where
  "api_pool_transaction ord on_chain_nonce ptx =
     (let nonce = pending_nonce ptx
      in \<lparr>pending_transaction = ptx,
          requires = required_marker nonce on_chain_nonce (sender ptx),
          provides = [to_marker nonce (sender ptx)],
          priority = order_priority ord (typed (transaction ptx))\<rparr>)"

text \<open>A legacy transaction with the given nonce and gas price, for evaluation.\<close>

definition legacy_tx :: "u64 \<Rightarrow> u128 \<Rightarrow> MaybeImpersonatedTransaction" where
  "legacy_tx n p = new_Maybe (Legacy \<lparr>stx = \<lparr>legacy_chain_id = None, legacy_nonce = n,
     legacy_gas_price = p, legacy_gas_limit = 21000, legacy_to = Create, legacy_value = 0,
     legacy_input = []\<rparr>, stx_signature = (False, 0, 0), stx_hash = 0\<rparr>)"

lemma legacy_tx_simps [simp]:
  "tx_nonce (typed (legacy_tx n p)) = n" "typed_gas_price (typed (legacy_tx n p)) = p"
  "pending_nonce \<lparr>transaction = legacy_tx n p, sender = s, pending_hash = h\<rparr> = n"
  by (simp_all add: legacy_tx_def new_Maybe_def pending_nonce_def)

text \<open>What the pool's bookkeeping relies on in every transaction it is given.\<close>

definition wf_tx :: "PoolTransaction \<Rightarrow> bool" where
  "wf_tx tx \<longleftrightarrow> distinct (provides tx) \<and> set (requires tx) \<inter> set (provides tx) = {}"

section \<open>Markers identify a sender and a nonce\<close>

lemma word_eq_of_bytes:
  fixes x y :: "'a::len word"
  assumes eq: "\<And>i. i < n \<Longrightarrow> (ucast (drop_bit (8 * i) x) :: u8) = ucast (drop_bit (8 * i) y)"
    and len: "LENGTH('a) = 8 * n"
  shows "x = y"
proof (rule bit_word_eqI)
  fix k
  assume k: "k < LENGTH('a)"
  then have "k div 8 < n" using len by (simp add: less_mult_imp_div_less mult.commute)
  from eq [OF this]
  have "bit (ucast (drop_bit (8 * (k div 8)) x) :: u8) (k mod 8) =
        bit (ucast (drop_bit (8 * (k div 8)) y) :: u8) (k mod 8)"
    by simp
  then show "bit x k = bit y k"
    by (simp add: bit_ucast_iff bit_drop_bit_eq)
qed

lemma to_le_bytes_inject: "to_le_bytes a = to_le_bytes b \<longleftrightarrow> a = b"
proof
  assume eq: "to_le_bytes a = to_le_bytes b"
  have "(ucast (drop_bit (8 * i) a) :: u8) = ucast (drop_bit (8 * i) b)" if "i < 8" for i
    using arg_cong [OF eq, of "\<lambda>xs. xs ! i"] that by (simp add: to_le_bytes_def)
  then show "a = b" by (rule word_eq_of_bytes [where n = 8]) simp_all
qed simp

lemma address_bytes_inject: "address_bytes a = address_bytes b \<longleftrightarrow> a = b"
proof
  assume eq: "address_bytes a = address_bytes b"
  have "(ucast (drop_bit (8 * i) a) :: u8) = ucast (drop_bit (8 * i) b)" if "i < 20" for i
  proof -
    have "[0..<20] ! (19 - i) = 19 - i"
      using nth_upt [of 0 "19 - i" 20] by simp
    then show ?thesis
      using arg_cong [OF eq, of "\<lambda>xs. xs ! (19 - i)"] that
      by (simp add: address_bytes_def del: upt_conv_Cons)
  qed
  then show "a = b" by (rule word_eq_of_bytes [where n = 20]) simp_all
qed simp

lemma length_to_le_bytes [simp]: "length (to_le_bytes n) = 8"
  by (simp add: to_le_bytes_def)

lemma length_address_bytes [simp]: "length (address_bytes a) = 20"
  by (simp add: address_bytes_def)

text \<open>A marker identifies its transaction: two markers are equal exactly when they are made
  from the same nonce and the same sender, and every marker is 28 bytes long.\<close>

theorem to_marker_inject:
  "(to_marker n a = to_marker n' a' \<longleftrightarrow> n = n' \<and> a = a') \<and> length (to_marker n a) = 28"
  by (simp add: to_marker_def to_le_bytes_inject address_bytes_inject)

lemma to_marker_eq [simp]: "to_marker n a = to_marker n' a' \<longleftrightarrow> n = n' \<and> a = a'"
  by (simp add: to_marker_def to_le_bytes_inject address_bytes_inject)

lemma required_marker_cases:
  "required_marker n c a = (if c < n then [to_marker (n - 1) a] else [])"
proof (cases "c < n")
  case True
  then have one: "1 \<le> n" by (simp add: word_le_nat_alt word_less_nat_alt)
  with True have "c \<le> n - 1"
    by (simp add: word_le_nat_alt word_less_nat_alt unat_sub)
  with one True show ?thesis
    by (auto simp: required_marker_def saturating_sub_def)
next
  case False
  then have "\<not> c \<le> saturating_sub n 1" if "n \<noteq> c"
    using that by (auto simp: word_le_nat_alt word_less_nat_alt arith_simps word_unat_eq_iff)
  with False show ?thesis
    by (auto simp: required_marker_def Let_def)
qed

text \<open>A transaction entering the pool over RPC requires nothing when its nonce is the
  account's nonce on chain (or lies below it), and otherwise exactly the marker of the sender's
  preceding nonce; it never requires what it provides, so it is well formed for the pool.\<close>

theorem api_pool_transaction_markers:
  "requires (api_pool_transaction ord c ptx) =
     (if c < pending_nonce ptx
      then [to_marker (pending_nonce ptx - 1) (sender ptx)] else []) \<and>
   wf_tx (api_pool_transaction ord c ptx)"
  by (auto simp: api_pool_transaction_def Let_def required_marker_cases wf_tx_def)

section \<open>What mining did\<close>

text \<open>What mining a block did with the transactions it was given.\<close>

record MinedBlockOutcome =
  mined_block_number :: u64
  mined_included :: "PoolTransaction list"
  mined_invalid :: "PoolTransaction list"

end
