(* ===== verification/Anvil_Exec.thy ===== *)
theory Anvil_Exec
  imports Anvil_Validate Pool_Types "HOL-Library.Sublist"
begin

text \<open>
  Executing a block: the executor of \<open>crates/anvil/src/eth/backend/executor.rs\<close>, which runs the
  pending transactions one by one and builds the block.

  The virtual machine is \<open>revm\<close>: what executing a transaction does to the database and which result it
  gives are arguments (\<open>evm_ops\<close>), and so is the validator, a trait in the sources. The lemmas show that
  a block keeps to its gas limits and agrees with its receipts and with what it includes.
\<close>

section \<open>Types of transactions and receipts\<close>

definition typed_ty :: "TypedTransaction \<Rightarrow> u8" where
  "typed_ty tx = (case tx_type tx of Some t \<Rightarrow> t | None \<Rightarrow> 0)"

fun receipt_ty :: "TypedReceipt \<Rightarrow> u8" where
  "receipt_ty (LegacyReceipt _) = 0"
| "receipt_ty (EIP2930Receipt _) = 1"
| "receipt_ty (EIP1559Receipt _) = 2"
| "receipt_ty (EIP4844Receipt _) = 3"
| "receipt_ty (EIP7702Receipt _) = 4"
| "receipt_ty (DepositReceipt _ _ _) = DEPOSIT_TX_TYPE_ID"

section \<open>The executor\<close>

datatype Output = CallOutput Bytes | CreateOutput Bytes "Address option"

fun into_data :: "Output \<Rightarrow> Bytes" where
  "into_data (CallOutput b) = b"
| "into_data (CreateOutput b _) = b"

datatype ExecutionResult =
    Success InstructionResult u64 "Log list" Output
  | Reverted u64 Bytes
  | Halt InstructionResult u64

datatype ('d, 'r) EVMError = DatabaseFailure 'd | TransactionFailure "'r InvalidTransaction" | OtherFailure

text \<open>What is not under the sources: reading an account, running a transaction (with the tracer, which
  yields the nodes of the call trace) and committing its changes, the root of the state, and the
  numbers of two result codes.\<close>

record ('db, 'c, 'n, 'd, 'r) evm_ops =
  evm_basic :: "'db \<Rightarrow> Address \<Rightarrow> ('d + 'c AccountInfo option) \<times> 'db"
  default_account :: "'c AccountInfo"
  transact_commit ::
    "EnvWithHandlerCfg \<Rightarrow> TxEnv \<Rightarrow> 'db \<Rightarrow> (('d, 'r) EVMError + ExecutionResult \<times> 'n list) \<times> 'db"
  maybe_state_root :: "'db \<Rightarrow> B256 option"
  ir_Revert :: InstructionResult
  ir_SelfDestruct :: InstructionResult

record 'n ExecutedTransaction =
  et_transaction :: PoolTransaction
  exit_reason :: InstructionResult
  et_out :: "Output option"
  et_gas_used :: u64
  et_logs :: "Log list"
  et_traces :: "'n list"
  et_nonce :: u64

datatype ('n, 'd, 'e) TransactionExecutionOutcome =
    Executed "'n ExecutedTransaction"
  | Invalid PoolTransaction 'e
  | Exhausted PoolTransaction
  | BlobGasExhausted PoolTransaction
  | DatabaseError PoolTransaction 'd

definition create_receipt ::
    "chain_hashing \<Rightarrow> ('db, 'c, 'n, 'd, 'r) evm_ops \<Rightarrow> 'n ExecutedTransaction \<Rightarrow> u64 \<Rightarrow> TypedReceipt \<times> u64" where
  "create_receipt hs ops et cumulative =
     (let cumulative' = saturating_add cumulative (et_gas_used et);
          r = \<lparr>status = (exit_reason et \<le> ir_SelfDestruct ops), cumulative_gas = cumulative',
               receipt_logs = et_logs et, receipt_bloom = bloom_slow hs (et_logs et)\<rparr>
      in (case typed (transaction (pending_transaction (et_transaction et))) of
            Legacy _ \<Rightarrow> LegacyReceipt r
          | EIP2930 _ \<Rightarrow> EIP2930Receipt r
          | EIP1559 _ \<Rightarrow> EIP1559Receipt r
          | EIP4844 _ \<Rightarrow> EIP4844Receipt r
          | EIP7702 _ \<Rightarrow> EIP7702Receipt r
          | Deposit tx \<Rightarrow> DepositReceipt r (Some (deposit_nonce tx)) (Some 1), cumulative'))"

definition topic_bytes :: "B256 \<Rightarrow> u8 list" where
  "topic_bytes w = map (\<lambda>i. ucast (drop_bit (8 * (31 - i)) w)) [0..<32]"

fun build_logs_bloom :: "chain_hashing \<Rightarrow> Log list \<Rightarrow> Bloom \<Rightarrow> Bloom" where
  "build_logs_bloom hs [] bloom = bloom"
| "build_logs_bloom hs (log # logs) bloom =
     build_logs_bloom hs logs
       (foldl (\<lambda>b t. accrue hs (topic_bytes t) b) (accrue hs (address_bytes (log_address log)) bloom) (log_topics log))"

definition env_for :: "tx_crypto \<Rightarrow> EnvWithHandlerCfg \<Rightarrow> PendingTransaction \<Rightarrow> TxEnv option" where
  "env_for cr env tx =
     do {
       te \<leftarrow> to_revm_tx_env tx;
       Some (if env_is_optimism env
             then te\<lparr>env_optimism := (env_optimism te)\<lparr>op_enveloped_tx := Some (tx_encode cr (typed (transaction tx)))\<rparr>\<rparr>
             else te)
     }"

text \<open>The parts of \<open>TransactionExecutor\<close> that change while it runs.\<close>

record 'db TransactionExecutor =
  ex_db :: 'db
  ex_gas_used :: u64
  ex_blob_gas_used :: u64

type_synonym ('c, 'e) validator = "PendingTransaction \<Rightarrow> 'c AccountInfo \<Rightarrow> EnvWithHandlerCfg \<Rightarrow> 'e check"

abbreviation pool_typed :: "PoolTransaction \<Rightarrow> TypedTransaction" where
  "pool_typed tx \<equiv> typed (transaction (pending_transaction tx))"

definition blob_gas_or_0 :: "PoolTransaction \<Rightarrow> u64" where
  "blob_gas_or_0 tx = (case blob_gas (pool_typed tx) of Some g \<Rightarrow> g | None \<Rightarrow> 0)"

definition executed_transaction ::
    "('db, 'c, 'n, 'd, 'r) evm_ops \<Rightarrow> PoolTransaction \<Rightarrow> u64 \<Rightarrow> ExecutionResult \<Rightarrow> 'n list \<Rightarrow> 'n ExecutedTransaction" where
  "executed_transaction ops tx n res nodes =
     (let (reason, gas, out, logs) =
            (case res of
               Success reason gas logs output \<Rightarrow> (reason, gas, Some output, logs)
             | Reverted gas output \<Rightarrow> (ir_Revert ops, gas, Some (CallOutput output), [])
             | Halt reason gas \<Rightarrow> (reason, gas, None, []))
      in \<lparr>et_transaction = tx, exit_reason = reason, et_out = out, et_gas_used = gas, et_logs = logs,
          et_traces = nodes, et_nonce = n\<rparr>)"

definition transact ::
    "('db, 'c, 'n, 'd, 'r) evm_ops \<Rightarrow> EnvWithHandlerCfg \<Rightarrow> TxEnv \<Rightarrow> PoolTransaction \<Rightarrow> u64 \<Rightarrow> 'db TransactionExecutor \<Rightarrow>
     (('n, 'd, ('r, 'b) InvalidTransactionError) TransactionExecutionOutcome \<times> 'db TransactionExecutor) option" where
  "transact ops env te tx n ex =
     (case transact_commit ops env te (ex_db ex) of
        (Inl (DatabaseFailure e), db) \<Rightarrow> Some (DatabaseError tx e, ex\<lparr>ex_db := db\<rparr>)
      | (Inl (TransactionFailure e), db) \<Rightarrow> Some (Invalid tx (invalid_from e), ex\<lparr>ex_db := db\<rparr>)
      | (Inl OtherFailure, db) \<Rightarrow> None
      | (Inr (res, nodes), db) \<Rightarrow>
          (let et = executed_transaction ops tx n res nodes
           in Some (Executed et,
                \<lparr>ex_db = db, ex_gas_used = saturating_add (ex_gas_used ex) (et_gas_used et),
                 ex_blob_gas_used = (case blob_gas (pool_typed tx) of
                    Some g \<Rightarrow> saturating_add (ex_blob_gas_used ex) g | None \<Rightarrow> ex_blob_gas_used ex)\<rparr>)))"

definition exceeds_block_gas :: "EnvWithHandlerCfg \<Rightarrow> u64 \<Rightarrow> TxEnv \<Rightarrow> bool option" where
  "exceeds_block_gas env used te =
     (if disable_block_gas_limit (env_cfg env) then Some False
      else map_option (\<lambda>limit. limit < saturating_add used (env_gas_limit te)) (to_u64 (be_gas_limit (env_block env))))"

definition next_outcome ::
    "tx_crypto \<Rightarrow> ('db, 'c, 'n, 'd, 'r) evm_ops \<Rightarrow> ('c, ('r, 'b) InvalidTransactionError) validator \<Rightarrow>
     EnvWithHandlerCfg \<Rightarrow> PoolTransaction \<Rightarrow> 'db TransactionExecutor \<Rightarrow>
     (('n, 'd, ('r, 'b) InvalidTransactionError) TransactionExecutionOutcome \<times> 'db TransactionExecutor) option" where
  "next_outcome cr ops validate env tx ex =
     (let pending = pending_transaction tx; (acc, db) = evm_basic ops (ex_db ex) (sender pending);
          ex1 = ex\<lparr>ex_db := db\<rparr>
      in case acc of
           Inl e \<Rightarrow> Some (DatabaseError tx e, ex1)
         | Inr found \<Rightarrow>
             do {
               let account = (case found of Some i \<Rightarrow> i | None \<Rightarrow> default_account ops);
               te \<leftarrow> env_for cr env pending;
               exceeds \<leftarrow> exceeds_block_gas env (ex_gas_used ex) te;
               if exceeds then Some (Exhausted tx, ex1)
               else if MAX_DATA_GAS_PER_BLOCK < saturating_add (ex_blob_gas_used ex) (blob_gas_or_0 tx)
               then Some (BlobGasExhausted tx, ex1)
               else do {
                 valid \<leftarrow> validate pending account env;
                 case valid of
                   Some e \<Rightarrow> Some (Invalid tx e, ex1)
                 | None \<Rightarrow> transact ops env te tx (ai_nonce account) ex1
               }
             })"

text \<open>What \<open>execute\<close> collects while it goes through the outcomes.\<close>

record 'n collected =
  c_transactions :: "MaybeImpersonatedTransaction list"
  c_infos :: "'n TransactionInfo list"
  c_receipts :: "TypedReceipt list"
  c_bloom :: Bloom
  c_gas :: u64
  c_blob_gas :: "u64 option"
  c_included :: "PoolTransaction list"
  c_invalid :: "PoolTransaction list"

definition out_address :: "Output option \<Rightarrow> Address option" where
  "out_address out = (case out of Some (CreateOutput _ a) \<Rightarrow> a | _ \<Rightarrow> None)"

definition collect_executed ::
    "chain_hashing \<Rightarrow> ('db, 'c, 'n, 'd, 'r) evm_ops \<Rightarrow> bool \<Rightarrow> 'n ExecutedTransaction \<Rightarrow> 'n collected \<Rightarrow> 'n collected" where
  "collect_executed hs ops is_cancun et c =
     (let tx = et_transaction et; (receipt, gas) = create_receipt hs ops et (c_gas c);
          info = \<lparr>transaction_hash = tx_hash tx, transaction_index = of_nat (length (c_infos c)),
            info_from = sender (pending_transaction tx), info_to = tx_to (pool_typed tx),
            contract_address = out_address (et_out et), traces = et_traces et, exit = exit_reason et,
            info_out = map_option into_data (et_out et), info_nonce = et_nonce et, info_gas_used = et_gas_used et\<rparr>
      in c\<lparr>c_included := c_included c @ [tx],
           c_blob_gas := (if is_cancun
             then Some (saturating_add (case c_blob_gas c of Some g \<Rightarrow> g | None \<Rightarrow> 0) (blob_gas_or_0 tx)) else c_blob_gas c),
           c_gas := gas, c_bloom := build_logs_bloom hs (et_logs et) (c_bloom c),
           c_infos := c_infos c @ [info], c_receipts := c_receipts c @ [receipt],
           c_transactions := c_transactions c @ [transaction (pending_transaction tx)]\<rparr>)"

fun collect ::
    "chain_hashing \<Rightarrow> ('db, 'c, 'n, 'd, 'r) evm_ops \<Rightarrow> bool \<Rightarrow> ('n, 'd, 'e) TransactionExecutionOutcome \<Rightarrow>
     'n collected \<Rightarrow> 'n collected" where
  "collect hs ops is_cancun (Executed et) c = collect_executed hs ops is_cancun et c"
| "collect hs ops is_cancun (Invalid tx _) c = c\<lparr>c_invalid := c_invalid c @ [tx]\<rparr>"
| "collect hs ops is_cancun _ c = c"

fun execute_loop ::
    "tx_crypto \<Rightarrow> chain_hashing \<Rightarrow> ('db, 'c, 'n, 'd, 'r) evm_ops \<Rightarrow> ('c, ('r, 'b) InvalidTransactionError) validator \<Rightarrow>
     EnvWithHandlerCfg \<Rightarrow> bool \<Rightarrow> PoolTransaction list \<Rightarrow> 'db TransactionExecutor \<Rightarrow> 'n collected \<Rightarrow>
     ('db TransactionExecutor \<times> 'n collected) option" where
  "execute_loop cr hs ops validate env is_cancun [] ex c = Some (ex, c)"
| "execute_loop cr hs ops validate env is_cancun (tx # txs) ex c =
     do {
       (outcome, ex') \<leftarrow> next_outcome cr ops validate env tx ex;
       execute_loop cr hs ops validate env is_cancun txs ex' (collect hs ops is_cancun outcome c)
     }"

record 'n ExecutedTransactions =
  executed_block :: "'n BlockInfo"
  included :: "PoolTransaction list"
  invalid :: "PoolTransaction list"

definition start_collecting :: "bool \<Rightarrow> 'n collected" where
  "start_collecting is_cancun =
     \<lparr>c_transactions = [], c_infos = [], c_receipts = [], c_bloom = 0, c_gas = 0,
      c_blob_gas = (if is_cancun then Some 0 else None), c_included = [], c_invalid = []\<rparr>"

definition execute ::
    "tx_crypto \<Rightarrow> chain_hashing \<Rightarrow> spec_ids \<Rightarrow> ('db, 'c, 'n, 'd, 'r) evm_ops \<Rightarrow>
     ('c, ('r, 'b) InvalidTransactionError) validator \<Rightarrow> EnvWithHandlerCfg \<Rightarrow> B256 \<Rightarrow> PoolTransaction list \<Rightarrow>
     'db TransactionExecutor \<Rightarrow> ('n ExecutedTransactions \<times> 'db) option" where
  "execute cr hs ids ops validate env parent pending ex =
     do {
       let block_env = env_block env;
       limit \<leftarrow> to_u64 (be_gas_limit block_env);
       block_number \<leftarrow> to_u64 (be_number block_env);
       time \<leftarrow> to_u64 (be_timestamp block_env);
       fee \<leftarrow> (if LONDON ids \<le> env_spec_id env then map_option Some (to_u64 (be_basefee block_env)) else Some None);
       let is_shanghai = SHANGHAI ids \<le> env_spec_id env;
       let is_cancun = CANCUN ids \<le> env_spec_id env;
       let is_prague = PRAGUE ids \<le> env_spec_id env;
       (ex', c) \<leftarrow> execute_loop cr hs ops validate env is_cancun pending ex (start_collecting is_cancun);
       let ph = \<lparr>ph_parent_hash = parent, ph_beneficiary = be_coinbase block_env,
         ph_state_root = (case maybe_state_root ops (ex_db ex') of Some r \<Rightarrow> r | None \<Rightarrow> 0),
         ph_receipts_root = receipts_trie hs (c_receipts c), ph_logs_bloom = c_bloom c,
         ph_difficulty = be_difficulty block_env, ph_number = block_number, ph_gas_limit = limit,
         ph_gas_used = c_gas c, ph_timestamp = time, ph_extra_data = [], ph_mix_hash = 0,
         ph_blob_gas_used = c_blob_gas c,
         ph_excess_blob_gas = (if is_cancun then get_blob_excess_gas block_env else None),
         ph_parent_beacon_block_root = (if is_cancun then Some 0 else None), ph_nonce = 0, ph_base_fee = fee,
         ph_withdrawals_root = (if is_shanghai then Some (EMPTY_WITHDRAWALS hs) else None),
         ph_requests_hash = (if is_prague then Some (EMPTY_REQUESTS_HASH hs) else None)\<rparr>;
       Some (\<lparr>executed_block = \<lparr>bi_block = new_Block hs ph (c_transactions c), bi_transactions = c_infos c,
                bi_receipts = c_receipts c\<rparr>, included = c_included c, invalid = c_invalid c\<rparr>, ex_db ex')
     }"

section \<open>One transaction\<close>

fun result_gas :: "ExecutionResult \<Rightarrow> u64" where
  "result_gas (Success _ g _ _) = g"
| "result_gas (Reverted g _) = g"
| "result_gas (Halt _ g) = g"

text \<open>The virtual machine never reports more gas than the transaction was given.\<close>

definition gas_honest :: "('db, 'c, 'n, 'd, 'r) evm_ops \<Rightarrow> bool" where
  "gas_honest ops \<longleftrightarrow>
     (\<forall>env te db. case fst (transact_commit ops env te db) of
        Inr (res, _) \<Rightarrow> result_gas res \<le> env_gas_limit te | Inl _ \<Rightarrow> True)"

lemma executed_transaction_fields [simp]:
  "et_transaction (executed_transaction ops tx n res nodes) = tx"
  "et_gas_used (executed_transaction ops tx n res nodes) = result_gas res"
  by (cases res; simp add: executed_transaction_def)+

text \<open>The transaction an outcome is about.\<close>

fun outcome_tx :: "('n, 'd, 'e) TransactionExecutionOutcome \<Rightarrow> PoolTransaction" where
  "outcome_tx (Executed et) = et_transaction et"
| "outcome_tx (Invalid tx _) = tx"
| "outcome_tx (Exhausted tx) = tx"
| "outcome_tx (BlobGasExhausted tx) = tx"
| "outcome_tx (DatabaseError tx _) = tx"

lemma saturating_below:
  assumes "\<not> limit < saturating_add a b" and "limit \<noteq> - 1"
  shows "unat a + unat b \<le> unat limit"
proof -
  have "unat (saturating_add a b) \<le> unat limit" using assms(1) by (simp add: not_less word_le_nat_alt)
  moreover have "unat limit < 2 ^ LENGTH('a) - 1"
    using unat_Suc_less_iff [of limit] assms(2) by linarith
  ultimately show ?thesis by (simp add: unat_saturating_add)
qed

lemma next_outcome_tx:
  assumes "next_outcome cr ops validate env tx ex = Some (outcome, ex')"
  shows "outcome_tx outcome = tx"
  using assms
  by (auto simp: next_outcome_def transact_def Let_def
      split: prod.splits sum.splits bind_splits if_splits option.splits EVMError.splits)

lemma next_outcome_skips:
  assumes "next_outcome cr ops validate env tx ex = Some (outcome, ex')" and "\<nexists>et. outcome = Executed et"
  shows "ex_gas_used ex' = ex_gas_used ex \<and> ex_blob_gas_used ex' = ex_blob_gas_used ex"
  using assms
  by (auto simp: next_outcome_def transact_def Let_def
      split: prod.splits sum.splits bind_splits if_splits option.splits EVMError.splits)

lemma next_outcome_executed:
  fixes validate :: "('c, ('r, 'b) InvalidTransactionError) validator" and ops :: "('db, 'c, 'n, 'd, 'r) evm_ops"
  assumes "next_outcome cr ops validate env tx ex = Some (Executed et, ex')"
  shows "ex_gas_used ex' = saturating_add (ex_gas_used ex) (et_gas_used et) \<and>
    ex_blob_gas_used ex' = (case blob_gas (pool_typed tx) of
      Some g \<Rightarrow> saturating_add (ex_blob_gas_used ex) g | None \<Rightarrow> ex_blob_gas_used ex) \<and>
    \<not> MAX_DATA_GAS_PER_BLOCK < saturating_add (ex_blob_gas_used ex) (blob_gas_or_0 tx) \<and>
    (\<exists>te db res nodes. et_gas_used et = result_gas res \<and> fst (transact_commit ops env te db) = Inr (res, nodes) \<and>
      (\<not> disable_block_gas_limit (env_cfg env) \<longrightarrow>
        (\<exists>limit. to_u64 (be_gas_limit (env_block env)) = Some limit \<and>
          \<not> limit < saturating_add (ex_gas_used ex) (env_gas_limit te))))"
proof -
  obtain acc db where b: "evm_basic ops (ex_db ex) (sender (pending_transaction tx)) = (acc, db)"
    by (rule prod.exhaust)
  from assms b obtain te n where
    ex: "exceeds_block_gas env (ex_gas_used ex) te = Some False" and
    blob: "\<not> MAX_DATA_GAS_PER_BLOCK < saturating_add (ex_blob_gas_used ex) (blob_gas_or_0 tx)" and
    run: "transact ops env te tx n (ex\<lparr>ex_db := db\<rparr>) = (Some (Executed et, ex') ::
      (('n, 'd, ('r, 'b) InvalidTransactionError) TransactionExecutionOutcome \<times> 'db TransactionExecutor) option)"
    by (auto simp: next_outcome_def Let_def split: sum.splits bind_splits if_splits option.splits)
  from run obtain res nodes db' where
    r: "transact_commit ops env te db = (Inr (res, nodes), db')" "et = executed_transaction ops tx n res nodes"
      "ex' = \<lparr>ex_db = db', ex_gas_used = saturating_add (ex_gas_used ex) (et_gas_used et),
        ex_blob_gas_used = (case blob_gas (pool_typed tx) of
          Some g \<Rightarrow> saturating_add (ex_blob_gas_used ex) g | None \<Rightarrow> ex_blob_gas_used ex)\<rparr>"
    by (auto simp: transact_def Let_def cong: option.case_cong split: prod.splits sum.splits EVMError.splits)
  show ?thesis
    using r ex blob by (intro conjI exI [of _ te] exI [of _ db] exI [of _ res] exI [of _ nodes])
      (auto simp: exceeds_block_gas_def split: if_splits)
qed

section \<open>The whole block\<close>

definition prefix_sums :: "nat list \<Rightarrow> nat list" where
  "prefix_sums xs = map (\<lambda>i. sum_list (take (Suc i) xs)) [0..<length xs]"

lemma prefix_sums_snoc: "prefix_sums (xs @ [x]) = prefix_sums xs @ [sum_list xs + x]"
  by (simp add: prefix_sums_def)

text \<open>What the executor and the collected data say about each other.\<close>

definition gas_agrees :: "u64 \<Rightarrow> 'db TransactionExecutor \<Rightarrow> 'n collected \<Rightarrow> bool" where
  "gas_agrees limit ex c \<longleftrightarrow>
     c_gas c = ex_gas_used ex \<and> ex_gas_used ex \<le> limit \<and>
     unat (c_gas c) = sum_list (map (unat \<circ> info_gas_used) (c_infos c)) \<and>
     map (unat \<circ> cumulative_gas_used) (c_receipts c) = prefix_sums (map (unat \<circ> info_gas_used) (c_infos c))"

lemma create_receipt_gas:
  "cumulative_gas_used (fst (create_receipt hs ops et g)) = saturating_add g (et_gas_used et)"
  "snd (create_receipt hs ops et g) = saturating_add g (et_gas_used et)"
  by (cases "typed (transaction (pending_transaction (et_transaction et)))";
      simp add: create_receipt_def Let_def cumulative_gas_used_def)+

lemma collect_executed_fields:
  "c_gas (collect_executed hs ops is_cancun et c) = saturating_add (c_gas c) (et_gas_used et)"
  "map info_gas_used (c_infos (collect_executed hs ops is_cancun et c)) = map info_gas_used (c_infos c) @ [et_gas_used et]"
  "map cumulative_gas_used (c_receipts (collect_executed hs ops is_cancun et c)) =
     map cumulative_gas_used (c_receipts c) @ [saturating_add (c_gas c) (et_gas_used et)]"
  "c_included (collect_executed hs ops is_cancun et c) = c_included c @ [et_transaction et]"
  "c_invalid (collect_executed hs ops is_cancun et c) = c_invalid c"
  "c_transactions (collect_executed hs ops is_cancun et c) = c_transactions c @ [transaction (pending_transaction (et_transaction et))]"
  "map transaction_hash (c_infos (collect_executed hs ops is_cancun et c)) =
     map transaction_hash (c_infos c) @ [tx_hash (et_transaction et)]"
  "map transaction_index (c_infos (collect_executed hs ops is_cancun et c)) =
     map transaction_index (c_infos c) @ [of_nat (length (c_infos c))]"
  "c_blob_gas (collect_executed hs ops is_cancun et c) =
     (if is_cancun then Some (saturating_add (case c_blob_gas c of Some g \<Rightarrow> g | None \<Rightarrow> 0) (blob_gas_or_0 (et_transaction et)))
      else c_blob_gas c)"
  by (simp_all add: collect_executed_def Let_def split_beta create_receipt_gas)

lemma gas_agrees_step:
  assumes agree: "gas_agrees limit ex c" and honest: "gas_honest ops"
    and limit: "to_u64 (be_gas_limit (env_block env)) = Some limit" "limit \<noteq> - 1"
    and on: "\<not> disable_block_gas_limit (env_cfg env)"
    and out: "next_outcome cr ops validate env tx ex = Some (outcome, ex')"
  shows "gas_agrees limit ex' (collect hs ops is_cancun outcome c)"
proof (cases "\<exists>et. outcome = Executed et")
  case False
  with next_outcome_skips [OF out] agree show ?thesis
    by (cases outcome) (auto simp: gas_agrees_def)
next
  case True
  then obtain et where o: "outcome = Executed et" by blast
  from next_outcome_executed [OF out [unfolded o]] limit(1) on obtain te db res nodes where
    gas: "ex_gas_used ex' = saturating_add (ex_gas_used ex) (et_gas_used et)" and
    res: "et_gas_used et = result_gas res" "fst (transact_commit ops env te db) = Inr (res, nodes)" and
    below: "\<not> limit < saturating_add (ex_gas_used ex) (env_gas_limit te)" by auto
  have "et_gas_used et \<le> env_gas_limit te"
    using honest res unfolding gas_honest_def by (auto dest!: spec [of _ env] spec [of _ te] spec [of _ db])
  with saturating_below [OF below limit(2)]
  have sum: "unat (ex_gas_used ex) + unat (et_gas_used et) \<le> unat limit" by (simp add: word_le_nat_alt)
  have "unat limit < 2 ^ 64" using unsigned_less [of limit] by simp
  then have plus: "unat (saturating_add (ex_gas_used ex) (et_gas_used et)) = unat (ex_gas_used ex) + unat (et_gas_used et)"
    using sum by (simp add: unat_saturating_add)
  from agree sum plus gas show ?thesis
    unfolding gas_agrees_def o collect.simps map_map [symmetric] collect_executed_fields
    by (auto simp: prefix_sums_snoc word_le_nat_alt)
qed

text \<open>What every outcome keeps, the loop keeps; the invariant may speak of the transactions seen.\<close>

lemma execute_loop_invariant:
  assumes "\<And>seen ex c tx outcome ex'. P seen ex c \<Longrightarrow> next_outcome cr ops validate env tx ex = Some (outcome, ex') \<Longrightarrow>
    P (seen @ [tx]) ex' (collect hs ops is_cancun outcome c)"
  shows "execute_loop cr hs ops validate env is_cancun txs ex c = Some (ex', c') \<Longrightarrow> P seen ex c \<Longrightarrow> P (seen @ txs) ex' c'"
proof (induction txs arbitrary: ex c seen)
  case (Cons tx txs)
  from Cons.prems(1) obtain o1 e1 where n: "next_outcome cr ops validate env tx ex = Some (o1, e1)"
    and l: "execute_loop cr hs ops validate env is_cancun txs e1 (collect hs ops is_cancun o1 c) = Some (ex', c')"
    by (auto split: bind_splits)
  from Cons.IH [OF l assms [OF Cons.prems(2) n]] show ?case by simp
qed simp

lemma execute_loop_gas:
  assumes "gas_honest ops" and "to_u64 (be_gas_limit (env_block env)) = Some limit" and "limit \<noteq> - 1"
    and "\<not> disable_block_gas_limit (env_cfg env)"
    and "execute_loop cr hs ops validate env is_cancun txs ex c = Some (ex', c')" and "gas_agrees limit ex c"
  shows "gas_agrees limit ex' c'"
  by (rule execute_loop_invariant [where P = "\<lambda>_. gas_agrees limit", OF _ assms(5,6)]) (rule gas_agrees_step [OF _ assms(1-4)])

lemma execute_parts:
  assumes "execute cr hs ids ops validate env parent pending ex = Some (et, db)"
  obtains ex' c limit where
    "execute_loop cr hs ops validate env (CANCUN ids \<le> env_spec_id env) pending ex (start_collecting (CANCUN ids \<le> env_spec_id env)) = Some (ex', c)"
    "to_u64 (be_gas_limit (env_block env)) = Some limit" "db = ex_db ex'"
    "gas_used (header (bi_block (executed_block et))) = c_gas c"
    "gas_limit (header (bi_block (executed_block et))) = limit"
    "h_blob_gas_used (header (bi_block (executed_block et))) = c_blob_gas c"
    "parent_hash (header (bi_block (executed_block et))) = parent"
    "to_u64 (be_number (env_block env)) = Some (number (header (bi_block (executed_block et))))"
    "to_u64 (be_timestamp (env_block env)) = Some (timestamp (header (bi_block (executed_block et))))"
    "difficulty (header (bi_block (executed_block et))) = be_difficulty (env_block env)"
    "transactions (bi_block (executed_block et)) = c_transactions c"
    "bi_transactions (executed_block et) = c_infos c" "bi_receipts (executed_block et) = c_receipts c"
    "included et = c_included c" "invalid et = c_invalid c"
  using assms by (auto simp: execute_def Let_def split: bind_splits prod.splits)

text \<open>C7. A block never uses more gas than its limit: the gas in its header is the sum of what its
  transactions used, and the cumulative gas of the receipts are the partial sums. (The virtual machine must
  not report more gas than a transaction was given, and the limit must not be the largest 64-bit number,
  where the addition saturates.)\<close>

theorem block_gas_within_limit:
  assumes "gas_honest ops" and "\<not> disable_block_gas_limit (env_cfg env)" and "be_gas_limit (env_block env) \<noteq> 2 ^ 64 - 1"
    and "ex_gas_used ex = 0" and "execute cr hs ids ops validate env parent pending ex = Some (et, db)"
  shows "gas_used (header (bi_block (executed_block et))) \<le> gas_limit (header (bi_block (executed_block et))) \<and>
    unat (gas_used (header (bi_block (executed_block et)))) =
      sum_list (map (unat \<circ> info_gas_used) (bi_transactions (executed_block et))) \<and>
    map (unat \<circ> cumulative_gas_used) (bi_receipts (executed_block et)) =
      prefix_sums (map (unat \<circ> info_gas_used) (bi_transactions (executed_block et)))"
proof -
  obtain ex' c limit where
    loop: "execute_loop cr hs ops validate env (CANCUN ids \<le> env_spec_id env) pending ex (start_collecting (CANCUN ids \<le> env_spec_id env)) = Some (ex', c)"
    and limit: "to_u64 (be_gas_limit (env_block env)) = Some limit"
    and h: "gas_used (header (bi_block (executed_block et))) = c_gas c" "gas_limit (header (bi_block (executed_block et))) = limit"
      "bi_transactions (executed_block et) = c_infos c" "bi_receipts (executed_block et) = c_receipts c"
    using assms(5) by (rule execute_parts)
  have "limit \<noteq> - 1"
  proof
    assume "limit = - 1"
    then have "unat (be_gas_limit (env_block env)) = unat (- 1 :: u64)" using unat_to_u64 [OF limit] by simp
    then have "be_gas_limit (env_block env) = 2 ^ 64 - 1" by (simp add: unat_minus_one_eq word_unat_eq_iff)
    with assms(3) show False by simp
  qed
  moreover have "gas_agrees limit ex (start_collecting (CANCUN ids \<le> env_spec_id env))"
    using assms(4) by (simp add: gas_agrees_def start_collecting_def prefix_sums_def)
  ultimately have "gas_agrees limit ex' c" by (intro execute_loop_gas [OF assms(1) limit _ assms(2) loop])
  then show ?thesis by (auto simp: gas_agrees_def h)
qed

text \<open>A virtual machine for evaluation: every transaction succeeds and uses 21000 gas.\<close>

definition sample_evm :: "(unit, nat, unit, unit, unit) evm_ops" where
  "sample_evm = \<lparr>evm_basic = (\<lambda>db a. (Inr (Some (sample_account 189004)), db)), default_account = sample_account 0,
     transact_commit = (\<lambda>env te db. if env_gas_limit te < 21000 then (Inl (TransactionFailure RCallGasCostMoreThanGasLimit), db)
       else (Inr (Success 1 21000 [] (CallOutput []), []), db)),
     maybe_state_root = (\<lambda>db. None), ir_Revert = 16, ir_SelfDestruct = 3\<rparr>"

definition sample_pool_tx :: "U256 \<Rightarrow> PoolTransaction" where
  "sample_pool_tx v = new_PoolTransaction (signed_for (Some 1) v)"

definition sample_validator :: "(nat, (unit, unit) InvalidTransactionError) validator" where
  "sample_validator p account env =
     Some (if ai_balance account < 189000 + tx_value (typed (transaction p)) then Some InsufficientFunds else None)"

definition start_executor :: "'db \<Rightarrow> 'db TransactionExecutor" where
  "start_executor db = \<lparr>ex_db = db, ex_gas_used = 0, ex_blob_gas_used = 0\<rparr>"

lemma sample_honest: "gas_honest sample_evm"
  by (simp add: gas_honest_def sample_evm_def not_less)

text \<open>Of three transactions the first cannot be paid, the second is executed and the third no
  longer fits.\<close>

definition sample_pending :: "PoolTransaction list" where
  "sample_pending = [sample_pool_tx 5, sample_pool_tx 4, sample_pool_tx 3]"

lemma sample_run:
  "\<exists>et db. execute sample_crypto sample_hashing sample_ids sample_evm sample_validator sample_env 77 sample_pending (start_executor ())
      = Some (et, db) \<and> map (tx_value \<circ> pool_typed) (included et) = [4] \<and> map (tx_value \<circ> pool_typed) (invalid et) = [5]"
proof -
  have "map_option (\<lambda>(et, db). (map (tx_value \<circ> pool_typed) (included et), map (tx_value \<circ> pool_typed) (invalid et)))
      (execute sample_crypto sample_hashing sample_ids sample_evm sample_validator sample_env 77 sample_pending (start_executor ()))
      = Some ([4], [5])"
    by code_simp
  then show ?thesis by auto
qed

theorem block_gas_within_limit_witness:
  "\<exists>et db. execute sample_crypto sample_hashing sample_ids sample_evm sample_validator sample_env 77 sample_pending (start_executor ())
      = Some (et, db) \<and> map (tx_value \<circ> pool_typed) (included et) = [4] \<and> map (tx_value \<circ> pool_typed) (invalid et) = [5] \<and>
    unat (gas_used (header (bi_block (executed_block et)))) =
      sum_list (map (unat \<circ> info_gas_used) (bi_transactions (executed_block et))) \<and>
    gas_used (header (bi_block (executed_block et))) \<le> gas_limit (header (bi_block (executed_block et)))"
proof -
  obtain et db where
    r: "execute sample_crypto sample_hashing sample_ids sample_evm sample_validator sample_env 77 sample_pending (start_executor ()) = Some (et, db)"
      "map (tx_value \<circ> pool_typed) (included et) = [4]" "map (tx_value \<circ> pool_typed) (invalid et) = [5]"
    using sample_run by (elim exE conjE) (rule that)
  have "\<not> disable_block_gas_limit (env_cfg sample_env)" "be_gas_limit (env_block sample_env) \<noteq> 2 ^ 64 - 1"
    "ex_gas_used (start_executor ()) = 0"
    by (simp_all add: sample_env_def sample_block_env_def start_executor_def)
  from block_gas_within_limit [OF sample_honest this r(1)] r show ?thesis
    by (intro exI [of _ et] exI [of _ db]) auto
qed

section \<open>What a block includes\<close>

definition block_agrees :: "PoolTransaction list \<Rightarrow> 'n collected \<Rightarrow> bool" where
  "block_agrees seen c \<longleftrightarrow>
     c_transactions c = map (transaction \<circ> pending_transaction) (c_included c) \<and>
     map transaction_hash (c_infos c) = map tx_hash (c_included c) \<and>
     map transaction_index (c_infos c) = map of_nat [0..<length (c_included c)] \<and>
     length (c_receipts c) = length (c_included c) \<and>
     subseq (c_included c) seen \<and> subseq (c_invalid c) seen \<and>
     mset (c_included c) + mset (c_invalid c) \<subseteq># mset seen"

lemma block_agrees_step:
  assumes "block_agrees seen c"
  shows "block_agrees (seen @ [outcome_tx outcome]) (collect hs ops is_cancun outcome c)"
proof (cases outcome)
  case (Executed et)
  have len: "length (c_infos c) = length (c_included c)" "length (c_receipts c) = length (c_included c)"
    using assms by (auto simp: block_agrees_def dest: map_eq_imp_length_eq)
  have "length (map cumulative_gas_used (c_receipts (collect_executed hs ops is_cancun et c))) = Suc (length (c_included c))"
    unfolding collect_executed_fields by (simp add: len)
  then have "length (c_receipts (collect_executed hs ops is_cancun et c)) = Suc (length (c_included c))" by simp
  with assms len show ?thesis
    unfolding Executed block_agrees_def collect.simps outcome_tx.simps collect_executed_fields
    by (auto intro: subseq_rev_drop_many)
qed (use assms in \<open>auto simp: block_agrees_def intro: subseq_rev_drop_many subset_mset.order_trans\<close>)

lemma execute_loop_agrees:
  assumes "execute_loop cr hs ops validate env is_cancun txs ex c = Some (ex', c')" and "block_agrees seen c"
  shows "block_agrees (seen @ txs) c'"
proof (rule execute_loop_invariant [where P = "\<lambda>seen _. block_agrees seen", OF _ assms])
  fix seen tx outcome ex ex' and c :: "'b collected"
  assume "block_agrees seen c" and n: "next_outcome cr ops validate env tx ex = Some (outcome, ex')"
  from block_agrees_step [OF this(1), of outcome hs ops is_cancun]
  show "block_agrees (seen @ [tx]) (collect hs ops is_cancun outcome c)" by (simp add: next_outcome_tx [OF n])
qed

text \<open>C8. The block lists exactly the included transactions, in the order they were pending, and for each
  one receipt and one entry with its hash and its position. Every pending transaction ends up at most once
  in one of the two lists, included or invalid, and neither list has any other.\<close>

theorem executed_block_consistent:
  assumes "execute cr hs ids ops validate env parent pending ex = Some (et, db)"
  shows "transactions (bi_block (executed_block et)) = map (transaction \<circ> pending_transaction) (included et) \<and>
    map transaction_hash (bi_transactions (executed_block et)) = map tx_hash (included et) \<and>
    map transaction_index (bi_transactions (executed_block et)) = map of_nat [0..<length (included et)] \<and>
    length (bi_receipts (executed_block et)) = length (included et) \<and>
    subseq (included et) pending \<and> subseq (invalid et) pending \<and>
    mset (included et) + mset (invalid et) \<subseteq># mset pending"
proof -
  obtain ex' c where
    loop: "execute_loop cr hs ops validate env (CANCUN ids \<le> env_spec_id env) pending ex (start_collecting (CANCUN ids \<le> env_spec_id env)) = Some (ex', c)"
    and h: "transactions (bi_block (executed_block et)) = c_transactions c" "bi_transactions (executed_block et) = c_infos c"
      "bi_receipts (executed_block et) = c_receipts c" "included et = c_included c" "invalid et = c_invalid c"
    using assms by (rule execute_parts)
  have "block_agrees [] (start_collecting (CANCUN ids \<le> env_spec_id env))"
    by (simp add: block_agrees_def start_collecting_def)
  from execute_loop_agrees [OF loop this] show ?thesis by (simp add: block_agrees_def h)
qed

theorem executed_block_consistent_witness:
  "\<exists>et db. execute sample_crypto sample_hashing sample_ids sample_evm sample_validator sample_env 77 sample_pending (start_executor ())
      = Some (et, db) \<and> mset (included et) + mset (invalid et) \<subseteq># mset sample_pending \<and>
    map transaction_hash (bi_transactions (executed_block et)) = map tx_hash (included et)"
proof -
  obtain et db where
    r: "execute sample_crypto sample_hashing sample_ids sample_evm sample_validator sample_env 77 sample_pending (start_executor ()) = Some (et, db)"
    using sample_run by blast
  from executed_block_consistent [OF r] r show ?thesis by auto
qed

section \<open>Blob gas\<close>

definition blob_agrees :: "'db TransactionExecutor \<Rightarrow> 'n collected \<Rightarrow> bool" where
  "blob_agrees ex c \<longleftrightarrow>
     unat (ex_blob_gas_used ex) = sum_list (map (unat \<circ> blob_gas_or_0) (c_included c)) \<and>
     c_blob_gas c = Some (ex_blob_gas_used ex) \<and> ex_blob_gas_used ex \<le> MAX_DATA_GAS_PER_BLOCK"

lemma blob_agrees_step:
  assumes agree: "blob_agrees ex c" and out: "next_outcome cr ops validate env tx ex = Some (outcome, ex')"
  shows "blob_agrees ex' (collect hs ops True outcome c)"
proof (cases "\<exists>et. outcome = Executed et")
  case False
  with next_outcome_skips [OF out] agree show ?thesis by (cases outcome) (auto simp: blob_agrees_def)
next
  case True
  then obtain et where o: "outcome = Executed et" by blast
  note e = next_outcome_executed [OF out [unfolded o]]
  have tx: "et_transaction et = tx" using next_outcome_tx [OF out] o by simp
  have below: "\<not> MAX_DATA_GAS_PER_BLOCK < saturating_add (ex_blob_gas_used ex) (blob_gas_or_0 tx)" using e by blast
  have "MAX_DATA_GAS_PER_BLOCK \<noteq> - 1" by (simp add: MAX_DATA_GAS_PER_BLOCK_def)
  from saturating_below [OF below this]
  have sum: "unat (ex_blob_gas_used ex) + unat (blob_gas_or_0 tx) \<le> unat MAX_DATA_GAS_PER_BLOCK" .
  moreover have "unat MAX_DATA_GAS_PER_BLOCK = 786432" by (simp add: MAX_DATA_GAS_PER_BLOCK_def)
  ultimately have plus: "unat (saturating_add (ex_blob_gas_used ex) (blob_gas_or_0 tx)) =
      unat (ex_blob_gas_used ex) + unat (blob_gas_or_0 tx)"
    by (simp add: unat_saturating_add)
  have sat0: "saturating_add w 0 = w" for w :: u64
    unfolding saturating_add_def unsigned_0 add_0_right by (simp only: unsigned_less if_True)
  have "ex_blob_gas_used ex' = saturating_add (ex_blob_gas_used ex) (blob_gas_or_0 tx)"
    using e by (simp add: blob_gas_or_0_def sat0 split: option.splits)
  with agree plus below show ?thesis
    unfolding blob_agrees_def o collect.simps collect_executed_fields by (auto simp: tx not_less)
qed

lemma execute_loop_blob:
  assumes "execute_loop cr hs ops validate env True txs ex c = Some (ex', c')" and "blob_agrees ex c"
  shows "blob_agrees ex' c'"
  by (rule execute_loop_invariant [where P = "\<lambda>_. blob_agrees", OF _ assms]) (rule blob_agrees_step)

text \<open>C38. After Cancun the header gives the sum of the blob gas of the included transactions, which
  never exceeds what a block may carry.\<close>

theorem block_blob_gas_within_limit:
  assumes "execute cr hs ids ops validate env parent pending ex = Some (et, db)"
    and "CANCUN ids \<le> env_spec_id env" and "ex_blob_gas_used ex = 0"
  shows "\<exists>g. h_blob_gas_used (header (bi_block (executed_block et))) = Some g \<and> g \<le> MAX_DATA_GAS_PER_BLOCK \<and>
    unat g = sum_list (map (unat \<circ> blob_gas_or_0) (included et))"
proof -
  obtain ex' c where
    loop: "execute_loop cr hs ops validate env (CANCUN ids \<le> env_spec_id env) pending ex (start_collecting (CANCUN ids \<le> env_spec_id env)) = Some (ex', c)"
    and h: "h_blob_gas_used (header (bi_block (executed_block et))) = c_blob_gas c" "included et = c_included c"
    using assms(1) by (rule execute_parts)
  have "blob_agrees ex (start_collecting True)"
    using assms(3) by (simp add: blob_agrees_def start_collecting_def)
  with loop assms(2) have "blob_agrees ex' c" by (auto intro: execute_loop_blob)
  then show ?thesis by (auto simp: blob_agrees_def h)
qed

theorem block_blob_gas_within_limit_witness:
  "\<exists>et db g. execute sample_crypto sample_hashing sample_ids sample_evm sample_validator sample_env 77 sample_pending (start_executor ())
      = Some (et, db) \<and> h_blob_gas_used (header (bi_block (executed_block et))) = Some g \<and> g \<le> MAX_DATA_GAS_PER_BLOCK"
proof -
  obtain et db where
    r: "execute sample_crypto sample_hashing sample_ids sample_evm sample_validator sample_env 77 sample_pending (start_executor ()) = Some (et, db)"
    using sample_run by blast
  have "CANCUN sample_ids \<le> env_spec_id sample_env" "ex_blob_gas_used (start_executor ()) = 0"
    by (simp_all add: sample_ids_def sample_env_def start_executor_def)
  from block_blob_gas_within_limit [OF r this] r show ?thesis by auto
qed

section \<open>Receipts have the type of their transaction\<close>

lemma create_receipt_ty: "receipt_ty (fst (create_receipt hs ops et g)) = typed_ty (pool_typed (et_transaction et))"
  by (cases "pool_typed (et_transaction et)")
    (simp_all add: create_receipt_def Let_def typed_ty_def DEPOSIT_TX_TYPE_ID_def)

definition typed_receipts :: "'n collected \<Rightarrow> bool" where
  "typed_receipts c \<longleftrightarrow> map receipt_ty (c_receipts c) = map (typed_ty \<circ> typed) (c_transactions c)"

lemma typed_receipts_step: "typed_receipts c \<Longrightarrow> typed_receipts (collect hs ops is_cancun outcome c)"
  by (cases outcome)
    (simp_all add: typed_receipts_def collect_executed_def Let_def split_beta create_receipt_ty)

lemma execute_loop_typed:
  assumes "execute_loop cr hs ops validate env is_cancun txs ex c = Some (ex', c')" and "typed_receipts c"
  shows "typed_receipts c'"
  by (rule execute_loop_invariant [where P = "\<lambda>_ _. typed_receipts", OF _ assms]) (rule typed_receipts_step)

text \<open>C32. The receipts of a block are well typed: each has the type of the transaction at its position.\<close>

theorem block_receipts_typed:
  assumes "execute cr hs ids ops validate env parent pending ex = Some (et, db)"
  shows "map receipt_ty (bi_receipts (executed_block et)) =
    map (typed_ty \<circ> typed) (transactions (bi_block (executed_block et)))"
proof -
  obtain ex' c where
    loop: "execute_loop cr hs ops validate env (CANCUN ids \<le> env_spec_id env) pending ex (start_collecting (CANCUN ids \<le> env_spec_id env)) = Some (ex', c)"
    and h: "transactions (bi_block (executed_block et)) = c_transactions c" "bi_receipts (executed_block et) = c_receipts c"
    using assms by (rule execute_parts)
  have "typed_receipts (start_collecting (CANCUN ids \<le> env_spec_id env))"
    by (simp add: typed_receipts_def start_collecting_def)
  from execute_loop_typed [OF loop this] show ?thesis by (simp add: typed_receipts_def h)
qed

theorem block_receipts_typed_witness:
  "\<exists>et db. execute sample_crypto sample_hashing sample_ids sample_evm sample_validator sample_env 77 sample_pending (start_executor ())
      = Some (et, db) \<and> map receipt_ty (bi_receipts (executed_block et)) =
    map (typed_ty \<circ> typed) (transactions (bi_block (executed_block et)))"
proof -
  obtain et db where
    r: "execute sample_crypto sample_hashing sample_ids sample_evm sample_validator sample_env 77 sample_pending (start_executor ()) = Some (et, db)"
    using sample_run by blast
  from block_receipts_typed [OF r] r show ?thesis by auto
qed

end
