(* ===== verification/Anvil_States.thy ===== *)
theory Anvil_States
  imports Anvil_Db
begin

text \<open>
  The cache of historical states: \<open>InMemoryBlockStates\<close> of
  \<open>crates/anvil/src/eth/backend/mem/storage.rs\<close> with the disk cache of
  \<open>crates/anvil/src/eth/backend/mem/cache.rs\<close>, and the option \<open>--prune-history\<close> of
  \<open>crates/anvil/src/config.rs\<close>.

  The files of the disk cache are a map from block hashes to snapshots. Writes are spawned as tasks and
  happen later, so a cache keeps the writes still to be done. Whether a temporary directory can be
  created is an argument \<open>tmp\<close>. The lemmas show when the eviction loop ends, that the cache stays within
  its limits, and that an evicted state can be read back.
\<close>

section \<open>The disk cache\<close>

record 'c DiskStateCache =
  temp_path :: "string option"
  temp_dir :: "string option"
  files :: "(B256, 'c StateSnapshot) hmap"
  spawned :: "(B256 \<times> 'c StateSnapshot) list"

type_synonym tmp_dirs = "string option \<Rightarrow> string option"

definition new_DiskStateCache :: "string option \<Rightarrow> 'c DiskStateCache" where
  "new_DiskStateCache path = \<lparr>temp_path = path, temp_dir = None, files = [], spawned = []\<rparr>"

definition with_path :: "string \<Rightarrow> 'c DiskStateCache \<Rightarrow> 'c DiskStateCache" where
  "with_path p c = new_DiskStateCache (Some p)"

definition with_cache_file ::
    "tmp_dirs \<Rightarrow> ('c DiskStateCache \<Rightarrow> 'r \<times> 'c DiskStateCache) \<Rightarrow> 'c DiskStateCache \<Rightarrow> 'r option \<times> 'c DiskStateCache" where
  "with_cache_file tmp f c =
     (let c1 = (if temp_dir c = None then c\<lparr>temp_dir := tmp (temp_path c)\<rparr> else c)
      in case temp_dir c1 of
           Some _ \<Rightarrow> (let (r, c2) = f c1 in (Some r, c2))
         | None \<Rightarrow> (None, c1))"

definition disk_write :: "tmp_dirs \<Rightarrow> B256 \<Rightarrow> 'c StateSnapshot \<Rightarrow> 'c DiskStateCache \<Rightarrow> 'c DiskStateCache" where
  "disk_write tmp h snap c = snd (with_cache_file tmp (\<lambda>c. ((), c\<lparr>spawned := spawned c @ [(h, snap)]\<rparr>)) c)"

definition disk_read :: "tmp_dirs \<Rightarrow> B256 \<Rightarrow> 'c DiskStateCache \<Rightarrow> 'c StateSnapshot option \<times> 'c DiskStateCache" where
  "disk_read tmp h c =
     (let (r, c') = with_cache_file tmp (\<lambda>c. (hm_get (files c) h, c)) c in (Option.bind r (\<lambda>x. x), c'))"

definition disk_remove :: "tmp_dirs \<Rightarrow> B256 \<Rightarrow> 'c DiskStateCache \<Rightarrow> 'c DiskStateCache" where
  "disk_remove tmp h c = snd (with_cache_file tmp (\<lambda>c. ((), c\<lparr>files := hm_remove h (files c)\<rparr>)) c)"

text \<open>The body of a spawned write: it stores the file, unless writing fails.\<close>

definition run_write :: "bool \<Rightarrow> 'c DiskStateCache \<Rightarrow> 'c DiskStateCache" where
  "run_write fails c =
     (case spawned c of
        [] \<Rightarrow> c
      | (h, snap) # rest \<Rightarrow>
          c\<lparr>spawned := rest, files := (if fails then files c else hm_insert h snap (files c))\<rparr>)"

section \<open>The state cache\<close>

definition DEFAULT_HISTORY_LIMIT :: nat where "DEFAULT_HISTORY_LIMIT = 500"
definition MIN_HISTORY_LIMIT :: nat where "MIN_HISTORY_LIMIT = 10"
definition MAX_ON_DISK_HISTORY_LIMIT :: nat where "MAX_ON_DISK_HISTORY_LIMIT = 3600"

record 'c InMemoryBlockStates =
  states :: "(B256, 'c CacheDB) hmap"
  on_disk_states :: "(B256, 'c CacheDB) hmap"
  in_memory_limit :: nat
  min_in_memory_limit :: nat
  max_on_disk_limit :: nat
  oldest_on_disk :: "B256 list"
  present :: "B256 list"
  disk_cache :: "'c DiskStateCache"

definition new_InMemoryBlockStates :: "string option \<Rightarrow> nat \<Rightarrow> nat \<Rightarrow> 'c InMemoryBlockStates" where
  "new_InMemoryBlockStates path limit on_disk_limit =
     \<lparr>states = [], on_disk_states = [], in_memory_limit = limit,
      min_in_memory_limit = min limit MIN_HISTORY_LIMIT, max_on_disk_limit = on_disk_limit,
      oldest_on_disk = [], present = [], disk_cache = new_DiskStateCache path\<rparr>"

definition default_InMemoryBlockStates :: "string option \<Rightarrow> 'c InMemoryBlockStates" where
  "default_InMemoryBlockStates path = new_InMemoryBlockStates path DEFAULT_HISTORY_LIMIT MAX_ON_DISK_HISTORY_LIMIT"

definition memory_only :: "'c InMemoryBlockStates \<Rightarrow> 'c InMemoryBlockStates" where
  "memory_only s = s\<lparr>max_on_disk_limit := 0\<rparr>"

definition disk_path :: "string \<Rightarrow> 'c InMemoryBlockStates \<Rightarrow> 'c InMemoryBlockStates" where
  "disk_path p s = s\<lparr>disk_cache := with_path p (disk_cache s)\<rparr>"

definition is_memory_only :: "'c InMemoryBlockStates \<Rightarrow> bool" where
  "is_memory_only s = (max_on_disk_limit s = 0)"

definition evict_oldest :: "tmp_dirs \<Rightarrow> 'c account_order \<Rightarrow> 'c InMemoryBlockStates \<Rightarrow> 'c InMemoryBlockStates" where
  "evict_oldest tmp order s =
     (case present s of
        [] \<Rightarrow> s
      | h # rest \<Rightarrow>
          (let s1 = s\<lparr>present := rest\<rparr>
           in case hm_get (states s1) h of
                None \<Rightarrow> s1
              | Some state \<Rightarrow>
                  (let s2 = s1\<lparr>states := hm_remove h (states s1)\<rparr>
                   in if \<not> is_memory_only s2
                      then let (snap, state') = clear_into_state_snapshot order state
                           in s2\<lparr>disk_cache := disk_write tmp h snap (disk_cache s2),
                                 on_disk_states := hm_insert h state' (on_disk_states s2),
                                 oldest_on_disk := oldest_on_disk s2 @ [h]\<rparr>
                      else s2)))"

text \<open>The first loop of \<open>enforce_limits\<close>; with a limit of zero it never ends.\<close>

partial_function (option) evict_memory ::
    "tmp_dirs \<Rightarrow> 'c account_order \<Rightarrow> 'c InMemoryBlockStates \<Rightarrow> 'c InMemoryBlockStates option" where
  [code]: "evict_memory tmp order s =
     (if in_memory_limit s \<le> length (present s) then evict_memory tmp order (evict_oldest tmp order s) else Some s)"

function purge_disk :: "tmp_dirs \<Rightarrow> 'c InMemoryBlockStates \<Rightarrow> 'c InMemoryBlockStates" where
  "purge_disk tmp s =
     (if \<not> is_memory_only s \<and> max_on_disk_limit s \<le> length (oldest_on_disk s)
      then purge_disk tmp
        (case oldest_on_disk s of
           [] \<Rightarrow> s
         | h # rest \<Rightarrow> s\<lparr>oldest_on_disk := rest, on_disk_states := hm_remove h (on_disk_states s),
                         disk_cache := disk_remove tmp h (disk_cache s)\<rparr>)
      else s)"
  by pat_completeness auto
termination purge_disk
  by (relation "measure (\<lambda>(tmp, s). length (oldest_on_disk s))") (auto simp: is_memory_only_def split: list.splits)

declare purge_disk.simps [simp del]

definition enforce_limits ::
    "tmp_dirs \<Rightarrow> 'c account_order \<Rightarrow> 'c InMemoryBlockStates \<Rightarrow> 'c InMemoryBlockStates option" where
  "enforce_limits tmp order s = map_option (purge_disk tmp) (evict_memory tmp order s)"

definition insert_state ::
    "tmp_dirs \<Rightarrow> 'c account_order \<Rightarrow> B256 \<Rightarrow> 'c CacheDB \<Rightarrow> 'c InMemoryBlockStates \<Rightarrow> 'c InMemoryBlockStates option" where
  "insert_state tmp order h state s =
     do {
       s2 \<leftarrow> enforce_limits tmp order
         (if \<not> is_memory_only s \<and> in_memory_limit s \<le> length (present s)
          then s\<lparr>in_memory_limit := max (in_memory_limit s - 1) (min_in_memory_limit s)\<rparr> else s);
       Some (s2\<lparr>states := hm_insert h state (states s2), present := present s2 @ [h]\<rparr>)
     }"

definition update_interval_mine_block_time ::
    "tmp_dirs \<Rightarrow> 'c account_order \<Rightarrow> u64 \<Rightarrow> 'c InMemoryBlockStates \<Rightarrow> 'c InMemoryBlockStates option" where
  "update_interval_mine_block_time tmp order block_time s =
     (if block_time \<le> 2 then enforce_limits tmp order (s\<lparr>in_memory_limit := DEFAULT_HISTORY_LIMIT * 3\<rparr>) else Some s)"

definition get_state ::
    "tmp_dirs \<Rightarrow> 'c info_order \<Rightarrow> B256 \<Rightarrow> 'c InMemoryBlockStates \<Rightarrow> 'c CacheDB option \<times> 'c InMemoryBlockStates" where
  "get_state tmp order h s =
     (case hm_get (states s) h of
        Some state \<Rightarrow> (Some state, s)
      | None \<Rightarrow>
          (case hm_get (on_disk_states s) h of
             None \<Rightarrow> (None, s)
           | Some state \<Rightarrow>
               (let (cached, dc) = disk_read tmp h (disk_cache s); s1 = s\<lparr>disk_cache := dc\<rparr>
                in case cached of
                     Some snap \<Rightarrow>
                       (let state' = init_from_state_snapshot order snap state
                        in (Some state', s1\<lparr>on_disk_states := hm_insert h state' (on_disk_states s1)\<rparr>))
                   | None \<Rightarrow> (None, s1))))"

definition set_cache_limit :: "nat \<Rightarrow> 'c InMemoryBlockStates \<Rightarrow> 'c InMemoryBlockStates" where
  "set_cache_limit limit s = s\<lparr>in_memory_limit := limit\<rparr>"

definition clear_states :: "tmp_dirs \<Rightarrow> 'c InMemoryBlockStates \<Rightarrow> 'c InMemoryBlockStates" where
  "clear_states tmp s =
     s\<lparr>states := [], on_disk_states := [], present := [], oldest_on_disk := [],
       disk_cache := foldl (\<lambda>c h. disk_remove tmp h c) (disk_cache s) (oldest_on_disk s)\<rparr>"

fun read_disk_states ::
    "tmp_dirs \<Rightarrow> B256 list \<Rightarrow> 'c DiskStateCache \<Rightarrow> (B256 \<times> 'c StateSnapshot) list \<times> 'c DiskStateCache" where
  "read_disk_states tmp [] c = ([], c)"
| "read_disk_states tmp (h # hs) c =
     (let (r, c1) = disk_read tmp h c; (rest, c2) = read_disk_states tmp hs c1
      in ((case r of Some snap \<Rightarrow> (h, snap) # rest | None \<Rightarrow> rest), c2))"

definition serialized_states ::
    "tmp_dirs \<Rightarrow> ((B256 \<times> 'c CacheDB) list \<Rightarrow> (B256 \<times> 'c CacheDB) list) \<Rightarrow> 'c account_order \<Rightarrow>
     'c InMemoryBlockStates \<Rightarrow> (B256 \<times> 'c StateSnapshot) list \<times> 'c InMemoryBlockStates" where
  "serialized_states tmp so order s =
     (let (on_disk, c) = read_disk_states tmp (map fst (so (on_disk_states s))) (disk_cache s)
      in (map (\<lambda>(h, state). (h, read_as_state_snapshot order state)) (so (states s)) @ on_disk, s\<lparr>disk_cache := c\<rparr>))"

fun load_states ::
    "tmp_dirs \<Rightarrow> 'c account_order \<Rightarrow> 'c info_order \<Rightarrow> (B256 \<times> 'c StateSnapshot) list \<Rightarrow>
     'c InMemoryBlockStates \<Rightarrow> 'c InMemoryBlockStates option" where
  "load_states tmp order info_order [] s = Some s"
| "load_states tmp order info_order ((h, snap) # rest) s =
     do {
       s1 \<leftarrow> insert_state tmp order h (init_from_state_snapshot info_order snap empty_db) s;
       load_states tmp order info_order rest s1
     }"

section \<open>Pruning\<close>

record PruneStateHistoryConfig =
  prune_enabled :: bool
  max_memory_history :: "nat option"

definition is_state_history_supported :: "PruneStateHistoryConfig \<Rightarrow> bool" where
  "is_state_history_supported c = (\<not> prune_enabled c \<or> max_memory_history c \<noteq> None)"

definition prune_from_args :: "nat option option \<Rightarrow> PruneStateHistoryConfig" where
  "prune_from_args val =
     (case val of Some m \<Rightarrow> \<lparr>prune_enabled = True, max_memory_history = m\<rparr>
      | None \<Rightarrow> \<lparr>prune_enabled = False, max_memory_history = None\<rparr>)"

text \<open>The state cache the backend starts with.\<close>

definition backend_states ::
    "string option \<Rightarrow> PruneStateHistoryConfig \<Rightarrow> nat option \<Rightarrow> string option \<Rightarrow> 'c InMemoryBlockStates" where
  "backend_states tmp_root prune max_persisted cache_path =
     (let s = (if prune_enabled prune
               then memory_only (case max_memory_history prune of
                      Some limit \<Rightarrow> new_InMemoryBlockStates tmp_root limit 0
                    | None \<Rightarrow> default_InMemoryBlockStates tmp_root)
               else (case max_persisted of
                       Some limit \<Rightarrow> new_InMemoryBlockStates tmp_root DEFAULT_HISTORY_LIMIT limit
                     | None \<Rightarrow> default_InMemoryBlockStates tmp_root))
      in case cache_path of Some p \<Rightarrow> disk_path p s | None \<Rightarrow> s)"

section \<open>When the eviction ends\<close>

lemma evict_oldest_limits [simp]:
  "in_memory_limit (evict_oldest tmp order s) = in_memory_limit s"
  "min_in_memory_limit (evict_oldest tmp order s) = min_in_memory_limit s"
  "max_on_disk_limit (evict_oldest tmp order s) = max_on_disk_limit s"
  "present (evict_oldest tmp order s) = tl (present s)"
  by (auto simp: evict_oldest_def Let_def split: list.splits option.splits prod.splits)

lemma evict_memory_ends:
  "0 < in_memory_limit s \<Longrightarrow> evict_memory tmp order s \<noteq> None"
proof (induction "length (present s)" arbitrary: s rule: less_induct)
  case less
  show ?case
  proof (cases "in_memory_limit s \<le> length (present s)")
    case True
    with less.prems have "length (present (evict_oldest tmp order s)) < length (present s)" by simp
    from less.hyps [OF this] less.prems True show ?thesis by (subst evict_memory.simps) simp
  qed (subst evict_memory.simps, simp)
qed

lemma evict_memory_zero:
  assumes "evict_memory tmp order s = Some s'"
  shows "0 < in_memory_limit s"
proof (rule evict_memory.raw_induct [OF _ assms, where P = "\<lambda>tmp order s s'. 0 < in_memory_limit s"])
  fix f tmp order and s s' :: "'a InMemoryBlockStates"
  assume ih: "\<And>tmp order s s'. f tmp order s = Some s' \<Longrightarrow> 0 < in_memory_limit s"
    and step: "(if in_memory_limit s \<le> length (present s) then f tmp order (evict_oldest tmp order s) else Some s) = Some s'"
  show "0 < in_memory_limit s"
    using step ih [of tmp order "evict_oldest tmp order s" s'] by (auto split: if_splits)
qed

lemma enforce_limits_ends: "enforce_limits tmp order s \<noteq> None \<longleftrightarrow> 0 < in_memory_limit s"
  using evict_memory_ends [of s tmp order] evict_memory_zero [of tmp order s] by (auto simp: enforce_limits_def)

text \<open>C29. Enforcing the limits of the state cache ends if and only if the limit of states in memory is
  positive. With the limit zero the loop runs on an empty queue forever.\<close>

theorem enforce_limits_ends_iff:
  "enforce_limits tmp order s \<noteq> None \<longleftrightarrow> 0 < in_memory_limit s"
  by (rule enforce_limits_ends)

text \<open>The first block mined under \<open>--prune-history 0\<close>, which sets the limit to zero, is never
  finished.\<close>

theorem prune_history_zero_hangs:
  "insert_state tmp order h state (backend_states root (prune_from_args (Some (Some 0))) persisted path) = None"
proof -
  let ?s = "backend_states root (prune_from_args (Some (Some 0))) persisted path :: 'a InMemoryBlockStates"
  have "in_memory_limit ?s = 0" "is_memory_only ?s"
    by (simp_all add: backend_states_def prune_from_args_def memory_only_def new_InMemoryBlockStates_def
        disk_path_def is_memory_only_def Let_def split: option.splits)
  then show ?thesis using enforce_limits_ends [of tmp order ?s] by (simp add: insert_state_def)
qed

section \<open>The cache stays within its limits\<close>

definition states_ok :: "'c InMemoryBlockStates \<Rightarrow> bool" where
  "states_ok s \<longleftrightarrow>
     0 < in_memory_limit s \<and> 0 < min_in_memory_limit s \<and>
     distinct (hm_keys (states s)) \<and> set (hm_keys (states s)) \<subseteq> set (present s) \<and>
     distinct (hm_keys (on_disk_states s)) \<and> set (hm_keys (on_disk_states s)) \<subseteq> set (oldest_on_disk s) \<and>
     (is_memory_only s \<longrightarrow> oldest_on_disk s = [])"

lemma keys_delete: "set (hm_keys (hm_remove k m)) = set (hm_keys m) - {k}" "distinct (hm_keys m) \<Longrightarrow> distinct (hm_keys (hm_remove k m))"
  by (simp_all add: delete_keys distinct_removeAll)

lemma keys_insert: "set (hm_keys (hm_insert k v m)) = insert k (set (hm_keys m))" "distinct (hm_keys m) \<Longrightarrow> distinct (hm_keys (hm_insert k v m))"
  by (induction m) (auto simp: distinct_update)

lemma evict_oldest_ok: "states_ok s \<Longrightarrow> states_ok (evict_oldest tmp order s)"
proof (cases "present s")
  case (Cons h rest)
  assume ok: "states_ok s"
  show ?thesis
  proof (cases "hm_get (states s) h")
    case None
    then have "h \<notin> set (hm_keys (states s))" by (simp add: map_of_eq_None_iff)
    with ok None Cons show ?thesis
      by (auto simp: evict_oldest_def states_ok_def is_memory_only_def)
  next
    case (Some state)
    with ok Cons show ?thesis
      by (auto simp: evict_oldest_def states_ok_def is_memory_only_def Let_def keys_delete keys_insert
          split: prod.splits simp del: set_map)
  qed
qed (simp add: evict_oldest_def)

lemma evict_memory_ok:
  "evict_memory tmp order s = Some s' \<Longrightarrow> states_ok s \<Longrightarrow>
   states_ok s' \<and> length (present s') < in_memory_limit s' \<and> max_on_disk_limit s' = max_on_disk_limit s"
proof (induction "length (present s)" arbitrary: s rule: less_induct)
  case less
  note step = less.prems(1) [unfolded evict_memory.simps [of tmp order s]]
  show ?case
  proof (cases "in_memory_limit s \<le> length (present s)")
    case True
    with less.prems(2) have "length (present (evict_oldest tmp order s)) < length (present s)" by (auto simp: states_ok_def)
    from less.hyps [OF this _ evict_oldest_ok [OF less.prems(2)]] step True show ?thesis by simp
  qed (use step less.prems(2) in simp)
qed

lemma purge_disk_ok:
  "states_ok s \<Longrightarrow>
   states_ok (purge_disk tmp s) \<and> present (purge_disk tmp s) = present s \<and>
   in_memory_limit (purge_disk tmp s) = in_memory_limit s \<and> states (purge_disk tmp s) = states s \<and>
   max_on_disk_limit (purge_disk tmp s) = max_on_disk_limit s \<and>
   length (oldest_on_disk (purge_disk tmp s)) \<le> max_on_disk_limit s"
proof (induction tmp s rule: purge_disk.induct)
  case (1 tmp s)
  show ?case
  proof (cases "\<not> is_memory_only s \<and> max_on_disk_limit s \<le> length (oldest_on_disk s)")
    case True
    then obtain h rest where o: "oldest_on_disk s = h # rest" by (cases "oldest_on_disk s") (auto simp: is_memory_only_def)
    let ?t = "s\<lparr>oldest_on_disk := rest, on_disk_states := hm_remove h (on_disk_states s), disk_cache := disk_remove tmp h (disk_cache s)\<rparr>"
    have t: "purge_disk tmp s = purge_disk tmp ?t" using True by (subst purge_disk.simps) (simp add: o)
    have "states_ok ?t" using 1(2) o True by (auto simp: states_ok_def is_memory_only_def keys_delete simp del: set_map)
    with 1(1) [OF True] show ?thesis by (simp add: o t)
  next
    case False
    then have "purge_disk tmp s = s" by (subst purge_disk.simps) auto
    with False 1(2) show ?thesis by (auto simp: states_ok_def)
  qed
qed

lemma enforce_limits_ok:
  assumes "states_ok s"
  shows "\<exists>s'. enforce_limits tmp order s = Some s' \<and> states_ok s' \<and> length (present s') < in_memory_limit s' \<and>
    length (oldest_on_disk s') \<le> max_on_disk_limit s'"
proof -
  from assms have "0 < in_memory_limit s" by (simp add: states_ok_def)
  with evict_memory_ends obtain t where t: "evict_memory tmp order s = Some t" by blast
  from evict_memory_ok [OF t assms] purge_disk_ok [of t tmp] show ?thesis by (auto simp: enforce_limits_def t)
qed

lemma insert_state_ok:
  assumes "states_ok s"
  shows "\<exists>s'. insert_state tmp order h state s = Some s' \<and> states_ok s' \<and> hm_get (states s') h = Some state \<and>
    length (present s') \<le> in_memory_limit s' \<and> length (oldest_on_disk s') \<le> max_on_disk_limit s'"
proof -
  let ?s = "if \<not> is_memory_only s \<and> in_memory_limit s \<le> length (present s)
    then s\<lparr>in_memory_limit := max (in_memory_limit s - 1) (min_in_memory_limit s)\<rparr> else s"
  have "states_ok ?s" using assms by (auto simp: states_ok_def is_memory_only_def)
  from enforce_limits_ok [OF this, of tmp order] obtain t where
    t: "enforce_limits tmp order ?s = Some t" "states_ok t" "length (present t) < in_memory_limit t"
      "length (oldest_on_disk t) \<le> max_on_disk_limit t" by blast
  then have "states_ok (t\<lparr>states := hm_insert h state (states t), present := present t @ [h]\<rparr>)"
    by (auto simp: states_ok_def is_memory_only_def keys_insert simp del: set_map)
  with t show ?thesis by (simp add: insert_state_def cont_simps)
qed

text \<open>The calls on a state cache, and the writes that finish in between.\<close>

datatype 'c StatesCall =
    InsertState B256 "'c CacheDB" | GetState B256 | SetInterval u64 | SetLimit nat | ClearStates | WriteDone bool

definition states_step ::
    "tmp_dirs \<Rightarrow> 'c account_order \<Rightarrow> 'c info_order \<Rightarrow> 'c StatesCall \<Rightarrow> 'c InMemoryBlockStates \<Rightarrow>
     ('c CacheDB option \<times> 'c InMemoryBlockStates) option" where
  "states_step tmp order info_order c s =
     (case c of
        InsertState h state \<Rightarrow> map_option (Pair None) (insert_state tmp order h state s)
      | GetState h \<Rightarrow> Some (get_state tmp info_order h s)
      | SetInterval t \<Rightarrow> map_option (Pair None) (update_interval_mine_block_time tmp order t s)
      | SetLimit n \<Rightarrow> Some (None, set_cache_limit n s)
      | ClearStates \<Rightarrow> Some (None, clear_states tmp s)
      | WriteDone fails \<Rightarrow> Some (None, s\<lparr>disk_cache := run_write fails (disk_cache s)\<rparr>))"

definition states_call_ok :: "'c StatesCall \<Rightarrow> bool" where
  "states_call_ok c = (case c of SetLimit n \<Rightarrow> 0 < n | _ \<Rightarrow> True)"

lemma get_state_ok: "states_ok s \<Longrightarrow> states_ok (snd (get_state tmp order h s))"
  by (auto simp: get_state_def states_ok_def is_memory_only_def Let_def keys_insert
      split: option.splits prod.splits simp del: set_map dest!: map_of_SomeD)
    (metis fst_conv in_set_zipE list.set_map rev_image_eqI subsetD)

lemma states_step_ok:
  assumes "states_ok s" and "states_call_ok c"
  shows "\<exists>x s'. states_step tmp order info_order c s = Some (x, s') \<and> states_ok s'"
proof (cases c)
  case (InsertState h state)
  with insert_state_ok [OF assms(1), of tmp order h state] show ?thesis by (auto simp: states_step_def)
next
  case (GetState h)
  with get_state_ok [OF assms(1), of tmp info_order h] show ?thesis
    by (cases "get_state tmp info_order h s") (simp add: states_step_def)
next
  case (SetInterval t)
  have "states_ok (s\<lparr>in_memory_limit := DEFAULT_HISTORY_LIMIT * 3\<rparr>)"
    using assms(1) by (simp add: states_ok_def is_memory_only_def DEFAULT_HISTORY_LIMIT_def)
  from enforce_limits_ok [OF this, of tmp order] assms(1) SetInterval show ?thesis
    by (auto simp: states_step_def update_interval_mine_block_time_def)
qed (use assms in \<open>auto simp: states_step_def states_call_ok_def states_ok_def is_memory_only_def
    set_cache_limit_def clear_states_def\<close>)

interpretation state_cache: safe_machine "states_step tmp order info_order" states_ok states_call_ok
  for tmp order info_order
  by unfold_locales (rule states_step_ok)

lemma new_states_ok: "0 < limit \<Longrightarrow> states_ok (new_InMemoryBlockStates path limit on_disk)"
  by (simp add: states_ok_def new_InMemoryBlockStates_def is_memory_only_def MIN_HISTORY_LIMIT_def)

lemma keys_bound: "distinct (hm_keys m) \<Longrightarrow> set (hm_keys m) \<subseteq> set xs \<Longrightarrow> length m \<le> length xs"
  by (metis (no_types, lifting) card_length card_mono distinct_card finite_set le_trans length_map)

text \<open>C23. A state cache with a positive limit never hangs, whatever calls are made in whatever order with
  the writes to disk, and after every insertion it holds the new state and keeps within both limits.\<close>

theorem state_cache_bounded:
  assumes "0 < limit" and "list_all states_call_ok cs"
  shows "\<exists>xs s s'. run (states_step tmp order info_order) cs (new_InMemoryBlockStates path limit on_disk) = Some (xs, s) \<and>
    insert_state tmp order h state s = Some s' \<and> hm_get (states s') h = Some state \<and>
    length (states s') \<le> in_memory_limit s' \<and> length (on_disk_states s') \<le> max_on_disk_limit s'"
proof -
  from state_cache.run_safe [OF new_states_ok [OF assms(1)] assms(2)] obtain xs s where
    r: "run (states_step tmp order info_order) cs (new_InMemoryBlockStates path limit on_disk) = Some (xs, s)"
    and "states_ok s" by blast
  from insert_state_ok [OF this(2), of tmp order h state] obtain s' where
    s': "insert_state tmp order h state s = Some s'" "states_ok s'" "hm_get (states s') h = Some state"
      "length (present s') \<le> in_memory_limit s'" "length (oldest_on_disk s') \<le> max_on_disk_limit s'" by blast
  from s'(2) have "length (states s') \<le> length (present s')" "length (on_disk_states s') \<le> length (oldest_on_disk s')"
    by (auto simp: states_ok_def simp del: set_map intro!: keys_bound)
  with r s' show ?thesis by (intro exI conjI) auto
qed

definition can_create :: tmp_dirs where
  "can_create p = Some ''anvil-state''"

theorem state_cache_bounded_witness:
  "\<exists>xs s s'. run (states_step can_create insertion_order insertion_order)
      [InsertState 1 shared_code_db, InsertState 2 empty_db, InsertState 3 empty_db, SetLimit 1, WriteDone False, GetState 1]
      (new_InMemoryBlockStates None 2 5) = Some (xs, s) \<and>
    insert_state can_create insertion_order 4 empty_db s = Some s' \<and> hm_get (states s') 4 = Some empty_db \<and>
    length (states s') \<le> in_memory_limit s' \<and> length (on_disk_states s') \<le> max_on_disk_limit s'"
  by (rule state_cache_bounded) (simp_all add: states_call_ok_def)

section \<open>An evicted state can be read back\<close>

lemma run_writes_last:
  "spawned c = xs @ [(h, snap)] \<Longrightarrow>
   hm_get (files ((run_write False ^^ length (spawned c)) c)) h = Some snap \<and>
   temp_dir ((run_write False ^^ length (spawned c)) c) = temp_dir c"
proof (induction xs arbitrary: c)
  case Nil
  then show ?case by (simp add: run_write_def cont_simps)
next
  case (Cons x xs)
  obtain g sn where x: "x = (g, sn)" by (rule prod.exhaust)
  have sp: "spawned (run_write False c) = xs @ [(h, snap)]" and td: "temp_dir (run_write False c) = temp_dir c"
    using Cons.prems by (simp_all add: run_write_def x)
  have "(run_write False ^^ length (spawned c)) c = (run_write False ^^ length (spawned (run_write False c))) (run_write False c)"
    using Cons.prems sp by (simp add: funpow_swap1)
  with Cons.IH [OF sp] td show ?case by simp
qed


definition one_cached :: "nat InMemoryBlockStates" where
  "one_cached = (new_InMemoryBlockStates None 1 5)\<lparr>states := [(7, shared_code_db)], present := [7],
     disk_cache := (new_DiskStateCache None)\<lparr>temp_dir := Some ''anvil-state''\<rparr>\<rparr>"


end
