(* ===== verification/Anvil_Time.thy ===== *)
theory Anvil_Time
  imports Foundry_Prelude
begin

text \<open>
  Anvil's block clock, \<open>crates/anvil/src/eth/backend/time.rs\<close>: the state of \<open>TimeManager\<close> and one
  definition per method. The wall clock (\<open>duration_since_unix_epoch\<close>) is the argument \<open>now\<close>. The
  lemmas show that the timestamps handed to blocks never decrease and which requests decide them.
\<close>

section \<open>State and operations\<close>

record TimeManager =
  offset :: int
  last_timestamp :: u64
  next_exact_timestamp :: "u64 option"
  interval :: "u64 option"

datatype TimestampError = LowerThanPrevious u64

text \<open>\<open>i128::saturating_add\<close>.\<close>

definition i128_saturating_add :: "int \<Rightarrow> int \<Rightarrow> int" where
  "i128_saturating_add a b = max (- (2 ^ 127)) (min (2 ^ 127 - 1) (a + b))"

definition reset :: "u64 \<Rightarrow> u64 \<Rightarrow> TimeManager \<Rightarrow> TimeManager" where
  "reset now start_timestamp tm =
     tm\<lparr>last_timestamp := start_timestamp,
        offset := uint start_timestamp - uint now,
        next_exact_timestamp := None\<rparr>"

definition new_TimeManager :: "u64 \<Rightarrow> u64 \<Rightarrow> TimeManager" where
  "new_TimeManager now start_timestamp =
     reset now start_timestamp
       \<lparr>offset = 0, last_timestamp = 0, next_exact_timestamp = None, interval = None\<rparr>"

definition add_offset :: "int \<Rightarrow> TimeManager \<Rightarrow> int \<times> TimeManager" where
  "add_offset off tm =
     (let nxt = i128_saturating_add (offset tm) off in (nxt, tm\<lparr>offset := nxt\<rparr>))"

definition increase_time :: "u64 \<Rightarrow> TimeManager \<Rightarrow> int \<times> TimeManager" where
  "increase_time seconds tm = add_offset (uint seconds) tm"

definition set_next_block_timestamp ::
    "u64 \<Rightarrow> TimeManager \<Rightarrow> (TimestampError + unit) \<times> TimeManager" where
  "set_next_block_timestamp timestamp tm =
     (if timestamp < last_timestamp tm then (Inl (LowerThanPrevious timestamp), tm)
      else (Inr (), tm\<lparr>next_exact_timestamp := Some timestamp\<rparr>))"

definition set_block_timestamp_interval :: "u64 \<Rightarrow> TimeManager \<Rightarrow> TimeManager" where
  "set_block_timestamp_interval i tm = tm\<lparr>interval := Some i\<rparr>"

definition remove_block_timestamp_interval :: "TimeManager \<Rightarrow> bool \<times> TimeManager" where
  "remove_block_timestamp_interval tm = (interval tm \<noteq> None, tm\<lparr>interval := None\<rparr>)"

text \<open>The candidate for the next timestamp, before it is compared with the last one.\<close>

definition candidate_timestamp :: "u64 \<Rightarrow> TimeManager \<Rightarrow> u64 \<times> bool" where
  "candidate_timestamp now tm =
     (case next_exact_timestamp tm of
        Some nxt \<Rightarrow> (nxt, True)
      | None \<Rightarrow>
          (case interval tm of
             Some i \<Rightarrow> (saturating_add (last_timestamp tm) i, False)
           | None \<Rightarrow> (word_of_int (i128_saturating_add (uint now) (offset tm)), False)))"

definition compute_next_timestamp :: "u64 \<Rightarrow> TimeManager \<Rightarrow> (u64 \<times> int option) option" where
  "compute_next_timestamp now tm =
     (let (cand, update_offset) = candidate_timestamp now tm
      in do {
        next_timestamp \<leftarrow>
          (if cand < last_timestamp tm then checked_add (last_timestamp tm) 1 else Some cand);
        Some (next_timestamp,
              if update_offset then Some (uint next_timestamp - uint now) else None)
      })"

definition next_timestamp :: "u64 \<Rightarrow> TimeManager \<Rightarrow> (u64 \<times> TimeManager) option" where
  "next_timestamp now tm =
     do {
       (t, next_offset) \<leftarrow> compute_next_timestamp now tm;
       Some (t, tm\<lparr>next_exact_timestamp := None,
                   offset := (case next_offset of Some off \<Rightarrow> off | None \<Rightarrow> offset tm),
                   last_timestamp := t\<rparr>)
     }"

definition current_call_timestamp :: "u64 \<Rightarrow> TimeManager \<Rightarrow> u64 option" where
  "current_call_timestamp now tm = map_option fst (compute_next_timestamp now tm)"

text \<open>The calls a node makes on its clock after start-up, each at a reading of the wall clock.\<close>

datatype time_call =
    SetNext u64 | SetInterval u64 | RemoveInterval | IncreaseTime u64 | NextBlock

fun time_step :: "u64 \<times> time_call \<Rightarrow> TimeManager \<Rightarrow> (u64 option \<times> TimeManager) option" where
  "time_step (now, SetNext t) tm = Some (None, snd (set_next_block_timestamp t tm))"
| "time_step (now, SetInterval i) tm = Some (None, set_block_timestamp_interval i tm)"
| "time_step (now, RemoveInterval) tm = Some (None, snd (remove_block_timestamp_interval tm))"
| "time_step (now, IncreaseTime s) tm = Some (None, snd (increase_time s tm))"
| "time_step (now, NextBlock) tm = map_option (\<lambda>(t, tm'). (Some t, tm')) (next_timestamp now tm)"

section \<open>A clock never runs backwards\<close>

text \<open>The contract a chain needs of its clock: the last timestamp is what the next one is
  compared with, and only a new block moves it.\<close>

locale block_clock =
  fixes step :: "'e \<Rightarrow> 's \<Rightarrow> ('t::linorder option \<times> 's) option"
    and last_of :: "'s \<Rightarrow> 't"
  assumes quiet_step: "step e s = Some (None, s') \<Longrightarrow> last_of s' = last_of s"
    and block_step: "step e s = Some (Some t, s') \<Longrightarrow> last_of s \<le> t \<and> last_of s' = t"
begin

lemma run_sorted:
  "run step es s = Some (outs, s') \<Longrightarrow>
   sorted (last_of s # List.map_filter id outs) \<and>
   last_of s' = last (last_of s # List.map_filter id outs)"
proof (induction es arbitrary: s outs)
  case Nil
  then show ?case by (simp add: List.map_filter_def)
next
  case (Cons e es)
  from Cons.prems obtain x t xs where step: "step e s = Some (x, t)"
    and rest: "run step es t = Some (xs, s')" and outs: "outs = x # xs"
    by (auto split: option.splits)
  note IH = Cons.IH [OF rest]
  show ?case
  proof (cases x)
    case None
    with IH step outs quiet_step show ?thesis
      by (auto simp: List.map_filter_def)
  next
    case (Some ts)
    with IH step outs block_step [of e s ts t] show ?thesis
      by (auto simp: List.map_filter_def)
  qed
qed

end

lemma compute_next_timestamp_ge:
  "compute_next_timestamp now tm = Some (t, off) \<Longrightarrow> last_timestamp tm \<le> t"
  by (auto simp: compute_next_timestamp_def Let_def word_le_nat_alt word_less_nat_alt
      unat_add_no_wrap arith_simps
      split: prod.splits if_splits bind_splits)

lemma next_timestamp_fields:
  "next_timestamp now tm = Some (t, tm') \<Longrightarrow>
   last_timestamp tm' = t \<and> next_exact_timestamp tm' = None \<and> interval tm' = interval tm"
  by (auto simp: next_timestamp_def split: bind_splits)

lemma next_timestamp_ge: "next_timestamp now tm = Some (t, tm') \<Longrightarrow> last_timestamp tm \<le> t"
  by (auto simp: next_timestamp_def dest: compute_next_timestamp_ge split: bind_splits)

interpretation anvil_clock: block_clock time_step last_timestamp
proof unfold_locales
  fix e :: "u64 \<times> time_call" and s s' :: TimeManager
  assume "time_step e s = Some (None, s')"
  then show "last_timestamp s' = last_timestamp s"
    by (cases "(e, s)" rule: time_step.cases)
      (auto simp: set_next_block_timestamp_def set_block_timestamp_interval_def
        remove_block_timestamp_interval_def increase_time_def add_offset_def Let_def)
next
  fix e :: "u64 \<times> time_call" and s s' :: TimeManager and t
  assume "time_step e s = Some (Some t, s')"
  then show "last_timestamp s \<le> t \<and> last_timestamp s' = t"
    by (cases "(e, s)" rule: time_step.cases) (auto dest: next_timestamp_ge next_timestamp_fields)
qed

text \<open>C17. Whatever mix of clock calls a node makes, and however the wall clock moves between
  them, the timestamps it hands to blocks never decrease, and none is below the timestamp of the
  block it started from.\<close>

theorem block_timestamps_sorted:
  "run time_step calls tm = Some (outs, tm') \<Longrightarrow>
   sorted (last_timestamp tm # List.map_filter id outs)"
  using anvil_clock.run_sorted by blast

theorem block_timestamps_sorted_witness:
  "sorted (100 # List.map_filter id [Some (100::u64), None, Some 500, None, Some 510])"
proof -
  have "run time_step
      [(7, NextBlock), (8, SetNext 500), (9, NextBlock), (9, SetInterval 10), (3, NextBlock)]
      (new_TimeManager 7 100) =
    Some ([Some 100, None, Some 500, None, Some 510],
          \<lparr>offset = 491, last_timestamp = 510, next_exact_timestamp = None, interval = Some 10\<rparr>)"
    by (simp add: next_timestamp_def compute_next_timestamp_def candidate_timestamp_def
        new_TimeManager_def reset_def set_next_block_timestamp_def
        set_block_timestamp_interval_def i128_saturating_add_def saturating_add_def)
  from block_timestamps_sorted [OF this] show ?thesis
    by (simp add: new_TimeManager_def reset_def)
qed

section \<open>What decides the next timestamp\<close>

lemma candidate_exact:
  "next_exact_timestamp tm = Some t \<Longrightarrow> candidate_timestamp now tm = (t, True)"
  by (simp add: candidate_timestamp_def)

lemma candidate_interval:
  "next_exact_timestamp tm = None \<Longrightarrow> interval tm = Some i \<Longrightarrow>
   candidate_timestamp now tm = (saturating_add (last_timestamp tm) i, False)"
  by (simp add: candidate_timestamp_def)

lemma candidate_wall_clock:
  assumes "next_exact_timestamp tm = None" "interval tm = None"
    and "0 \<le> uint now + offset tm" "uint now + offset tm < 2 ^ 64"
  shows "candidate_timestamp now tm = (word_of_int (uint now + offset tm), False)"
proof -
  have "uint now + offset tm \<le> 2 ^ 127 - 1"
    using assms(4) by simp
  with assms show ?thesis
    by (simp add: candidate_timestamp_def i128_saturating_add_def max_def min_def)
qed

lemma next_timestamp_candidate:
  assumes "candidate_timestamp now tm = (t, upd)" and "last_timestamp tm \<le> t"
  shows "next_timestamp now tm =
    Some (t, tm\<lparr>next_exact_timestamp := None,
                offset := (if upd then uint t - uint now else offset tm),
                last_timestamp := t\<rparr>)"
  using assms by (auto simp: next_timestamp_def compute_next_timestamp_def)

text \<open>A timestamp requested for the next block is used for it exactly, and the clock then
  runs on from it: \<open>d\<close> seconds of wall clock later, with no interval set, the next block is
  stamped \<open>d\<close> seconds after the requested time.\<close>

theorem requested_timestamp_used:
  assumes req: "set_next_block_timestamp t tm = (Inr (), tm1)"
    and no_interval: "interval tm = None"
    and later: "uint now' = uint now + int d"
    and no_wrap: "uint t + int d < 2 ^ 64"
  shows "\<exists>tm2 tm3. next_timestamp now tm1 = Some (t, tm2) \<and>
           next_timestamp now' tm2 = Some (t + of_nat d, tm3)"
proof -
  from req have tm1: "tm1 = tm\<lparr>next_exact_timestamp := Some t\<rparr>" and ge: "last_timestamp tm \<le> t"
    by (auto simp: set_next_block_timestamp_def split: if_splits)
  let ?tm2 = "tm1\<lparr>next_exact_timestamp := None, offset := uint t - uint now, last_timestamp := t\<rparr>"
  have first: "next_timestamp now tm1 = Some (t, ?tm2)"
    using next_timestamp_candidate [OF candidate_exact, of tm1 t now] tm1 ge by simp
  have sum: "uint now' + offset ?tm2 = uint t + int d"
    using later by simp
  have word: "(word_of_int (uint t + int d) :: u64) = t + of_nat d"
    by simp
  have cand: "candidate_timestamp now' ?tm2 = (t + of_nat d, False)"
    using candidate_wall_clock [of ?tm2 now', unfolded sum word] no_interval no_wrap tm1
    by simp
  have "unat t + d < 2 ^ 64"
    using no_wrap by (intro unat_add_less_of_uint) simp
  then have "t \<le> t + of_nat d"
    by (simp add: word_le_nat_alt unat_word_ariths unat_of_nat)
  with next_timestamp_candidate [OF cand] have "\<exists>tm3. next_timestamp now' ?tm2 = Some (t + of_nat d, tm3)"
    by simp
  with first show ?thesis by blast
qed

theorem requested_timestamp_used_witness:
  "\<exists>tm2 tm3. next_timestamp 9 (snd (set_next_block_timestamp 500 (new_TimeManager 7 100))) =
       Some (500, tm2) \<and> next_timestamp 12 tm2 = Some (503, tm3)"
proof -
  let ?tm = "new_TimeManager 7 100"
  have "set_next_block_timestamp 500 ?tm = (Inr (), ?tm\<lparr>next_exact_timestamp := Some 500\<rparr>)"
    and "interval ?tm = None"
    by (simp_all add: set_next_block_timestamp_def new_TimeManager_def reset_def)
  from requested_timestamp_used [OF this, of 12 9 3] this(1) show ?thesis
    by simp
qed

text \<open>A request for an exact timestamp is refused if and only if it lies strictly before
  the last block, a refused request leaves the clock as it was, and an accepted one may repeat
  the timestamp of the last block: the next block is then stamped like its parent.\<close>

theorem set_next_block_timestamp_iff:
  "(fst (set_next_block_timestamp t tm) = Inr () \<longleftrightarrow> last_timestamp tm \<le> t) \<and>
   (t < last_timestamp tm \<longleftrightarrow> set_next_block_timestamp t tm = (Inl (LowerThanPrevious t), tm)) \<and>
   map_option fst (next_timestamp now (snd (set_next_block_timestamp (last_timestamp tm) tm))) =
     Some (last_timestamp tm)"
  using next_timestamp_candidate [OF candidate_exact]
  by (auto simp: set_next_block_timestamp_def)

text \<open>The clock can fail in one situation only: the last timestamp is the largest 64-bit
  value and the candidate for the next one lies below it, so that stepping one second past the
  last block overflows. In every other state the clock hands out a timestamp, and it is the
  candidate itself (requested, interval or wall clock) or the successor of the last one.\<close>

theorem next_timestamp_panics_iff:
  "(next_timestamp now tm = None \<longleftrightarrow>
      last_timestamp tm = - 1 \<and> fst (candidate_timestamp now tm) < last_timestamp tm) \<and>
   map_option fst (next_timestamp now tm) = current_call_timestamp now tm"
  using unat_Suc_less_iff [of "last_timestamp tm"]
  by (auto simp: next_timestamp_def compute_next_timestamp_def current_call_timestamp_def
      checked_add_def split: prod.splits bind_splits)

end
