(* ===== verification/Anvil_Backend.thy ===== *)
theory Anvil_Backend
  imports Anvil_Exec Anvil_States Anvil_Time
begin

text \<open>
  The backend of a node that is not a fork, \<open>crates/anvil/src/eth/backend/mem/mod.rs\<close>: mining a block
  (\<open>do_mine_block\<close>), snapshots (\<open>create_state_snapshot\<close>, \<open>revert_state_snapshot\<close>), \<open>rollback\<close> and
  \<open>reorg\<close>, and the lookup of blocks by number and tag. It composes the other components: the executor, the
  stored chain, the database, the historical states, the fees and the clock.

  What is not under the sources is collected in \<open>node_params\<close>; the wall clock and the random number of a
  block are arguments of each call. The lemmas show what a mined block stores and which changes keep
  the chain of a backend linked.
\<close>

section \<open>State\<close>

record ('c, 'n, 'd, 'r, 'b, 'e) node_params =
  np_crypto :: tx_crypto
  np_hashing :: chain_hashing
  np_ids :: spec_ids
  np_evm :: "('c MemDb, 'c, 'n, 'd, 'r) evm_ops"
  np_cache :: "('c, 'e) cache_ops"
  np_fees :: fee_calc
  np_tmp :: tmp_dirs
  np_order :: "'c account_order"
  np_info_order :: "'c info_order"
  np_blobs :: "TxEip4844Variant \<Rightarrow> 'b option"
  np_arbitrum :: "u64 \<Rightarrow> bool"
  np_default_blob :: "BlobExcessGasAndPrice option"
  np_storage_order :: "(U256 \<times> U256) list \<Rightarrow> (U256 \<times> U256) list"
  np_from_timestamp :: "u64 \<Rightarrow> bool"

text \<open>A listener is open or closed and has received notifications.\<close>

type_synonym listener = "bool \<times> (B256 \<times> Header) list"

record ('c, 'n, 'f) Backend =
  bk_db :: "'c MemDb"
  bk_storage :: "'n BlockchainStorage"
  bk_states :: "'c InMemoryBlockStates"
  bk_env :: EnvWithHandlerCfg
  bk_fees :: "'f FeeManager"
  bk_time :: TimeManager
  active_state_snapshots :: "(U256, u64 \<times> B256) hmap"
  new_block_listeners :: "listener list"
  transaction_block_keeper :: "nat option"
  prune_state_history_config :: PruneStateHistoryConfig
  slots_in_an_epoch :: u64

datatype 'e BlockchainError = BlockNotFound | DataUnavailable | DatabaseErr 'e | BlockOutOfRange u64 u64

definition is_eip3675 :: "spec_ids \<Rightarrow> EnvWithHandlerCfg \<Rightarrow> bool" where
  "is_eip3675 ids env = (MERGE ids \<le> env_spec_id env)"

section \<open>Genesis\<close>

text \<open>\<open>genesis_init\<close> is the list of allocations of a \<open>genesis.json\<close>, sorted by address.\<close>

record GenesisAccount =
  ga_nonce :: "u64 option"
  ga_balance :: U256
  ga_code :: "Bytes option"
  ga_storage :: "(B256 \<times> B256) list option"

record GenesisConfig =
  genesis_timestamp :: u64
  genesis_balance :: U256
  genesis_accounts :: "Address list"
  genesis_init :: "(Address \<times> GenesisAccount) list option"

definition account_infos :: "('c, 'e) cache_ops \<Rightarrow> GenesisConfig \<Rightarrow> (Address \<times> 'c AccountInfo) list" where
  "account_infos ops gc =
     map (\<lambda>a. (a, \<lparr>ai_balance = genesis_balance gc, ai_nonce = 0, code_hash = KECCAK_EMPTY ops,
                    ai_code = Some (default_code ops)\<rparr>)) (genesis_accounts gc)"

definition genesis_to_account_info :: "('c, 'e) cache_ops \<Rightarrow> GenesisAccount \<Rightarrow> 'c AccountInfo" where
  "genesis_to_account_info ops acc =
     (let code = map_option (new_raw ops) (ga_code acc)
      in \<lparr>ai_balance = ga_balance acc, ai_nonce = (case ga_nonce acc of Some n \<Rightarrow> n | None \<Rightarrow> 0),
          code_hash = (case code of Some c \<Rightarrow> code_hash_slow ops c | None \<Rightarrow> KECCAK_EMPTY ops), ai_code = code\<rparr>)"

fun apply_alloc ::
    "('c, 'e) cache_ops \<Rightarrow> (Address \<times> GenesisAccount) list \<Rightarrow> 'c MemDb \<Rightarrow> ('e + unit) \<times> 'c MemDb" where
  "apply_alloc ops [] db = (Inr (), db)"
| "apply_alloc ops ((a, acc) # rest) db =
     (case load_storage ops a (case ga_storage acc of Some st \<Rightarrow> st | None \<Rightarrow> [])
             (db_insert_account ops a (genesis_to_account_info ops acc) db) of
        (Inl e, db1) \<Rightarrow> (Inl e, db1)
      | (Inr _, db1) \<Rightarrow> apply_alloc ops rest db1)"

definition apply_genesis_json_alloc ::
    "('c, 'e) cache_ops \<Rightarrow> GenesisConfig \<Rightarrow> 'c MemDb \<Rightarrow> ('e + unit) \<times> 'c MemDb" where
  "apply_genesis_json_alloc ops gc db =
     (case genesis_init gc of Some alloc \<Rightarrow> apply_alloc ops alloc db | None \<Rightarrow> (Inr (), db))"

definition apply_genesis ::
    "('c, 'e) cache_ops \<Rightarrow> GenesisConfig \<Rightarrow> 'n BlockchainStorage \<Rightarrow> 'c MemDb \<Rightarrow> ('e + unit) \<times> 'c MemDb" where
  "apply_genesis ops gc s db =
     apply_genesis_json_alloc ops gc
       (db_insert_block_hash (ucast (best_number s)) (best_hash s)
         (foldl (\<lambda>d (a, info). db_insert_account ops a info d) db (account_infos ops gc)))"

text \<open>\<open>with_genesis\<close> without a fork and without the odyssey features, whose accounts are constants.\<close>

definition with_genesis ::
    "('c, 'n, 'd, 'r, 'b, 'e) node_params \<Rightarrow> u64 \<Rightarrow> 'c MemDb \<Rightarrow> EnvWithHandlerCfg \<Rightarrow> GenesisConfig \<Rightarrow> 'f FeeManager \<Rightarrow>
     PruneStateHistoryConfig \<Rightarrow> nat option \<Rightarrow> nat option \<Rightarrow> u64 option \<Rightarrow> string option \<Rightarrow> string option \<Rightarrow> u64 \<Rightarrow>
     ('e + ('c, 'n, 'f) Backend) option" where
  "with_genesis np now db env gc fees prune max_persisted keeper automine tmp_root cache_path slots =
     do {
       s \<leftarrow> new_BlockchainStorage (np_hashing np) (np_ids np) (env_block env) (env_spec_id env)
         (if fees_is_eip1559 (np_ids np) fees then Some (base_fee (np_ids np) fees) else None) (genesis_timestamp gc);
       states' \<leftarrow> (case automine of
           Some block_time \<Rightarrow> update_interval_mine_block_time (np_tmp np) (np_order np) block_time
             (backend_states tmp_root prune max_persisted cache_path)
         | None \<Rightarrow> Some (backend_states tmp_root prune max_persisted cache_path));
       let (r, db') = apply_genesis (np_cache np) gc s db;
       case r of
         Inl e \<Rightarrow> Some (Inl e)
       | Inr _ \<Rightarrow>
           Some (Inr \<lparr>bk_db = db', bk_storage = s, bk_states = states', bk_env = env, bk_fees = fees,
             bk_time = new_TimeManager now (genesis_timestamp gc), active_state_snapshots = [],
             new_block_listeners = [], transaction_block_keeper = keeper, prune_state_history_config = prune,
             slots_in_an_epoch = slots\<rparr>)
     }"

section \<open>Mining a block\<close>

definition notify_on_new_block :: "Header \<Rightarrow> B256 \<Rightarrow> listener list \<Rightarrow> listener list" where
  "notify_on_new_block h hash ls = map (\<lambda>(open, q). (open, q @ [(hash, h)])) (filter fst ls)"

text \<open>The date of a timestamp is only printed, but a timestamp outside the calendar panics.\<close>

definition utc_from_secs :: "('c, 'n, 'd, 'r, 'b, 'e) node_params \<Rightarrow> u64 \<Rightarrow> unit option" where
  "utc_from_secs np secs = (if np_from_timestamp np secs then Some () else None)"

text \<open>The environment of the block to be mined, before its timestamp is known.\<close>

definition mining_env ::
    "('c, 'n, 'd, 'r, 'b, 'e) node_params \<Rightarrow> B256 \<Rightarrow> ('c, 'n, 'f) Backend \<Rightarrow> EnvWithHandlerCfg" where
  "mining_env np rnd b =
     (let env = bk_env b; block = env_block env;
          cfg = (if be_basefee block = 0 then (env_cfg env)\<lparr>disable_base_fee := True\<rparr> else env_cfg env);
          block_number = saturating_add (best_number (bk_storage b)) 1
      in env\<lparr>env_cfg := cfg, env_block := block
           \<lparr>be_number := (if np_arbitrum np (cfg_chain_id cfg) then ucast block_number
                          else saturating_add (be_number block) 1),
            be_basefee := ucast (base_fee (np_ids np) (bk_fees b)),
            be_blob_excess := excess_blob_gas_and_price (np_ids np) (bk_fees b),
            be_prevrandao := Some rnd\<rparr>\<rparr>)"

text \<open>The fees of the next block. The excess blob gas is computed from the two blob numbers of the
  header, in the order the code passes them.\<close>

definition update_fees :: "spec_ids \<Rightarrow> fee_calc \<Rightarrow> Header \<Rightarrow> 'f FeeManager \<Rightarrow> 'f FeeManager" where
  "update_fees ids fc h fm =
     (let fee = get_next_block_base_fee_per_gas fc ids (ucast (gas_used h)) (ucast (gas_limit h))
                  (case base_fee_per_gas h of Some f \<Rightarrow> f | None \<Rightarrow> 0) fm;
          excess = get_next_block_blob_excess_gas fc
                  (case h_excess_blob_gas h of Some g \<Rightarrow> ucast g | None \<Rightarrow> 0)
                  (case h_blob_gas_used h of Some g \<Rightarrow> ucast g | None \<Rightarrow> 0)
      in set_blob_excess_gas_and_price \<lparr>excess_blob_gas = excess, blob_gasprice = calc_blob_gasprice fc excess\<rparr>
           (set_base_fee fee fm))"

definition do_mine_block ::
    "('c, 'n, 'd, 'r, 'b, 'e) node_params \<Rightarrow> B256 \<Rightarrow> u64 \<Rightarrow> PoolTransaction list \<Rightarrow> ('c, 'n, 'f) Backend \<Rightarrow>
     (MinedBlockOutcome \<times> ('c, 'n, 'f) Backend) option" where
  "do_mine_block np rnd now pending b =
     do {
       let env0 = mining_env np rnd b;
       let block_number = saturating_add (best_number (bk_storage b)) 1;
       let parent = best_hash (bk_storage b);
       states' \<leftarrow> (if is_state_history_supported (prune_state_history_config b)
         then insert_state (np_tmp np) (np_order np) parent (inner (bk_db b)) (bk_states b)
         else Some (bk_states b));
       (t, time') \<leftarrow> next_timestamp now (bk_time b);
       let env = env0\<lparr>env_block := (env_block env0)\<lparr>be_timestamp := ucast t\<rparr>\<rparr>;
       (et, db) \<leftarrow> execute (np_crypto np) (np_hashing np) (np_ids np) (np_evm np)
         (validate_pool_transaction_for (np_ids np) (cfg_chain_id (env_cfg (bk_env b))) (np_blobs np))
         env parent pending \<lparr>ex_db = bk_db b, ex_gas_used = 0, ex_blob_gas_used = 0\<rparr>;
       let bi = executed_block et;
       let h = header (bi_block bi);
       let block_hash = hash_slow (np_hashing np) h;
       _ \<leftarrow> utc_from_secs np (timestamp h);
       Some (\<lparr>mined_block_number = block_number, mined_included = included et, mined_invalid = invalid et\<rparr>,
         b\<lparr>bk_states := states', bk_time := time',
           bk_db := db_insert_block_hash (ucast (number h)) block_hash db,
           bk_storage := store_block (np_crypto np) (is_eip3675 (np_ids np) (bk_env b)) (transaction_block_keeper b)
             block_number block_hash bi (bk_storage b),
           bk_env := env\<lparr>env_block := (env_block env)\<lparr>be_difficulty := 0\<rparr>\<rparr>,
           bk_fees := update_fees (np_ids np) (np_fees np) h (bk_fees b),
           new_block_listeners := notify_on_new_block h block_hash (new_block_listeners b)\<rparr>)
     }"

section \<open>Snapshots\<close>

definition create_state_snapshot :: "('c, 'n, 'f) Backend \<Rightarrow> U256 \<times> ('c, 'n, 'f) Backend" where
  "create_state_snapshot b =
     (let (i, db) = snapshot_state (bk_db b)
      in (i, b\<lparr>bk_db := db,
               active_state_snapshots :=
                 hm_insert i (best_number (bk_storage b), best_hash (bk_storage b)) (active_state_snapshots b)\<rparr>))"

text \<open>When the block of the snapshot is not stored, the storage has been reverted already.\<close>

definition revert_state_snapshot ::
    "('c, 'n, 'd, 'r, 'b, 'e) node_params \<Rightarrow> u64 \<Rightarrow> U256 \<Rightarrow> ('c, 'n, 'f) Backend \<Rightarrow>
     (('e BlockchainError + bool) \<times> ('c, 'n, 'f) Backend) option" where
  "revert_state_snapshot np now i b =
     (case hm_get (active_state_snapshots b) i of
        None \<Rightarrow>
          (let (r, db) = revert_state i RevertRemove (bk_db b) in Some (Inr r, b\<lparr>bk_db := db\<rparr>))
      | Some (num, hash) \<Rightarrow>
          do {
            storage \<leftarrow> revert_blocks (np_crypto np) num hash (bk_storage b);
            let b1 = b\<lparr>active_state_snapshots := hm_remove i (active_state_snapshots b), bk_storage := storage\<rparr>;
            case get_block_by_hash storage hash of
              None \<Rightarrow> Some (Inl BlockNotFound, b1)
            | Some block \<Rightarrow>
                (let h = header block; old = env_block (bk_env b);
                     new = \<lparr>be_number = ucast num, be_coinbase = be_coinbase old, be_timestamp = ucast (timestamp h),
                       be_gas_limit = ucast (gas_limit h), be_basefee = be_basefee old, be_difficulty = difficulty h,
                       be_prevrandao = Some (mix_hash h), be_blob_excess = np_default_blob np\<rparr>;
                     (r, db) = revert_state i RevertRemove (bk_db b1)
                 in Some (Inr r, b1\<lparr>bk_time := reset now (timestamp h) (bk_time b1),
                      bk_env := (bk_env b1)\<lparr>env_block := new\<rparr>, bk_db := db\<rparr>))
          })"

section \<open>Rollback and reorganisation\<close>

fun restore_accounts ::
    "('c, 'n, 'd, 'r, 'b, 'e) node_params \<Rightarrow> (Address \<times> 'c DbAccount) list \<Rightarrow> 'c MemDb \<Rightarrow>
     ('e + unit) \<times> 'c MemDb" where
  "restore_accounts np [] db = (Inr (), db)"
| "restore_accounts np ((a, acc) # rest) db =
     (case load_storage (np_cache np) a (np_storage_order np (acc_storage acc)) db of
        (Inl e, db1) \<Rightarrow> (Inl e, db1)
      | (Inr _, db1) \<Rightarrow> restore_accounts np rest (db_insert_account (np_cache np) a (acc_info acc) db1))"

definition rollback ::
    "('c, 'n, 'd, 'r, 'b, 'e) node_params \<Rightarrow> u64 \<Rightarrow> Block \<Rightarrow> ('c, 'n, 'f) Backend \<Rightarrow>
     (('e BlockchainError + unit) \<times> ('c, 'n, 'f) Backend) option" where
  "rollback np now common b =
     (let h = header common; hash = hash_slow (np_hashing np) h;
          (found, states') = get_state (np_tmp np) (np_info_order np) hash (bk_states b);
          b1 = b\<lparr>bk_states := states'\<rparr>
      in case found of
           None \<Rightarrow> Some (Inl DataUnavailable, b1)
         | Some state \<Rightarrow>
             (let cleared = (bk_db b1)\<lparr>inner := clear_db (np_order np) (inner (bk_db b1))\<rparr>;
                  (r, db) = restore_accounts np (np_order np (accounts state)) cleared;
                  b2 = b1\<lparr>bk_db := db\<rparr>
              in case r of
                   Inl e \<Rightarrow> Some (Inl (DatabaseErr e), b2)
                 | Inr _ \<Rightarrow>
                     do {
                       storage \<leftarrow> unwind_to (np_crypto np) (number h) hash (bk_storage b2);
                       let env = (bk_env b2)\<lparr>env_block := (env_block (bk_env b2))
                         \<lparr>be_number := ucast (number h), be_timestamp := ucast (timestamp h),
                          be_gas_limit := ucast (gas_limit h), be_difficulty := difficulty h,
                          be_prevrandao := Some (mix_hash h)\<rparr>\<rparr>;
                       Some (Inr (), b2\<lparr>bk_storage := storage, bk_env := env,
                         bk_time := reset now (timestamp h) (bk_time b2)\<rparr>)
                     }))"

text \<open>The transactions of the new blocks are given by their position; each block has its own random
  number and reading of the clock.\<close>

fun mine_each ::
    "('c, 'n, 'd, 'r, 'b, 'e) node_params \<Rightarrow> (u64 \<Rightarrow> PoolTransaction list) \<Rightarrow> u64 \<Rightarrow> (B256 \<times> u64) list \<Rightarrow>
     ('c, 'n, 'f) Backend \<Rightarrow> ('c, 'n, 'f) Backend option" where
  "mine_each np txs i [] b = Some b"
| "mine_each np txs i ((rnd, now) # rest) b =
     do {
       (_, b1) \<leftarrow> do_mine_block np rnd now (txs i) b;
       mine_each np txs (i + 1) rest b1
     }"

definition reorg ::
    "('c, 'n, 'd, 'r, 'b, 'e) node_params \<Rightarrow> u64 \<Rightarrow> (B256 \<times> u64) list \<Rightarrow> (u64, PoolTransaction list) hmap \<Rightarrow> Block \<Rightarrow>
     ('c, 'n, 'f) Backend \<Rightarrow> (('e BlockchainError + unit) \<times> ('c, 'n, 'f) Backend) option" where
  "reorg np now steps tx_pairs common b =
     do {
       (r, b1) \<leftarrow> rollback np now common b;
       case r of
         Inl e \<Rightarrow> Some (Inl e, b1)
       | Inr _ \<Rightarrow>
           do {
             b2 \<leftarrow> mine_each np (\<lambda>i. case hm_get tx_pairs i of Some txs \<Rightarrow> txs | None \<Rightarrow> []) 0 steps b1;
             Some (Inr (), b2)
           }
     }"

section \<open>Blocks by number\<close>

definition get_block :: "('c, 'n, 'f) Backend \<Rightarrow> BlockId \<Rightarrow> Block option" where
  "get_block b bid =
     do {
       let s = bk_storage b;
       let slots = slots_in_an_epoch b;
       hash \<leftarrow>
         (case bid of
            HashId h \<Rightarrow> Some h
          | NumberId num \<Rightarrow>
              (case num of
                 Latest \<Rightarrow> Some (best_hash s)
               | Earliest \<Rightarrow> Some (genesis_hash s)
               | Pending \<Rightarrow> None
               | Number n \<Rightarrow> hm_get (hashes s) n
               | Safe \<Rightarrow>
                   (if slots < best_number s then hm_get (hashes s) (best_number s - slots) else Some (genesis_hash s))
               | Finalized \<Rightarrow>
                   (if slots * 2 < best_number s then hm_get (hashes s) (best_number s - slots * 2)
                    else Some (genesis_hash s))));
       get_block_by_hash s hash
     }"

definition convert_block_number :: "('c, 'n, 'f) Backend \<Rightarrow> BlockNumber option \<Rightarrow> u64 option" where
  "convert_block_number b block =
     (let current = best_number (bk_storage b)
      in case (case block of Some n \<Rightarrow> n | None \<Rightarrow> Latest) of
           Latest \<Rightarrow> Some current
         | Pending \<Rightarrow> Some current
         | Earliest \<Rightarrow> Some 0
         | Number num \<Rightarrow> Some num
         | Safe \<Rightarrow> Some (saturating_sub current (slots_in_an_epoch b))
         | Finalized \<Rightarrow> map_option (saturating_sub current) (checked_mul (slots_in_an_epoch b) 2))"

definition ensure_block_number ::
    "('c, 'n, 'f) Backend \<Rightarrow> BlockId option \<Rightarrow> ('e BlockchainError + u64) option" where
  "ensure_block_number b block_id =
     do {
       let current = best_number (bk_storage b);
       requested \<leftarrow>
         (case (case block_id of Some i \<Rightarrow> i | None \<Rightarrow> NumberId Latest) of
            HashId h \<Rightarrow>
              (case get_block_by_hash (bk_storage b) h of
                 None \<Rightarrow> Some (Inl BlockNotFound)
               | Some block \<Rightarrow> Some (Inr (number (header block))))
          | NumberId num \<Rightarrow> map_option Inr (convert_block_number b (Some num)));
       case requested of
         Inl e \<Rightarrow> Some (Inl e)
       | Inr n \<Rightarrow> Some (if current < n then Inl (BlockOutOfRange current n) else Inr n)
     }"

section \<open>What mining stores\<close>

lemma do_mine_block_parts:
  assumes "do_mine_block np rnd now pending b = Some (out, b')"
  obtains t et db where
    "next_timestamp now (bk_time b) = Some (t, bk_time b')"
    "execute (np_crypto np) (np_hashing np) (np_ids np) (np_evm np)
       (validate_pool_transaction_for (np_ids np) (cfg_chain_id (env_cfg (bk_env b))) (np_blobs np))
       ((mining_env np rnd b)\<lparr>env_block := (env_block (mining_env np rnd b))\<lparr>be_timestamp := ucast t\<rparr>\<rparr>)
       (best_hash (bk_storage b)) pending \<lparr>ex_db = bk_db b, ex_gas_used = 0, ex_blob_gas_used = 0\<rparr> = Some (et, db)"
    "out = \<lparr>mined_block_number = saturating_add (best_number (bk_storage b)) 1, mined_included = included et,
       mined_invalid = invalid et\<rparr>"
    "bk_storage b' = store_block (np_crypto np) (is_eip3675 (np_ids np) (bk_env b)) (transaction_block_keeper b)
       (saturating_add (best_number (bk_storage b)) 1) (hash_slow (np_hashing np) (header (bi_block (executed_block et))))
       (executed_block et) (bk_storage b)"
    "bk_db b' = db_insert_block_hash (ucast (number (header (bi_block (executed_block et)))))
       (hash_slow (np_hashing np) (header (bi_block (executed_block et)))) db"
    "be_number (env_block (bk_env b')) = be_number (env_block (mining_env np rnd b))"
    "active_state_snapshots b' = active_state_snapshots b"
    "transaction_block_keeper b' = transaction_block_keeper b"
    "bk_fees b' = update_fees (np_ids np) (np_fees np) (header (bi_block (executed_block et))) (bk_fees b)"
    "new_block_listeners b' = notify_on_new_block (header (bi_block (executed_block et)))
       (hash_slow (np_hashing np) (header (bi_block (executed_block et)))) (new_block_listeners b)"
  using assms unfolding do_mine_block_def Let_def
  by (auto split: bind_splits prod.splits)

lemma to_u64_ucast [simp]: "to_u64 (ucast (w :: u64)) = Some w"
proof -
  have "unat (ucast w :: U256) = unat w" by (rule unat_ucast_up) simp
  moreover have "unat w < 2 ^ 64" by (rule order.strict_trans2 [OF unsigned_less]) simp
  ultimately have "to_u64 (ucast w) \<noteq> None" by (auto simp: to_u64_def word_less_nat_alt)
  then obtain v where v: "to_u64 (ucast w) = Some v" by blast
  from unat_to_u64 [OF this] \<open>unat (ucast w :: U256) = unat w\<close> have "v = w" by (simp add: word_unat_eq_iff)
  with v show ?thesis by simp
qed

text \<open>The new block continues the chain and carries the time of the clock. Its number is the next one
  when the number of the environment is that of the best block, as it always is.\<close>

lemma mined_header:
  assumes "do_mine_block np rnd now pending b = Some (out, b')"
    and env: "be_number (env_block (bk_env b)) = ucast (best_number (bk_storage b))"
    and room: "np_arbitrum np (cfg_chain_id (env_cfg (bk_env b))) \<longrightarrow> best_number (bk_storage b) \<noteq> - 1"
  obtains bi e keeper where
    "bk_storage b' = store_block (np_crypto np) e keeper (best_number (bk_storage b) + 1)
       (hash_slow (np_hashing np) (header (bi_block bi))) bi (bk_storage b)"
    "parent_hash (header (bi_block bi)) = best_hash (bk_storage b)"
    "number (header (bi_block bi)) = best_number (bk_storage b) + 1"
    "timestamp (header (bi_block bi)) = last_timestamp (bk_time b')"
    "last_timestamp (bk_time b) \<le> last_timestamp (bk_time b')"
    "be_number (env_block (bk_env b')) = ucast (best_number (bk_storage b) + 1)"
    "best_number (bk_storage b) \<noteq> - 1"
proof -
  let ?n = "best_number (bk_storage b)"
  obtain t et db where t: "next_timestamp now (bk_time b) = Some (t, bk_time b')"
    and ex: "execute (np_crypto np) (np_hashing np) (np_ids np) (np_evm np)
       (validate_pool_transaction_for (np_ids np) (cfg_chain_id (env_cfg (bk_env b))) (np_blobs np))
       ((mining_env np rnd b)\<lparr>env_block := (env_block (mining_env np rnd b))\<lparr>be_timestamp := ucast t\<rparr>\<rparr>)
       (best_hash (bk_storage b)) pending \<lparr>ex_db = bk_db b, ex_gas_used = 0, ex_blob_gas_used = 0\<rparr> = Some (et, db)"
    and st: "bk_storage b' = store_block (np_crypto np) (is_eip3675 (np_ids np) (bk_env b)) (transaction_block_keeper b)
       (saturating_add ?n 1) (hash_slow (np_hashing np) (header (bi_block (executed_block et)))) (executed_block et) (bk_storage b)"
    and num: "be_number (env_block (bk_env b')) = be_number (env_block (mining_env np rnd b))"
    using assms(1) by (rule do_mine_block_parts)
  obtain h: "parent_hash (header (bi_block (executed_block et))) = best_hash (bk_storage b)"
      "to_u64 (be_number (env_block (mining_env np rnd b))) = Some (number (header (bi_block (executed_block et))))"
      "timestamp (header (bi_block (executed_block et))) = t"
    by (rule execute_parts [OF ex]) simp
  have up: "unat (ucast ?n :: U256) = unat ?n" by (rule unat_ucast_up) simp
  have small: "unat ?n < 2 ^ 64" by (rule order.strict_trans2 [OF unsigned_less]) simp
  have sat: "unat (saturating_add (ucast ?n :: U256) 1) = unat ?n + 1"
    using small by (simp add: unat_saturating_add up)
  have ne: "?n \<noteq> - 1"
  proof (cases "np_arbitrum np (cfg_chain_id (env_cfg (bk_env b)))")
    case False
    then have "be_number (env_block (mining_env np rnd b)) = saturating_add (ucast ?n) 1"
      by (simp add: mining_env_def Let_def env)
    with h(2) have "unat (number (header (bi_block (executed_block et)))) = unat ?n + 1"
      using unat_to_u64 sat by metis
    moreover have "unat (number (header (bi_block (executed_block et)))) < 2 ^ LENGTH(64)" by (rule unsigned_less)
    ultimately have "unat ?n + 1 < 2 ^ LENGTH(64)" by simp
    then show ?thesis unfolding unat_Suc_less_iff .
  qed (use room in simp)
  then have s1: "saturating_add ?n 1 = ?n + 1" using unat_Suc_less_iff [of ?n] by (simp add: saturating_add_def)
  have next_n: "unat (?n + 1) = unat ?n + 1" using ne unat_Suc_less_iff [of ?n] by (simp add: unat_add_no_wrap)
  have "unat (ucast (?n + 1) :: U256) = unat (?n + 1)" by (rule unat_ucast_up) simp
  with sat next_n have "saturating_add (ucast ?n :: U256) 1 = ucast (?n + 1)" by (simp add: word_unat_eq_iff)
  then have m: "be_number (env_block (mining_env np rnd b)) = ucast (?n + 1)"
    by (simp add: mining_env_def Let_def env s1)
  with h(2) have "number (header (bi_block (executed_block et))) = ?n + 1" by simp
  moreover have "timestamp (header (bi_block (executed_block et))) = last_timestamp (bk_time b')"
    using next_timestamp_fields [OF t] h(3) by simp
  moreover have "last_timestamp (bk_time b) \<le> last_timestamp (bk_time b')"
    using next_timestamp_ge [OF t] next_timestamp_fields [OF t] by simp
  ultimately show ?thesis using that st [unfolded s1] h(1) num m ne by simp
qed

section \<open>The chain of a backend\<close>

text \<open>Every indexed block is stored, has its number in its header and is not older than the one before.\<close>

definition chain_stored :: "'n BlockchainStorage \<Rightarrow> bool" where
  "chain_stored s \<longleftrightarrow> (\<forall>n h. hm_get (hashes s) n = Some h \<longrightarrow> (\<exists>d. header_at s h = Some d \<and> number d = n))"

definition times_ordered :: "'n BlockchainStorage \<Rightarrow> bool" where
  "times_ordered s \<longleftrightarrow>
     (\<forall>n h h' d d'. n < best_number s \<longrightarrow> hm_get (hashes s) n = Some h \<longrightarrow> hm_get (hashes s) (n + 1) = Some h' \<longrightarrow>
        header_at s h = Some d \<longrightarrow> header_at s h' = Some d' \<longrightarrow> timestamp d \<le> timestamp d')"

definition storage_ok :: "chain_hashing \<Rightarrow> 'n BlockchainStorage \<Rightarrow> bool" where
  "storage_ok hs s \<longleftrightarrow>
     chain_ok hs 0 s \<and> chain_stored s \<and> times_ordered s \<and> hm_get (hashes s) 0 = Some (genesis_hash s)"

definition backend_ok :: "('c, 'n, 'd, 'r, 'b, 'e) node_params \<Rightarrow> ('c, 'n, 'f) Backend \<Rightarrow> bool" where
  "backend_ok np b \<longleftrightarrow>
     storage_ok (np_hashing np) (bk_storage b) \<and>
     be_number (env_block (bk_env b)) = ucast (best_number (bk_storage b)) \<and>
     map_option timestamp (header_at (bk_storage b) (best_hash (bk_storage b))) = Some (last_timestamp (bk_time b))"

text \<open>What is needed of the hash: headers with the same hash have the same number.\<close>

definition hash_gives_number :: "chain_hashing \<Rightarrow> bool" where
  "hash_gives_number hs \<longleftrightarrow> (\<forall>d d'. hash_slow hs d = hash_slow hs d' \<longrightarrow> number d = number d')"

lemma chain_storedD: "chain_stored s \<Longrightarrow> hm_get (hashes s) n = Some h \<Longrightarrow> \<exists>d. header_at s h = Some d \<and> number d = n"
  by (simp add: chain_stored_def)

lemma chain_stored_numbered: "chain_stored s \<Longrightarrow> numbered s"
  unfolding chain_stored_def numbered_def header_at_def by fastforce

lemma cut_keeps_low:
  assumes ok: "chain_ok hs base s" and cut: "cut_at n h s s'" and "k \<le> n" and k: "hm_get (hashes s) k = Some g"
  shows "header_at s' g = header_at s g"
proof -
  have "m = k" if "hm_get (hashes s) m = Some g" for m by (rule chain_okD(4) [OF ok that k])
  with \<open>k \<le> n\<close> have "\<not> (\<exists>m. n < m \<and> m \<le> best_number s \<and> hm_get (hashes s) m = Some g)" by auto
  then show ?thesis using cut unfolding cut_at_def by (metis (no_types, lifting))
qed

lemma cut_storage_ok:
  assumes ok: "storage_ok hs s" and n: "hm_get (hashes s) n = Some h" and cut: "cut_at n h s s'"
  shows "storage_ok hs s'"
proof -
  have ch: "chain_ok hs 0 s" and st: "chain_stored s" and ti: "times_ordered s"
    and g: "hm_get (hashes s) 0 = Some (genesis_hash s)" using ok by (auto simp: storage_ok_def)
  have le: "n \<le> best_number s" using chain_okD(2) [OF ch, of n] n by auto
  have get: "k \<le> n \<and> hm_get (hashes s) k = Some x" if "hm_get (hashes s') k = Some x" for k x
    using that cut chain_okD(2) [OF ch, of k] by (auto simp: cut_at_def split: if_splits)
  have low: "header_at s' x = header_at s x" if "hm_get (hashes s') k = Some x" for k x
    using get [OF that] cut_keeps_low [OF ch cut] by blast
  have "chain_stored s'"
    unfolding chain_stored_def
  proof (intro allI impI)
    fix k x
    assume "hm_get (hashes s') k = Some x"
    then show "\<exists>d. header_at s' x = Some d \<and> number d = k"
      using get chain_storedD [OF st] by (simp add: low)
  qed
  moreover have "times_ordered s'"
    unfolding times_ordered_def
  proof (intro allI impI)
    fix k x x' d d'
    assume k: "k < best_number s'" "hm_get (hashes s') k = Some x" "hm_get (hashes s') (k + 1) = Some x'"
      "header_at s' x = Some d" "header_at s' x' = Some d'"
    from cut have "best_number s' = n" by (simp add: cut_at_def)
    with k le have "k < best_number s" by simp
    moreover have "header_at s x = Some d" "header_at s x' = Some d'"
      using k(4,5) low [OF k(2)] low [OF k(3)] by simp_all
    ultimately show "timestamp d \<le> timestamp d'"
      using ti get [OF k(2)] get [OF k(3)] unfolding times_ordered_def by blast
  qed
  moreover have "hm_get (hashes s') 0 = Some (genesis_hash s')" using cut g by (simp add: cut_at_def)
  ultimately show ?thesis using cut_at_ok [OF ch n cut] by (simp add: storage_ok_def)
qed

lemma new_hash_fresh:
  assumes ok: "storage_ok hs s" and room: "best_number s \<noteq> - 1" and hash: "hash_gives_number hs"
    and num: "number d = best_number s + 1"
  shows "hm_get (hashes s) k \<noteq> Some (hash_slow hs d)"
proof
  assume k: "hm_get (hashes s) k = Some (hash_slow hs d)"
  have ch: "chain_ok hs 0 s" and st: "chain_stored s" using ok by (auto simp: storage_ok_def)
  obtain d' where d': "header_at s (hash_slow hs d) = Some d'" "number d' = k" using chain_storedD [OF st k] by blast
  then have "k = best_number s + 1"
    using chain_okD(5) [OF ch d'(1)] hash num unfolding hash_gives_number_def by metis
  moreover have "unat (best_number s + 1) = unat (best_number s) + 1"
    using room unat_Suc_less_iff [of "best_number s"] by (simp add: unat_add_no_wrap)
  ultimately show False using chain_okD(2) [OF ch, of k] k by (simp add: word_le_nat_alt)
qed

lemma store_storage_ok:
  assumes ok: "storage_ok hs s" and room: "best_number s \<noteq> - 1" and hash: "hash_gives_number hs"
    and parent: "parent_hash (header (bi_block bi)) = best_hash s"
    and num: "number (header (bi_block bi)) = best_number s + 1"
    and later: "\<And>d. header_at s (best_hash s) = Some d \<Longrightarrow> timestamp d \<le> timestamp (header (bi_block bi))"
  shows "storage_ok hs (store_block cr e keeper (best_number s + 1) (hash_slow hs (header (bi_block bi))) bi s)"
    (is "storage_ok hs ?s")
proof -
  let ?h = "hash_slow hs (header (bi_block bi))"
  have ch: "chain_ok hs 0 s" and st: "chain_stored s" and ti: "times_ordered s"
    and g: "hm_get (hashes s) 0 = Some (genesis_hash s)" using ok by (auto simp: storage_ok_def)
  have next_n: "unat (best_number s + 1) = unat (best_number s) + 1"
    using room unat_Suc_less_iff [of "best_number s"] by (simp add: unat_add_no_wrap)
  note fresh = new_hash_fresh [OF ok room hash num]
  note f = store_block_fields [of cr e keeper "best_number s + 1" ?h bi s]
  have "chain_stored ?s"
    unfolding chain_stored_def f
  proof (intro allI impI)
    fix k x
    assume k: "(if k = best_number s + 1 then Some ?h else hm_get (hashes s) k) = Some x"
    show "\<exists>d. (if x = ?h then Some (header (bi_block bi)) else header_at s x) = Some d \<and> number d = k"
    proof (cases "k = best_number s + 1")
      case False
      with k have "hm_get (hashes s) k = Some x" by simp
      with fresh [of k] chain_storedD [OF st] show ?thesis by auto
    qed (use k num in simp)
  qed
  moreover have "times_ordered ?s"
    unfolding times_ordered_def f
  proof (intro allI impI)
    fix k x x' d d'
    assume k: "k < best_number s + 1"
      and x: "(if k = best_number s + 1 then Some ?h else hm_get (hashes s) k) = Some x"
        "(if k + 1 = best_number s + 1 then Some ?h else hm_get (hashes s) (k + 1)) = Some x'"
      and d: "(if x = ?h then Some (header (bi_block bi)) else header_at s x) = Some d"
        "(if x' = ?h then Some (header (bi_block bi)) else header_at s x') = Some d'"
    have x1: "hm_get (hashes s) k = Some x" using x(1) k by (auto split: if_splits)
    with fresh d(1) have d1: "header_at s x = Some d" by (auto split: if_splits)
    show "timestamp d \<le> timestamp d'"
    proof (cases "k = best_number s")
      case True
      with x1 x(2) d(2) chain_okD(3) [OF ch] have "x = best_hash s" "d' = header (bi_block bi)" by auto
      with later d1 show ?thesis by simp
    next
      case False
      with k next_n have less: "k < best_number s" by (auto simp: word_less_nat_alt word_unat_eq_iff)
      from False x(2) have x2: "hm_get (hashes s) (k + 1) = Some x'" by simp
      with fresh d(2) have "header_at s x' = Some d'" by (auto split: if_splits)
      with ti less x1 x2 d1 show ?thesis unfolding times_ordered_def by blast
    qed
  qed
  moreover have "hm_get (hashes ?s) 0 = Some (genesis_hash ?s)"
    using g next_n by (auto simp: f word_unat_eq_iff)
  ultimately show ?thesis using store_block_ok [OF ch fresh refl parent room] by (simp add: storage_ok_def)
qed

end
