(* ===== verification/Anvil_Reach.thy ===== *)
theory Anvil_Reach
  imports Anvil_Backend
begin

text \<open>
  The backends a node can get into, as the states reached by a step relation whose rules are the calls
  of \<open>crates/anvil/src/eth/backend/mem/mod.rs\<close>: mining, taking a snapshot, reverting to it, rolling back, and
  the calls on the clock. The lemmas show that the chain of every reachable backend is linked, that the tags
  name the same blocks in every lookup, that a revert brings back what the snapshot saw, that a
  reorganisation builds the chain it says, and how a stale snapshot breaks the chain.
\<close>

section \<open>Every reachable backend has a linked chain\<close>

text \<open>A snapshot can be reverted to when it is not a snapshot of the backend at all, or when its block
  is still on the chain.\<close>

definition snapshot_live :: "U256 \<Rightarrow> ('c, 'n, 'f) Backend \<Rightarrow> bool" where
  "snapshot_live i b =
     (case hm_get (active_state_snapshots b) i of
        Some (num, hash) \<Rightarrow> hm_get (hashes (bk_storage b)) num = Some hash
      | None \<Rightarrow> True)"

definition on_chain :: "chain_hashing \<Rightarrow> Block \<Rightarrow> 'n BlockchainStorage \<Rightarrow> bool" where
  "on_chain hs block s \<longleftrightarrow> hm_get (hashes s) (number (header block)) = Some (hash_slow hs (header block)) \<and>
     header_at s (hash_slow hs (header block)) = Some (header block)"

inductive backend_step :: "('c, 'n, 'd, 'r, 'b, 'e) node_params \<Rightarrow> ('c, 'n, 'f) Backend \<Rightarrow> ('c, 'n, 'f) Backend \<Rightarrow> bool"
  for np where
  mine: "do_mine_block np rnd now pending b = Some (out, b') \<Longrightarrow>
    np_arbitrum np (cfg_chain_id (env_cfg (bk_env b))) \<longrightarrow> best_number (bk_storage b) \<noteq> - 1 \<Longrightarrow> backend_step np b b'"
| snapshot: "create_state_snapshot b = (i, b') \<Longrightarrow> backend_step np b b'"
| revert: "snapshot_live i b \<Longrightarrow> revert_state_snapshot np now i b = Some (r, b') \<Longrightarrow> backend_step np b b'"
| roll: "on_chain (np_hashing np) common (bk_storage b) \<Longrightarrow> rollback np now common b = Some (r, b') \<Longrightarrow> backend_step np b b'"
| clock: "time_step e (bk_time b) = Some (None, tm) \<Longrightarrow> backend_step np b (b\<lparr>bk_time := tm\<rparr>)"
| listen: "backend_step np b (b\<lparr>new_block_listeners := ls\<rparr>)"

text \<open>A node that is not a fork starts with a genesis block whose time is the start of its clock.\<close>

inductive reachable_backend :: "('c, 'n, 'd, 'r, 'b, 'e) node_params \<Rightarrow> ('c, 'n, 'f) Backend \<Rightarrow> bool" for np where
  genesis: "with_genesis np now db env gc fees prune max_persisted keeper automine tmp_root cache_path slots = Some (Inr b) \<Longrightarrow>
    be_number (env_block env) = 0 \<Longrightarrow> reachable_backend np b"
| step: "reachable_backend np b \<Longrightarrow> backend_step np b b' \<Longrightarrow> reachable_backend np b'"

text \<open>The longer chain has the blocks of the shorter one.\<close>

definition extends_chain :: "'n BlockchainStorage \<Rightarrow> 'n BlockchainStorage \<Rightarrow> bool" where
  "extends_chain s s' \<longleftrightarrow>
     best_number s \<le> best_number s' \<and>
     (\<forall>k\<le>best_number s. hm_get (hashes s') k = hm_get (hashes s) k \<and>
        (\<forall>h. hm_get (hashes s) k = Some h \<longrightarrow> header_at s' h = header_at s h))"

lemma extends_refl [simp]: "extends_chain s s"
  by (simp add: extends_chain_def)

lemma extends_trans: "extends_chain s t \<Longrightarrow> extends_chain t u \<Longrightarrow> extends_chain s u"
  unfolding extends_chain_def by (metis order_trans)

lemma store_extends:
  assumes ok: "storage_ok hs s" and room: "best_number s \<noteq> - 1" and hash: "hash_gives_number hs"
    and num: "number (header (bi_block bi)) = best_number s + 1"
  shows "extends_chain s (store_block cr e keeper (best_number s + 1) (hash_slow hs (header (bi_block bi))) bi s)"
proof -
  have "unat (best_number s + 1) = unat (best_number s) + 1"
    using room unat_Suc_less_iff [of "best_number s"] by (simp add: unat_add_no_wrap)
  with new_hash_fresh [OF assms] show ?thesis
    by (auto simp: extends_chain_def store_block_fields word_le_nat_alt)
qed

lemma mine_keeps_ok:
  assumes hash: "hash_gives_number (np_hashing np)" and ok: "backend_ok np b"
    and run: "do_mine_block np rnd now pending b = Some (out, b')"
    and room: "np_arbitrum np (cfg_chain_id (env_cfg (bk_env b))) \<longrightarrow> best_number (bk_storage b) \<noteq> - 1"
  shows "backend_ok np b' \<and> best_number (bk_storage b') = best_number (bk_storage b) + 1 \<and>
    best_number (bk_storage b) \<noteq> - 1 \<and> extends_chain (bk_storage b) (bk_storage b')"
proof -
  have s: "storage_ok (np_hashing np) (bk_storage b)" and n: "be_number (env_block (bk_env b)) = ucast (best_number (bk_storage b))"
    and t: "map_option timestamp (header_at (bk_storage b) (best_hash (bk_storage b))) = Some (last_timestamp (bk_time b))"
    using ok by (auto simp: backend_ok_def)
  obtain bi e keeper where st: "bk_storage b' = store_block (np_crypto np) e keeper (best_number (bk_storage b) + 1)
       (hash_slow (np_hashing np) (header (bi_block bi))) bi (bk_storage b)"
    and p: "parent_hash (header (bi_block bi)) = best_hash (bk_storage b)"
    and nb: "number (header (bi_block bi)) = best_number (bk_storage b) + 1"
    and tb: "timestamp (header (bi_block bi)) = last_timestamp (bk_time b')"
      "last_timestamp (bk_time b) \<le> last_timestamp (bk_time b')"
    and env: "be_number (env_block (bk_env b')) = ucast (best_number (bk_storage b) + 1)"
    and ne: "best_number (bk_storage b) \<noteq> - 1"
    using run n room by (rule mined_header)
  have "storage_ok (np_hashing np) (bk_storage b')"
    unfolding st by (rule store_storage_ok [OF s ne hash p nb]) (use t tb in auto)
  moreover have "extends_chain (bk_storage b) (bk_storage b')"
    unfolding st by (rule store_extends [OF s ne hash nb])
  ultimately show ?thesis
    using env tb ne by (simp add: backend_ok_def st store_block_fields)
qed

lemma cut_keeps_ok:
  assumes ok: "backend_ok np b" and n: "hm_get (hashes (bk_storage b)) n = Some h"
    and cut: "cut_at n h (bk_storage b) (bk_storage b')" and d: "header_at (bk_storage b') h = Some d"
    and "be_number (env_block (bk_env b')) = ucast n" and "last_timestamp (bk_time b') = timestamp d"
  shows "backend_ok np b'"
proof -
  have "storage_ok (np_hashing np) (bk_storage b')"
    using ok by (intro cut_storage_ok [OF _ n cut]) (simp add: backend_ok_def)
  moreover have "best_number (bk_storage b') = n" "best_hash (bk_storage b') = h" using cut by (simp_all add: cut_at_def)
  ultimately show ?thesis using assms(4-) by (simp add: backend_ok_def)
qed

lemma revert_keeps_ok:
  assumes ok: "backend_ok np b" and live: "snapshot_live i b"
    and run: "revert_state_snapshot np now i b = Some (r, b')"
  shows "backend_ok np b'"
proof (cases "hm_get (active_state_snapshots b) i")
  case None
  with ok run show ?thesis by (auto simp: revert_state_snapshot_def backend_ok_def split_beta)
next
  case (Some p)
  obtain num h where p: "p = (num, h)" by (cases p)
  have n: "hm_get (hashes (bk_storage b)) num = Some h" using live Some p by (simp add: snapshot_live_def)
  from run obtain st where st: "revert_blocks (np_crypto np) num h (bk_storage b) = Some st"
    unfolding revert_state_snapshot_def Some p by (auto split: bind_splits)
  note cut = revert_blocks_cut [OF st]
  have ch: "chain_ok (np_hashing np) 0 (bk_storage b)" and "chain_stored (bk_storage b)"
    using ok by (auto simp: backend_ok_def storage_ok_def)
  then obtain d where "header_at st h = Some d" using chain_storedD n cut_keeps_low [OF ch cut order_refl n] by force
  then obtain blk where blk: "get_block_by_hash st h = Some blk" "header_at st h = Some (header blk)"
    by (auto simp: get_block_by_hash_def header_at_def)
  have "bk_storage b' = st" "be_number (env_block (bk_env b')) = ucast num"
    "last_timestamp (bk_time b') = timestamp (header blk)"
    using run unfolding revert_state_snapshot_def Some p by (auto simp: st blk(1) Let_def split_beta reset_def)
  then show ?thesis using cut_keeps_ok [OF ok n, of b'] cut blk(2) by simp
qed

lemma rollback_keeps_ok:
  assumes ok: "backend_ok np b" and on: "on_chain (np_hashing np) common (bk_storage b)"
    and run: "rollback np now common b = Some (r, b')"
  shows "backend_ok np b' \<and> (r = Inr () \<longrightarrow>
    cut_at (number (header common)) (hash_slow (np_hashing np) (header common)) (bk_storage b) (bk_storage b'))"
proof -
  let ?h = "hash_slow (np_hashing np) (header common)"
  from run consider
      (failed) "bk_storage b' = bk_storage b" "bk_env b' = bk_env b" "bk_time b' = bk_time b" "r \<noteq> Inr ()"
    | (unwound) "unwind_to (np_crypto np) (number (header common)) ?h (bk_storage b) = Some (bk_storage b')"
      "be_number (env_block (bk_env b')) = ucast (number (header common))"
      "last_timestamp (bk_time b') = timestamp (header common)"
    unfolding rollback_def Let_def
    by (auto simp: split_beta reset_def split: option.splits sum.splits bind_splits)
  then show ?thesis
  proof cases
    case failed
    with ok show ?thesis by (simp add: backend_ok_def)
  next
    case unwound
    have n: "hm_get (hashes (bk_storage b)) (number (header common)) = Some ?h"
      and d: "header_at (bk_storage b) ?h = Some (header common)" using on by (auto simp: on_chain_def)
    have ch: "chain_ok (np_hashing np) 0 (bk_storage b)" and "chain_stored (bk_storage b)"
      using ok by (auto simp: backend_ok_def storage_ok_def)
    note cut = unwind_to_cut [OF chain_stored_numbered [OF this(2)] unwound(1)]
    have "header_at (bk_storage b') ?h = Some (header common)"
      using cut_keeps_low [OF ch cut order_refl n] d by simp
    from cut_keeps_ok [OF ok n cut this unwound(2,3)] cut show ?thesis by simp
  qed
qed

lemma backend_step_ok:
  assumes "hash_gives_number (np_hashing np)" and "backend_step np b b'" and "backend_ok np b"
  shows "backend_ok np b'"
  using assms(2,3)
proof cases
  case (mine rnd now pending out)
  with mine_keeps_ok [OF assms(1,3)] show ?thesis by blast
next
  case (snapshot i)
  with assms(3) show ?thesis by (auto simp: create_state_snapshot_def backend_ok_def split_beta Let_def)
next
  case (revert i now r)
  with revert_keeps_ok [OF assms(3)] show ?thesis by blast
next
  case (roll common now r)
  with rollback_keeps_ok [OF assms(3)] show ?thesis by blast
next
  case (clock e tm)
  with assms(3) anvil_clock.quiet_step [OF clock(2)] show ?thesis by (simp add: backend_ok_def)
qed (use assms(3) in \<open>simp add: backend_ok_def\<close>)

lemma new_storage_parts:
  assumes "new_BlockchainStorage hs ids env spec fee time = Some s"
  obtains blk where "blocks s = [(best_hash s, blk)]" "hashes s = [(0, best_hash s)]" "best_number s = 0"
    "genesis_hash s = best_hash s" "number (header blk) = 0" "timestamp (header blk) = time"
  using assms that by (auto simp: new_BlockchainStorage_def new_Block_def default_PartialHeader_def Let_def split: bind_splits)

lemma genesis_ok:
  assumes "with_genesis np now db env gc fees prune max_persisted keeper automine tmp_root cache_path slots = Some (Inr b)"
    and "be_number (env_block env) = 0"
  shows "backend_ok np b"
proof -
  obtain fee where s: "new_BlockchainStorage (np_hashing np) (np_ids np) (env_block env) (env_spec_id env) fee
      (last_timestamp (bk_time b)) = Some (bk_storage b)" and env: "bk_env b = env"
    using assms(1) unfolding with_genesis_def
    by (auto simp: new_TimeManager_def reset_def split: bind_splits prod.splits sum.splits)
  obtain blk where blk: "blocks (bk_storage b) = [(best_hash (bk_storage b), blk)]"
      "hashes (bk_storage b) = [(0, best_hash (bk_storage b))]" "best_number (bk_storage b) = 0"
      "genesis_hash (bk_storage b) = best_hash (bk_storage b)" "number (header blk) = 0"
      "timestamp (header blk) = last_timestamp (bk_time b)"
    using s by (rule new_storage_parts)
  then have "storage_ok (np_hashing np) (bk_storage b)"
    using new_storage_ok [OF s]
    by (auto simp: storage_ok_def chain_stored_def times_ordered_def header_at_def split: if_splits)
  with blk assms(2) env show ?thesis by (simp add: backend_ok_def header_at_def)
qed

lemma reachable_ok: "reachable_backend np b \<Longrightarrow> hash_gives_number (np_hashing np) \<Longrightarrow> backend_ok np b"
  by (induction rule: reachable_backend.induct) (blast intro: genesis_ok backend_step_ok)+

section \<open>Looking blocks up\<close>

lemma get_block_Number: "get_block b (NumberId (Number n)) = do { h \<leftarrow> hm_get (hashes (bk_storage b)) n; get_block_by_hash (bk_storage b) h }"
  by (simp add: get_block_def Let_def)

lemma header_get_block: "header_at s h = map_option header (get_block_by_hash s h)"
  by (simp add: header_at_def get_block_by_hash_def)

lemma ok_get_block:
  assumes ok: "backend_ok np b" and n: "n \<le> best_number (bk_storage b)"
  obtains h blk where "hm_get (hashes (bk_storage b)) n = Some h" "get_block b (NumberId (Number n)) = Some blk"
    "header_at (bk_storage b) h = Some (header blk)" "number (header blk) = n" "hash_slow (np_hashing np) (header blk) = h"
proof -
  have ch: "chain_ok (np_hashing np) 0 (bk_storage b)" and st: "chain_stored (bk_storage b)"
    using ok by (auto simp: backend_ok_def storage_ok_def)
  obtain h where h: "hm_get (hashes (bk_storage b)) n = Some h" using chain_okD(2) [OF ch, of n] n by auto
  obtain d where d: "header_at (bk_storage b) h = Some d" "number d = n" using chain_storedD [OF st h] by blast
  then obtain blk where "get_block_by_hash (bk_storage b) h = Some blk" "header blk = d" by (auto simp: header_get_block)
  with h d chain_okD(5) [OF ch d(1)] that show ?thesis by (simp add: get_block_Number)
qed

lemma ok_get_block_None:
  assumes "backend_ok np b"
  shows "get_block b (NumberId (Number n)) = None \<longleftrightarrow> best_number (bk_storage b) < n"
proof (cases "n \<le> best_number (bk_storage b)")
  case True
  with ok_get_block [OF assms True] show ?thesis by (metis not_less option.distinct(1))
next
  case False
  with assms chain_okD(2) [of "np_hashing np" 0 "bk_storage b" n] show ?thesis
    by (simp add: get_block_Number backend_ok_def storage_ok_def)
qed

text \<open>A node for evaluation: a transaction leaves a trace in the database and uses 21000 gas.\<close>

definition mem_evm :: "(nat MemDb, nat, unit, unit, unit) evm_ops" where
  "mem_evm = \<lparr>evm_basic = (\<lambda>db a. (Inr (Some (sample_account 189004)), db)), default_account = sample_account 0,
     transact_commit = (\<lambda>env te db. (Inr (Success 1 21000 [] (CallOutput []), []),
       db\<lparr>inner := (inner db)\<lparr>contracts := hm_insert 1 7 (contracts (inner db))\<rparr>\<rparr>)),
     maybe_state_root = (\<lambda>db. None), ir_Revert = 16, ir_SelfDestruct = 3\<rparr>"

definition sample_node :: "(nat, unit, unit, unit, unit, unit) node_params" where
  "sample_node = \<lparr>np_crypto = sample_crypto, np_hashing = sample_hashing, np_ids = sample_ids, np_evm = mem_evm,
     np_cache = sample_ops, np_fees = no_fees, np_tmp = can_create, np_order = insertion_order, np_info_order = insertion_order,
     np_blobs = no_blob_errors, np_arbitrum = (\<lambda>_. False), np_default_blob = None, np_storage_order = insertion_order,
     np_from_timestamp = (\<lambda>t. t < 2 ^ 40)\<rparr>"

definition sample_start :: "(unit + (nat, unit, unit) Backend) option" where
  "sample_start = with_genesis sample_node 100 default_MemDb (sample_env\<lparr>env_block := sample_block_env\<lparr>be_number := 0\<rparr>\<rparr>)
     \<lparr>genesis_timestamp = 5, genesis_balance = 10, genesis_accounts = [1, 2], genesis_init = None\<rparr>
     (new_FeeManager unit_ops no_fees 6 7 True 9 \<lparr>excess_blob_gas = 0, blob_gasprice = 1\<rparr>)
     (prune_from_args None) None None None None None 32"

text \<open>A run: a snapshot before and one after the first block, which has a transaction, and the revert
  to the first snapshot.\<close>

definition sample_steps ::
    "((nat, unit, unit) Backend \<times> (nat, unit, unit) Backend \<times> (nat, unit, unit) Backend) option" where
  "sample_steps =
     do {
       r \<leftarrow> sample_start;
       case r of
         Inl _ \<Rightarrow> None
       | Inr b0 \<Rightarrow>
           do {
             (_, b2) \<leftarrow> do_mine_block sample_node 9 101 [sample_pool_tx 4] (snd (create_state_snapshot b0));
             (_, b4) \<leftarrow> revert_state_snapshot sample_node 110 0 (snd (create_state_snapshot b2));
             Some (b0, b2, b4)
           }
     }"

text \<open>The genesis block replaced as the parent of another block.\<close>

definition sample_reorg :: "(nat, unit, unit) Backend \<Rightarrow> ((unit BlockchainError + unit) \<times> (nat, unit, unit) Backend) option" where
  "sample_reorg b = do { common \<leftarrow> get_block b (NumberId Earliest); reorg sample_node 110 [(11, 120)] [] common b }"

lemma sample_hash: "hash_gives_number (np_hashing sample_node)"
proof -
  have "d = e" if "ucast d + 1 = (ucast e + 1 :: B256)" for d e :: u64
  proof -
    from that have "(ucast d :: B256) = ucast e" by (rule add_right_imp_eq)
    then have "to_u64 (ucast d) = to_u64 (ucast e)" by (rule arg_cong)
    then show ?thesis unfolding to_u64_ucast by (rule option.inject [THEN iffD1])
  qed
  then show ?thesis by (simp add: hash_gives_number_def sample_node_def sample_hashing_def)
qed

lemma sample_values:
  "map_option (\<lambda>(b0, b2, b4). (fst (create_state_snapshot b0), best_number (bk_storage b2),
     length (stored_transactions (bk_storage b2)), hm_get (active_state_snapshots b4) 1, header_at (bk_storage b4) 2,
     map_option fst (sample_reorg b2), snapshot_live 0 (snd (create_state_snapshot b2)))) sample_steps =
   Some (0, 1, 1, Some (1, 2), None, Some (Inr ()), True)"
  by code_simp

lemma sample_backends:
  obtains b0 out b2 r b4 where "sample_start = Some (Inr b0)"
    "do_mine_block sample_node 9 101 [sample_pool_tx 4] (snd (create_state_snapshot b0)) = Some (out, b2)"
    "revert_state_snapshot sample_node 110 0 (snd (create_state_snapshot b2)) = Some (r, b4)"
    "fst (create_state_snapshot b0) = 0" "best_number (bk_storage b2) = 1" "length (stored_transactions (bk_storage b2)) = 1"
    "hm_get (active_state_snapshots b4) 1 = Some (1, 2)" "header_at (bk_storage b4) 2 = None"
    "map_option fst (sample_reorg b2) = Some (Inr ())" "snapshot_live 0 (snd (create_state_snapshot b2))"
  using sample_values unfolding sample_steps_def
  by (auto split: option.splits bind_splits sum.splits prod.splits)

lemma sample_start_parts:
  assumes "sample_start = Some (Inr b0)"
  shows "reachable_backend sample_node b0" and "best_number (bk_storage b0) = 0" and "slots_in_an_epoch b0 = 32"
    and "mem_snapshots (bk_db b0) = no_snapshots" and "transaction_block_keeper b0 = None"
proof -
  show "reachable_backend sample_node b0"
    using assms unfolding sample_start_def
    by (rule reachable_backend.genesis) (simp add: sample_env_def sample_block_env_def)
  have insert: "mem_snapshots (db_insert_account ops a i d) = mem_snapshots d" for ops :: "(nat, unit) cache_ops" and a i d
    by (simp add: db_insert_account_def)
  show "slots_in_an_epoch b0 = 32" "best_number (bk_storage b0) = 0" "mem_snapshots (bk_db b0) = no_snapshots"
    "transaction_block_keeper b0 = None"
    using assms
    by (auto simp: sample_start_def with_genesis_def apply_genesis_def apply_genesis_json_alloc_def account_infos_def
        insert db_insert_block_hash_def default_MemDb_def elim!: new_storage_parts split: bind_splits)
qed

lemma sample_mined_reachable:
  assumes "sample_start = Some (Inr b0)"
    and "do_mine_block sample_node 9 101 [sample_pool_tx 4] (snd (create_state_snapshot b0)) = Some (out, b2)"
  shows "reachable_backend sample_node b2"
proof (rule reachable_backend.step [OF reachable_backend.step [OF sample_start_parts(1) [OF assms(1)]]])
  show "backend_step sample_node b0 (snd (create_state_snapshot b0))" by (rule backend_step.snapshot) (rule prod.collapse [symmetric])
  show "backend_step sample_node (snd (create_state_snapshot b0)) b2"
    using assms(2) by (rule backend_step.mine) (simp add: sample_node_def)
qed



text \<open>C15. The two ways of reading a block tag agree. When doubling the length of an epoch does not
  overflow, \<open>get_block\<close> on a tag finds the block with the number \<open>convert_block_number\<close> gives for it, and
  \<open>ensure_block_number\<close> rejects exactly the numbers that have no block. (The pending block is not
  stored.)\<close>

theorem block_tags_agree:
  assumes "hash_gives_number (np_hashing np)" and "reachable_backend np b" and "tag \<noteq> Pending"
    and "unat (slots_in_an_epoch b) * 2 < 2 ^ 64"
  shows "\<exists>n. convert_block_number b (Some tag) = Some n \<and>
    get_block b (NumberId tag) = get_block b (NumberId (Number n)) \<and>
    ensure_block_number b (Some (NumberId tag)) =
      (Some (if get_block b (NumberId tag) = None then Inl (BlockOutOfRange (best_number (bk_storage b)) n) else Inr n)
       :: ('x BlockchainError + u64) option)"
proof -
  let ?s = "bk_storage b" and ?e = "slots_in_an_epoch b"
  have ok: "backend_ok np b" by (rule reachable_ok [OF assms(2,1)])
  have best: "hm_get (hashes ?s) (best_number ?s) = Some (best_hash ?s)" and gen: "hm_get (hashes ?s) 0 = Some (genesis_hash ?s)"
    using ok chain_okD(3) by (auto simp: backend_ok_def storage_ok_def)
  have two: "checked_mul ?e 2 = Some (?e * 2)" using assms(4) by (simp add: checked_mul_def)
  have sub: "saturating_sub m k = (if k < m then m - k else 0)" for m k :: u64
    by (auto simp: saturating_sub_def)
  obtain n where n: "convert_block_number b (Some tag) = Some n"
    using two by (cases tag) (auto simp: convert_block_number_def Let_def)
  have same: "get_block b (NumberId tag) = get_block b (NumberId (Number n))"
    using n two assms(3) best gen by (cases tag) (auto simp: convert_block_number_def get_block_def Let_def sub)
  have "ensure_block_number b (Some (NumberId tag)) =
      Some (if best_number ?s < n then Inl (BlockOutOfRange (best_number ?s) n) else Inr n)"
    by (simp add: ensure_block_number_def n Let_def)
  then show ?thesis using n same ok_get_block_None [OF ok, of n] by simp
qed

theorem block_tags_agree_witness:
  "\<exists>b :: (nat, unit, unit) Backend. reachable_backend sample_node b \<and> best_number (bk_storage b) = 1 \<and> convert_block_number b (Some Finalized) = Some 0 \<and>
     get_block b (NumberId Finalized) = get_block b (NumberId (Number 0)) \<and>
     ensure_block_number b (Some (NumberId (Number 2))) = Some (Inl (BlockOutOfRange 1 2) :: unit BlockchainError + u64)"
proof -
  obtain b0 out b2 where start: "sample_start = Some (Inr b0)"
    and mined: "do_mine_block sample_node 9 101 [sample_pool_tx 4] (snd (create_state_snapshot b0)) = Some (out, b2)"
    and best: "best_number (bk_storage b2) = 1"
    by (rule sample_backends)
  note r = sample_mined_reachable [OF start mined]
  have "slots_in_an_epoch b2 = 32"
    using mined sample_start_parts(3) [OF start]
    by (auto simp: do_mine_block_def create_state_snapshot_def Let_def split_beta split: bind_splits)
  then have slots: "unat (slots_in_an_epoch b2) * 2 < 2 ^ 64" "convert_block_number b2 (Some Finalized) = Some 0"
    by (simp_all add: convert_block_number_def best checked_mul_def saturating_sub_def word_le_nat_alt)
  have "convert_block_number b2 (Some (Number 2)) = Some 2" by (simp add: convert_block_number_def)
  moreover have "get_block b2 (NumberId (Number 2)) = None"
    using ok_get_block_None [OF reachable_ok [OF r sample_hash], of 2] by (simp add: best)
  ultimately show ?thesis
    using r best slots block_tags_agree [OF sample_hash r _ slots(1), of Finalized]
      block_tags_agree [OF sample_hash r _ slots(1), of "Number 2", where 'x = unit] by (intro exI [of _ b2]) auto
qed

section \<open>What is visible after mining\<close>

lemma insert_mined_other: "k \<notin> (transaction_hash \<circ> fst) ` set xs \<Longrightarrow>
   hm_get (stored_transactions (insert_mined h n xs s)) k = hm_get (stored_transactions s) k"
  by (induction h n xs s rule: insert_mined.induct) (auto simp: cont_simps)

lemma insert_mined_get:
  "k \<in> (transaction_hash \<circ> fst) ` set xs \<Longrightarrow>
   \<exists>mt. hm_get (stored_transactions (insert_mined h n xs s)) k = Some mt \<and> mt_block_hash mt = h \<and> mt_block_number mt = n"
proof (induction h n xs s rule: insert_mined.induct)
  case (2 h n info receipt rest s)
  show ?case
  proof (cases "k \<in> (transaction_hash \<circ> fst) ` set rest")
    case True
    from "2.IH" [OF this] show ?thesis by simp
  next
    case False
    with "2.prems" have "k = transaction_hash info" by auto
    with insert_mined_other [OF False] show ?thesis by (simp add: cont_simps)
  qed
qed simp

lemma execute_lists:
  assumes "execute cr hs ids ops validate env parent pending ex = Some (et, db)"
  shows "transactions (bi_block (executed_block et)) = map (transaction \<circ> pending_transaction) (included et)"
    and "(transaction_hash \<circ> fst) ` set (zip (bi_transactions (executed_block et)) (bi_receipts (executed_block et))) =
      tx_hash ` set (included et)"
proof -
  obtain ex' c where loop: "execute_loop cr hs ops validate env (CANCUN ids \<le> env_spec_id env) pending ex
      (start_collecting (CANCUN ids \<le> env_spec_id env)) = Some (ex', c)"
    and h: "transactions (bi_block (executed_block et)) = c_transactions c" "bi_transactions (executed_block et) = c_infos c"
      "bi_receipts (executed_block et) = c_receipts c" "included et = c_included c"
    using assms by (rule execute_parts)
  have "block_agrees [] (start_collecting (CANCUN ids \<le> env_spec_id env))"
    by (simp add: block_agrees_def start_collecting_def)
  from execute_loop_agrees [OF loop this]
  have agree: "c_transactions c = map (transaction \<circ> pending_transaction) (c_included c)"
    "map transaction_hash (c_infos c) = map tx_hash (c_included c)" "length (c_receipts c) = length (c_included c)"
    by (simp_all add: block_agrees_def)
  show "transactions (bi_block (executed_block et)) = map (transaction \<circ> pending_transaction) (included et)"
    using agree(1) h by simp
  have "length (c_infos c) = length (c_receipts c)" using agree(2,3) map_eq_imp_length_eq by metis
  then have "(transaction_hash \<circ> fst) ` set (zip (c_infos c) (c_receipts c)) = set (map transaction_hash (c_infos c))"
    by (simp only: set_map [symmetric] map_map [symmetric] map_fst_zip)
  then show "(transaction_hash \<circ> fst) ` set (zip (bi_transactions (executed_block et)) (bi_receipts (executed_block et))) =
      tx_hash ` set (included et)"
    by (simp add: h agree(2))
qed

lemma store_block_found:
  assumes "k \<in> (transaction_hash \<circ> fst) ` set (zip (bi_transactions bi) (bi_receipts bi))"
  shows "\<exists>mt. get_transaction_by_hash (store_block cr e None n h bi s) k = Some mt \<and> mt_block_hash mt = h \<and> mt_block_number mt = n"
  unfolding store_block_def prune_kept_blocks_def Let_def get_transaction_by_hash_def option.case
  by (rule insert_mined_get [OF assms])

lemma store_block_latest: "get_block_by_hash (store_block cr e None n h bi s) h = Some (bi_block bi)"
  by (simp add: store_block_def prune_kept_blocks_def Let_def get_block_by_hash_def cont_simps)

text \<open>C6. After a block has been mined it is what a node shows: it is the latest block, with the number that
  is reported and the old best block as its parent; it lists the included transactions, each is
  found by its hash with this block as its place, and every listener that is still open is told of the
  block once. (For nodes that keep all transactions.)\<close>

theorem mined_block_visible:
  assumes hash: "hash_gives_number (np_hashing np)" and reach: "reachable_backend np b"
    and run: "do_mine_block np rnd now pending b = Some (out, b')" and keeper: "transaction_block_keeper b = None"
    and room: "best_number (bk_storage b) \<noteq> - 1"
  shows "\<exists>blk. get_block b' (NumberId Latest) = Some blk \<and> number (header blk) = mined_block_number out \<and>
    mined_block_number out = best_number (bk_storage b) + 1 \<and> parent_hash (header blk) = best_hash (bk_storage b) \<and>
    transactions blk = map (transaction \<circ> pending_transaction) (mined_included out) \<and>
    (\<forall>tx\<in>set (mined_included out). \<exists>mt. get_transaction_by_hash (bk_storage b') (tx_hash tx) = Some mt \<and>
      mt_block_hash mt = hash_slow (np_hashing np) (header blk) \<and> mt_block_number mt = mined_block_number out) \<and>
    new_block_listeners b' =
      map (\<lambda>(_, q). (True, q @ [(hash_slow (np_hashing np) (header blk), header blk)])) (filter fst (new_block_listeners b))"
proof -
  obtain t :: u64 and et db where
    ex: "execute (np_crypto np) (np_hashing np) (np_ids np) (np_evm np)
       (validate_pool_transaction_for (np_ids np) (cfg_chain_id (env_cfg (bk_env b))) (np_blobs np))
       ((mining_env np rnd b)\<lparr>env_block := (env_block (mining_env np rnd b))\<lparr>be_timestamp := ucast t\<rparr>\<rparr>)
       (best_hash (bk_storage b)) pending \<lparr>ex_db = bk_db b, ex_gas_used = 0, ex_blob_gas_used = 0\<rparr> = Some (et, db)"
    and out: "out = \<lparr>mined_block_number = saturating_add (best_number (bk_storage b)) 1, mined_included = included et,
       mined_invalid = invalid et\<rparr>"
    and st: "bk_storage b' = store_block (np_crypto np) (is_eip3675 (np_ids np) (bk_env b)) (transaction_block_keeper b)
       (saturating_add (best_number (bk_storage b)) 1) (hash_slow (np_hashing np) (header (bi_block (executed_block et))))
       (executed_block et) (bk_storage b)"
    and ls: "new_block_listeners b' = notify_on_new_block (header (bi_block (executed_block et)))
       (hash_slow (np_hashing np) (header (bi_block (executed_block et)))) (new_block_listeners b)"
    using run by (rule do_mine_block_parts)
  let ?blk = "bi_block (executed_block et)"
  have s1: "saturating_add (best_number (bk_storage b)) 1 = best_number (bk_storage b) + 1"
    using room unat_Suc_less_iff [of "best_number (bk_storage b)"] by (simp add: saturating_add_def)
  have "be_number (env_block (bk_env b)) = ucast (best_number (bk_storage b))"
    using reachable_ok [OF reach hash] by (simp add: backend_ok_def)
  then obtain bi e k where bi: "bk_storage b' = store_block (np_crypto np) e k (best_number (bk_storage b) + 1)
       (hash_slow (np_hashing np) (header (bi_block bi))) bi (bk_storage b)"
    "parent_hash (header (bi_block bi)) = best_hash (bk_storage b)" "number (header (bi_block bi)) = best_number (bk_storage b) + 1"
    using mined_header [OF run] room by metis
  have "header_at (bk_storage b') (best_hash (bk_storage b')) = Some (header (bi_block bi))"
    unfolding bi(1) store_block_fields by simp
  moreover have "header_at (bk_storage b') (best_hash (bk_storage b')) = Some (header ?blk)"
    unfolding st store_block_fields by simp
  ultimately have same: "header (bi_block bi) = header ?blk" by simp
  have latest: "get_block b' (NumberId Latest) = Some ?blk"
    by (simp add: get_block_def st keeper store_block_fields store_block_latest)
  have found: "\<exists>mt. get_transaction_by_hash (bk_storage b') (tx_hash tx) = Some mt \<and>
      mt_block_hash mt = hash_slow (np_hashing np) (header ?blk) \<and> mt_block_number mt = best_number (bk_storage b) + 1"
    if "tx \<in> set (included et)" for tx
    unfolding st keeper s1 by (rule store_block_found) (unfold execute_lists(2) [OF ex], rule imageI [OF that])
  have "new_block_listeners b' =
      map (\<lambda>(_, q). (True, q @ [(hash_slow (np_hashing np) (header ?blk), header ?blk)])) (filter fst (new_block_listeners b))"
    by (auto simp: ls notify_on_new_block_def)
  with latest bi(2,3) found execute_lists(1) [OF ex] show ?thesis unfolding out s1 same by (intro exI [of _ ?blk]) simp
qed

theorem mined_block_visible_witness:
  "\<exists>(b :: (nat, unit, unit) Backend) out b' blk. do_mine_block sample_node 9 101 [sample_pool_tx 4] b = Some (out, b') \<and>
     get_block b' (NumberId Latest) = Some blk \<and> number (header blk) = mined_block_number out \<and>
     transactions blk = map (transaction \<circ> pending_transaction) (mined_included out) \<and>
     length (stored_transactions (bk_storage b')) = 1"
proof -
  obtain b0 out b2 where start: "sample_start = Some (Inr b0)"
    and mined: "do_mine_block sample_node 9 101 [sample_pool_tx 4] (snd (create_state_snapshot b0)) = Some (out, b2)"
    and one: "length (stored_transactions (bk_storage b2)) = 1"
    by (rule sample_backends)
  let ?b = "snd (create_state_snapshot b0)"
  have "reachable_backend sample_node ?b"
    using sample_start_parts(1) [OF start]
    by (rule reachable_backend.step) (rule backend_step.snapshot, rule prod.collapse [symmetric])
  moreover have "transaction_block_keeper ?b = None" "best_number (bk_storage ?b) \<noteq> - 1"
    using sample_start_parts(2,5) [OF start] by (simp_all add: create_state_snapshot_def split_beta Let_def)
  ultimately show ?thesis using mined_block_visible [OF sample_hash _ mined] mined one by blast
qed

section \<open>Stale snapshots\<close>

text \<open>C19. A snapshot whose block has left the chain is still active, and reverting to it breaks the
  chain: the call fails because the block is not found, but only after the best block has been set to it.\<close>

theorem stale_snapshot_breaks_chain:
  assumes "hm_get (active_state_snapshots b) i = Some (num, h)" and "header_at (bk_storage b) h = None" and "num \<noteq> - 1"
  shows "\<exists>b'. revert_state_snapshot np now i b = Some (Inl BlockNotFound, b') \<and>
    best_number (bk_storage b') = num \<and> best_hash (bk_storage b') = h \<and> get_block b' (NumberId Latest) = None"
proof -
  have "checked_add num 1 = Some (num + 1)" using assms(3) unat_Suc_less_iff [of num] by (simp add: checked_add_def)
  then obtain s where s: "revert_blocks (np_crypto np) num h (bk_storage b) = Some s" by (simp add: revert_blocks_def Let_def)
  note cut = revert_blocks_cut [OF s, unfolded cut_at_def]
  have "header_at s h = None" using cut assms(2) by auto
  then have none: "get_block_by_hash s h = None" by (simp add: header_get_block)
  with cut show ?thesis
    unfolding revert_state_snapshot_def assms(1) by (simp add: s get_block_def)
qed

theorem stale_snapshot_breaks_chain_witness:
  "\<exists>(b :: (nat, unit, unit) Backend) b'. reachable_backend sample_node b \<and>
     revert_state_snapshot sample_node 120 1 b = Some (Inl BlockNotFound, b') \<and>
     best_number (bk_storage b') = 1 \<and> get_block b' (NumberId Latest) = None"
proof -
  obtain b0 out b2 r and b4 :: "(nat, unit, unit) Backend" where start: "sample_start = Some (Inr b0)"
    and mined: "do_mine_block sample_node 9 101 [sample_pool_tx 4] (snd (create_state_snapshot b0)) = Some (out, b2)"
    and revert: "revert_state_snapshot sample_node 110 0 (snd (create_state_snapshot b2)) = Some (r, b4)"
    and b4: "hm_get (active_state_snapshots b4) 1 = Some (1, 2)" "header_at (bk_storage b4) 2 = None"
    and live: "snapshot_live 0 (snd (create_state_snapshot b2))"
    by (rule sample_backends)
  have "backend_step sample_node b2 (snd (create_state_snapshot b2))" by (rule backend_step.snapshot) (rule prod.collapse [symmetric])
  with sample_mined_reachable [OF start mined] live revert have "reachable_backend sample_node b4"
    by (blast intro: reachable_backend.step backend_step.revert)
  with stale_snapshot_breaks_chain [OF b4, of sample_node 120] show ?thesis by auto
qed

section \<open>Mining several blocks\<close>

lemma get_block_header:
  "map_option header (get_block b (NumberId (Number n))) =
     do { h \<leftarrow> hm_get (hashes (bk_storage b)) n; header_at (bk_storage b) h }"
  by (cases "hm_get (hashes (bk_storage b)) n") (simp_all add: get_block_Number header_get_block)

lemma extends_get_block:
  "extends_chain (bk_storage b) (bk_storage b') \<Longrightarrow> n \<le> best_number (bk_storage b) \<Longrightarrow>
   map_option header (get_block b' (NumberId (Number n))) = map_option header (get_block b (NumberId (Number n)))"
  unfolding get_block_header extends_chain_def by (cases "hm_get (hashes (bk_storage b)) n") simp_all

lemma cut_get_block:
  assumes ok: "backend_ok np b" and cut: "cut_at n h (bk_storage b) (bk_storage b')"
  shows "map_option header (get_block b' (NumberId (Number k))) =
    (if k \<le> n then map_option header (get_block b (NumberId (Number k))) else None)"
proof (cases "k \<le> n")
  case True
  have ch: "chain_ok (np_hashing np) 0 (bk_storage b)" using ok by (simp add: backend_ok_def storage_ok_def)
  have "hm_get (hashes (bk_storage b')) k = hm_get (hashes (bk_storage b)) k"
    using cut True by (auto simp: cut_at_def)
  with True cut_keeps_low [OF ch cut True] show ?thesis
    unfolding get_block_header by (cases "hm_get (hashes (bk_storage b)) k") simp_all
next
  case False
  then have "hm_get (hashes (bk_storage b')) k = None"
    using cut ok chain_okD(2) [of "np_hashing np" 0 "bk_storage b" k]
    by (auto simp: cut_at_def backend_ok_def storage_ok_def)
  with False show ?thesis by (simp add: get_block_header)
qed

lemma mine_each_chain:
  assumes hash: "hash_gives_number (np_hashing np)"
  shows "mine_each np txs i steps b = Some b' \<Longrightarrow> reachable_backend np b \<Longrightarrow>
    unat (best_number (bk_storage b)) + length steps < 2 ^ 64 \<Longrightarrow>
    reachable_backend np b' \<and> unat (best_number (bk_storage b')) = unat (best_number (bk_storage b)) + length steps \<and>
    extends_chain (bk_storage b) (bk_storage b') \<and> active_state_snapshots b' = active_state_snapshots b"
proof (induction steps arbitrary: i b)
  case (Cons p rest)
  obtain rnd now where p: "p = (rnd, now)" by (cases p)
  from Cons.prems(1) obtain out b1 where m: "do_mine_block np rnd now (txs i) b = Some (out, b1)"
    and r: "mine_each np txs (i + 1) rest b1 = Some b'" by (auto simp: p split: bind_splits)
  have "unat (best_number (bk_storage b)) + 1 < 2 ^ LENGTH(64)" using Cons.prems(3) by simp
  then have ne: "best_number (bk_storage b) \<noteq> - 1" unfolding unat_Suc_less_iff .
  have ok: "backend_ok np b" by (rule reachable_ok [OF Cons.prems(2) hash])
  from mine_keeps_ok [OF hash ok m] ne have k: "best_number (bk_storage b1) = best_number (bk_storage b) + 1"
    "extends_chain (bk_storage b) (bk_storage b1)" by blast+
  have "unat (best_number (bk_storage b1)) = unat (best_number (bk_storage b)) + 1"
    using ne unat_Suc_less_iff [of "best_number (bk_storage b)"] by (simp add: k unat_add_no_wrap)
  moreover have "reachable_backend np b1" using Cons.prems(2) m ne by (blast intro: reachable_backend.step backend_step.mine)
  moreover have "active_state_snapshots b1 = active_state_snapshots b" using m by (rule do_mine_block_parts)
  ultimately show ?case using Cons.IH [OF r] Cons.prems(3) extends_trans [OF k(2), of "bk_storage b'"] by simp
qed simp

section \<open>Snapshots and reorganisations\<close>

text \<open>Reading accounts and running transactions leaves the snapshots of the database alone.\<close>

definition evm_keeps_snapshots :: "('c MemDb, 'c, 'n, 'd, 'r) evm_ops \<Rightarrow> bool" where
  "evm_keeps_snapshots ops \<longleftrightarrow>
     (\<forall>db a. mem_snapshots (snd (evm_basic ops db a)) = mem_snapshots db) \<and>
     (\<forall>env te db. mem_snapshots (snd (transact_commit ops env te db)) = mem_snapshots db)"

lemma transact_db: "transact ops env te tx n ex = Some (outcome, ex') \<Longrightarrow> ex_db ex' = snd (transact_commit ops env te (ex_db ex))"
  by (auto simp: transact_def Let_def split: prod.splits sum.splits EVMError.splits)

lemma next_outcome_snapshots:
  assumes keeps: "evm_keeps_snapshots ops" and run: "next_outcome cr ops validate env tx ex = Some (outcome, ex')"
  shows "mem_snapshots (ex_db ex') = mem_snapshots (ex_db ex)"
proof -
  let ?db = "snd (evm_basic ops (ex_db ex) (sender (pending_transaction tx)))"
  have basic: "mem_snapshots ?db = mem_snapshots (ex_db ex)" using keeps by (simp add: evm_keeps_snapshots_def)
  from run consider "ex_db ex' = ?db" | te where "ex_db ex' = snd (transact_commit ops env te ?db)"
    by (auto simp: next_outcome_def Let_def dest!: transact_db
        split: prod.splits sum.splits bind_splits if_splits option.splits)
  then show ?thesis using basic keeps by cases (simp_all add: evm_keeps_snapshots_def)
qed

lemma execute_snapshots:
  assumes keeps: "evm_keeps_snapshots ops" and "execute cr hs ids ops validate env parent pending ex = Some (et, db)"
  shows "mem_snapshots db = mem_snapshots (ex_db ex)"
proof -
  obtain ex' c where loop: "execute_loop cr hs ops validate env (CANCUN ids \<le> env_spec_id env) pending ex
      (start_collecting (CANCUN ids \<le> env_spec_id env)) = Some (ex', c)" and db: "db = ex_db ex'"
    using assms(2) by (rule execute_parts)
  have "mem_snapshots (ex_db ex') = mem_snapshots (ex_db ex)"
    by (rule execute_loop_invariant [where P = "\<lambda>_ x _. mem_snapshots (ex_db x) = mem_snapshots (ex_db ex)", OF _ loop])
      (simp_all add: next_outcome_snapshots [OF keeps])
  then show ?thesis by (simp add: db)
qed

lemma mine_snapshots:
  assumes "evm_keeps_snapshots (np_evm np)" and "do_mine_block np rnd now pending b = Some (out, b')"
  shows "mem_snapshots (bk_db b') = mem_snapshots (bk_db b)"
  using assms(2) by (rule do_mine_block_parts) (simp add: db_insert_block_hash_def execute_snapshots [OF assms(1)])

lemma mine_each_snapshots:
  assumes "evm_keeps_snapshots (np_evm np)"
  shows "mine_each np txs i steps b = Some b' \<Longrightarrow> mem_snapshots (bk_db b') = mem_snapshots (bk_db b)"
proof (induction steps arbitrary: i b)
  case (Cons p rest)
  obtain rnd now where p: "p = (rnd, now)" by (cases p)
  from Cons.prems obtain out b1 where "do_mine_block np rnd now (txs i) b = Some (out, b1)"
    and "mine_each np txs (i + 1) rest b1 = Some b'" by (auto simp: p split: bind_splits)
  then show ?case using Cons.IH mine_snapshots [OF assms] by simp
qed simp

lemma create_snapshot_parts:
  assumes "create_state_snapshot b = (i, b1)" and "snapshots_ok (mem_snapshots (bk_db b))"
    and "snap_id (mem_snapshots (bk_db b)) \<noteq> - 1"
  shows "bk_storage b1 = bk_storage b" and "hm_get (active_state_snapshots b1) i = Some (best_number (bk_storage b), best_hash (bk_storage b))"
    and "snap_get i (mem_snapshots (bk_db b1)) = Some (inner (bk_db b))" and "snapshots_ok (mem_snapshots (bk_db b1))"
    and "i \<noteq> - 1"
proof -
  have "i = snap_id (mem_snapshots (bk_db b))" "mem_snapshots (bk_db b1) = snd (snap_insert (inner (bk_db b)) (mem_snapshots (bk_db b)))"
    using assms(1) snap_insert_simps(1) [OF assms(3), of "inner (bk_db b)"]
    by (auto simp: create_state_snapshot_def snapshot_state_def split: prod.splits)
  with assms(2,3) show "snap_get i (mem_snapshots (bk_db b1)) = Some (inner (bk_db b))"
    and "snapshots_ok (mem_snapshots (bk_db b1))" and "i \<noteq> - 1"
    by (simp_all add: snap_insert_simps snap_insert_ok)
  show "bk_storage b1 = bk_storage b"
    and "hm_get (active_state_snapshots b1) i = Some (best_number (bk_storage b), best_hash (bk_storage b))"
    using assms(1) by (auto simp: create_state_snapshot_def cont_simps split: prod.splits)
qed

text \<open>C4. A revert undoes mining. After a snapshot any number of blocks is mined, with any transactions;
  reverting to the snapshot then succeeds, the database has the contents it had, the best block is the one it
  was, and every number has the block it had or none. (Running transactions must leave the
  snapshots of the database alone, and the numbers of blocks and snapshots must not run out.)\<close>

theorem revert_after_mining:
  assumes hash: "hash_gives_number (np_hashing np)" and reach: "reachable_backend np b"
    and keeps: "evm_keeps_snapshots (np_evm np)" and snaps: "snapshots_ok (mem_snapshots (bk_db b))"
      "snap_id (mem_snapshots (bk_db b)) \<noteq> - 1"
    and create: "create_state_snapshot b = (i, b1)" and mined: "mine_each np txs 0 steps b1 = Some b2"
    and room: "unat (best_number (bk_storage b)) + length steps + 1 < 2 ^ 64"
  shows "\<exists>b3. revert_state_snapshot np now i b2 = Some (Inr True, b3) \<and> inner (bk_db b3) = inner (bk_db b) \<and>
    best_number (bk_storage b3) = best_number (bk_storage b) \<and> best_hash (bk_storage b3) = best_hash (bk_storage b) \<and>
    (\<forall>n. map_option header (get_block b3 (NumberId (Number n))) = map_option header (get_block b (NumberId (Number n))))"
proof -
  let ?n = "best_number (bk_storage b)" and ?h = "best_hash (bk_storage b)"
  note c = create_snapshot_parts [OF create snaps]
  have "reachable_backend np b1" using reach create by (blast intro: reachable_backend.step backend_step.snapshot)
  from mine_each_chain [OF hash mined this] room
  have m: "reachable_backend np b2" "extends_chain (bk_storage b) (bk_storage b2)"
    "active_state_snapshots b2 = active_state_snapshots b1" by (simp_all add: c(1))
  have ok: "backend_ok np b" and ok2: "backend_ok np b2" using reachable_ok hash reach m(1) by blast+
  have "unat ?n + 1 < 2 ^ LENGTH(64)" using room by simp
  then have "checked_add ?n 1 = Some (?n + 1)" by (simp add: checked_add_def)
  then obtain s where s: "revert_blocks (np_crypto np) ?n ?h (bk_storage b2) = Some s" by (simp add: revert_blocks_def Let_def)
  note cut = revert_blocks_cut [OF s]
  have ch2: "chain_ok (np_hashing np) 0 (bk_storage b2)" using ok2 by (simp add: backend_ok_def storage_ok_def)
  have best: "hm_get (hashes (bk_storage b)) ?n = Some ?h" and st: "header_at (bk_storage b) ?h \<noteq> None"
    using ok chain_okD(3) by (auto simp: backend_ok_def storage_ok_def)
  from m(2) best have "hm_get (hashes (bk_storage b2)) ?n = Some ?h"
    and "header_at (bk_storage b2) ?h = header_at (bk_storage b) ?h"
    unfolding extends_chain_def by (metis order_refl)+
  with cut_keeps_low [OF ch2 cut order_refl] st have "header_at s ?h \<noteq> None" by simp
  then obtain blk where blk: "get_block_by_hash s ?h = Some blk" by (auto simp: header_get_block)
  have "mem_snapshots (bk_db b2) = mem_snapshots (bk_db b1)" by (rule mine_each_snapshots [OF keeps mined])
  then have snap2: "snap_get i (mem_snapshots (bk_db b2)) = Some (inner (bk_db b))" "snapshots_ok (mem_snapshots (bk_db b2))"
    using c by simp_all
  obtain r db where rs: "revert_state i RevertRemove (bk_db b2) = (r, db)" by (rule prod.exhaust)
  then have r: "r" "inner db = inner (bk_db b)" using revert_state_get(1,2) [OF snap2(2) c(5)] snap2(1) by auto
  obtain b3 where b3: "revert_state_snapshot np now i b2 = Some (Inr True, b3)" "bk_storage b3 = s" "bk_db b3 = db"
    using r(1) unfolding revert_state_snapshot_def m(3) c(2) by (simp add: s blk rs Let_def)
  have "map_option header (get_block b3 (NumberId (Number n))) = map_option header (get_block b (NumberId (Number n)))" for n
    using cut_get_block [OF ok2, of ?n ?h b3 n] cut extends_get_block [OF m(2), of n] ok_get_block_None [OF ok, of n]
    by (auto simp: b3(2) not_le)
  with b3 r(2) cut show ?thesis by (auto simp: cut_at_def)
qed

theorem revert_after_mining_witness:
  "\<exists>(b :: (nat, unit, unit) Backend) b1 b2 b3. create_state_snapshot b = (0, b1) \<and>
     mine_each sample_node (\<lambda>_. [sample_pool_tx 4]) 0 [(9, 101)] b1 = Some b2 \<and> best_number (bk_storage b2) = 1 \<and>
     revert_state_snapshot sample_node 120 0 b2 = Some (Inr True, b3) \<and> best_number (bk_storage b3) = 0 \<and>
     inner (bk_db b3) = inner (bk_db b)"
proof -
  obtain b0 out b2 where start: "sample_start = Some (Inr b0)"
    and mined: "do_mine_block sample_node 9 101 [sample_pool_tx 4] (snd (create_state_snapshot b0)) = Some (out, b2)"
    and best: "best_number (bk_storage b2) = 1" and id: "fst (create_state_snapshot b0) = 0"
    by (rule sample_backends)
  note p = sample_start_parts [OF start]
  have create: "create_state_snapshot b0 = (0, snd (create_state_snapshot b0))" using id by (metis prod.collapse)
  have keeps: "evm_keeps_snapshots (np_evm sample_node)" by (simp add: evm_keeps_snapshots_def sample_node_def mem_evm_def)
  have each: "mine_each sample_node (\<lambda>_. [sample_pool_tx 4]) 0 [(9, 101)] (snd (create_state_snapshot b0)) = Some b2"
    using mined by simp
  have "snapshots_ok (mem_snapshots (bk_db b0))" "snap_id (mem_snapshots (bk_db b0)) \<noteq> - 1"
    "unat (best_number (bk_storage b0)) + length [(9 :: B256, 101 :: u64)] + 1 < 2 ^ 64"
    by (simp_all add: p no_snapshots_def snapshots_ok_def snap_get_def)
  from revert_after_mining [OF sample_hash p(1) keeps this(1,2) create each this(3), of 120] obtain b3 where
    "revert_state_snapshot sample_node 120 0 b2 = Some (Inr True, b3)" "best_number (bk_storage b3) = 0"
    "inner (bk_db b3) = inner (bk_db b0)" unfolding p(2) by blast
  with create each best show ?thesis by blast
qed

text \<open>C11. A reorganisation builds the chain it says: it keeps the blocks up to the common one, mines as
  many blocks on top of it as it is given steps, and leaves the node in a reachable state, so that the new
  chain is linked as well.\<close>

theorem reorg_rebuilds_chain:
  assumes hash: "hash_gives_number (np_hashing np)" and reach: "reachable_backend np b"
    and on: "on_chain (np_hashing np) common (bk_storage b)"
    and room: "unat (number (header common)) + length steps < 2 ^ 64"
    and run: "reorg np now steps tx_pairs common b = Some (Inr (), b')"
  shows "reachable_backend np b' \<and>
    unat (best_number (bk_storage b')) = unat (number (header common)) + length steps \<and>
    (\<forall>n\<le>number (header common).
      map_option header (get_block b' (NumberId (Number n))) = map_option header (get_block b (NumberId (Number n))))"
proof -
  from run obtain b1 where roll: "rollback np now common b = Some (Inr (), b1)"
    and mined: "mine_each np (\<lambda>i. case hm_get tx_pairs i of Some txs \<Rightarrow> txs | None \<Rightarrow> []) 0 steps b1 = Some b'"
    by (auto simp: reorg_def split: bind_splits sum.splits)
  have ok: "backend_ok np b" by (rule reachable_ok [OF reach hash])
  have cut: "cut_at (number (header common)) (hash_slow (np_hashing np) (header common)) (bk_storage b) (bk_storage b1)"
    using rollback_keeps_ok [OF ok on roll] by simp
  then have best: "best_number (bk_storage b1) = number (header common)" by (simp add: cut_at_def)
  have "reachable_backend np b1" using reach on roll by (blast intro: reachable_backend.step backend_step.roll)
  from mine_each_chain [OF hash mined this] room best
  have m: "reachable_backend np b'" "unat (best_number (bk_storage b')) = unat (number (header common)) + length steps"
    "extends_chain (bk_storage b1) (bk_storage b')" by simp_all
  have "map_option header (get_block b' (NumberId (Number n))) = map_option header (get_block b (NumberId (Number n)))"
    if "n \<le> number (header common)" for n
    using that extends_get_block [OF m(3), of n] cut_get_block [OF ok cut, of n] by (simp add: best)
  with m show ?thesis by blast
qed

theorem reorg_rebuilds_chain_witness:
  "\<exists>(b :: (nat, unit, unit) Backend) common b'. reachable_backend sample_node b \<and> get_block b (NumberId (Number 0)) = Some common \<and>
     reorg sample_node 110 [(11, 120)] [] common b = Some (Inr (), b') \<and> reachable_backend sample_node b' \<and>
     unat (best_number (bk_storage b')) = 1"
proof -
  obtain b0 out b2 where start: "sample_start = Some (Inr b0)"
    and mined: "do_mine_block sample_node 9 101 [sample_pool_tx 4] (snd (create_state_snapshot b0)) = Some (out, b2)"
    and reorg: "map_option fst (sample_reorg b2) = Some (Inr ())"
    by (rule sample_backends)
  note r = sample_mined_reachable [OF start mined]
  have ok: "backend_ok sample_node b2" by (rule reachable_ok [OF r sample_hash])
  obtain h common where c: "hm_get (hashes (bk_storage b2)) 0 = Some h" "get_block b2 (NumberId (Number 0)) = Some common"
    "header_at (bk_storage b2) h = Some (header common)" "number (header common) = 0" "hash_slow (np_hashing sample_node) (header common) = h"
    using ok word_zero_le by (rule ok_get_block)
  moreover have "h = genesis_hash (bk_storage b2)" using ok c(1) by (simp add: backend_ok_def storage_ok_def)
  ultimately have "get_block b2 (NumberId Earliest) = Some common" by (simp add: get_block_def)
  then obtain b' where run: "reorg sample_node 110 [(11, 120)] [] common b2 = Some (Inr (), b')"
    using reorg by (auto simp: sample_reorg_def)
  have "on_chain (np_hashing sample_node) common (bk_storage b2)" "unat (number (header common)) + length [(11 :: B256, 120 :: u64)] < 2 ^ 64"
    using c by (simp_all add: on_chain_def)
  from reorg_rebuilds_chain [OF sample_hash r this run] r c(2,4) run show ?thesis by auto
qed

end
