(* ===== verification/Pool_Pending.thy ===== *)
theory Pool_Pending
  imports Pool_Types
begin

text \<open>
  The waiting half of the pool, \<open>PendingTransactions\<close> and \<open>PendingPoolTransaction\<close> of
  \<open>crates/anvil/src/eth/pool/transactions.rs\<close>. The instant a transaction was added is only printed
  and is left out. The lemmas show that the index of missing markers and the queue agree after
  every operation, so that the lookups the code expects to succeed do.
\<close>

section \<open>State and operations\<close>

record PendingPoolTransaction =
  p_transaction :: PoolTransaction
  missing_markers :: "TxMarker list"

definition new_PendingPoolTransaction ::
    "PoolTransaction \<Rightarrow> (TxMarker, TxHash) hmap \<Rightarrow> PendingPoolTransaction" where
  "new_PendingPoolTransaction tx provided =
     \<lparr>p_transaction = tx,
      missing_markers = hs_from (filter (\<lambda>m. \<not> hm_contains provided m) (requires tx))\<rparr>"

definition mark :: "TxMarker \<Rightarrow> PendingPoolTransaction \<Rightarrow> PendingPoolTransaction" where
  "mark m p = p\<lparr>missing_markers := hs_remove m (missing_markers p)\<rparr>"

definition is_ready :: "PendingPoolTransaction \<Rightarrow> bool" where
  "is_ready p = (missing_markers p = [])"

abbreviation p_hash :: "PendingPoolTransaction \<Rightarrow> TxHash" where
  "p_hash p \<equiv> tx_hash (p_transaction p)"

record PendingTransactions =
  required_markers :: "(TxMarker, TxHash list) hmap"
  waiting_markers :: "(TxMarker list, TxHash) hmap"
  waiting_queue :: "(TxHash, PendingPoolTransaction) hmap"

definition empty_pending :: PendingTransactions where
  "empty_pending = \<lparr>required_markers = [], waiting_markers = [], waiting_queue = []\<rparr>"

definition pending_len :: "PendingTransactions \<Rightarrow> nat" where
  "pending_len s = length (waiting_queue s)"

definition pending_is_empty :: "PendingTransactions \<Rightarrow> bool" where
  "pending_is_empty s = (waiting_queue s = [])"

definition pending_clear :: "PendingTransactions \<Rightarrow> PendingTransactions" where
  "pending_clear s = s\<lparr>required_markers := [], waiting_markers := [], waiting_queue := []\<rparr>"

definition pending_transactions_iter ::
    "(TxHash list \<Rightarrow> TxHash list) \<Rightarrow> PendingTransactions \<Rightarrow> PoolTransaction list" where
  "pending_transactions_iter order s =
     List.map_filter (\<lambda>h. map_option p_transaction (hm_get (waiting_queue s) h))
       (order (hm_keys (waiting_queue s)))"

definition require_marker ::
    "TxHash \<Rightarrow> (TxMarker, TxHash list) hmap \<Rightarrow> TxMarker \<Rightarrow> (TxMarker, TxHash list) hmap" where
  "require_marker h rm m =
     hm_insert m (hs_insert h (case hm_get rm m of None \<Rightarrow> [] | Some hs \<Rightarrow> hs)) rm"

definition insert_waiting :: "PendingPoolTransaction \<Rightarrow> PendingTransactions \<Rightarrow> PendingTransactions" where
  "insert_waiting tx s =
     \<lparr>required_markers = foldl (require_marker (p_hash tx)) (required_markers s) (missing_markers tx),
      waiting_markers = hm_insert (provides (p_transaction tx)) (p_hash tx) (waiting_markers s),
      waiting_queue = hm_insert (p_hash tx) tx (waiting_queue s)\<rparr>"

definition pending_add_transaction ::
    "PendingPoolTransaction \<Rightarrow> PendingTransactions \<Rightarrow> ((PoolError + unit) \<times> PendingTransactions) option"
where
  "pending_add_transaction tx s =
     (if is_ready tx then None
      else if hm_contains (waiting_queue s) (p_hash tx) then None
      else case Option.bind (hm_get (waiting_markers s) (provides (p_transaction tx)))
                  (hm_get (waiting_queue s)) of
             Some replace \<Rightarrow>
               (if tx_gas_price (p_transaction tx) < tx_gas_price (p_transaction replace)
                then Some (Inl (ReplacementUnderpriced (p_transaction tx)), s)
                else Some (Inr (), insert_waiting tx s))
           | None \<Rightarrow> Some (Inr (), insert_waiting tx s))"

definition pending_contains :: "PendingTransactions \<Rightarrow> TxHash \<Rightarrow> bool" where
  "pending_contains s h = hm_contains (waiting_queue s) h"

definition pending_get :: "PendingTransactions \<Rightarrow> TxHash \<Rightarrow> PendingPoolTransaction option" where
  "pending_get s h = hm_get (waiting_queue s) h"

definition unqueue :: "TxHash \<Rightarrow> PendingPoolTransaction \<Rightarrow> PendingTransactions \<Rightarrow> PendingTransactions" where
  "unqueue h tx s =
     s\<lparr>waiting_queue := hm_remove h (waiting_queue s),
       waiting_markers := hm_remove (provides (p_transaction tx)) (waiting_markers s)\<rparr>"

text \<open>The body of \<open>mark_and_unlock\<close> for one marker: \<open>None\<close> is the failed \<open>expect("tx is included;")\<close>.\<close>

fun mark_hashes ::
    "TxMarker \<Rightarrow> TxHash list \<Rightarrow> PendingTransactions \<Rightarrow>
     (PendingPoolTransaction list \<times> PendingTransactions) option" where
  "mark_hashes m [] s = Some ([], s)"
| "mark_hashes m (h # hs) s =
     (case hm_get (waiting_queue s) h of
        None \<Rightarrow> None
      | Some tx \<Rightarrow>
          (let tx' = mark m tx
           in if is_ready tx'
              then do { (u, s') \<leftarrow> mark_hashes m hs (unqueue h tx' s); Some (tx' # u, s') }
              else mark_hashes m hs (s\<lparr>waiting_queue := hm_insert h tx' (waiting_queue s)\<rparr>)))"

fun mark_and_unlock ::
    "(TxHash list \<Rightarrow> TxHash list) \<Rightarrow> TxMarker list \<Rightarrow> PendingTransactions \<Rightarrow>
     (PendingPoolTransaction list \<times> PendingTransactions) option" where
  "mark_and_unlock order [] s = Some ([], s)"
| "mark_and_unlock order (m # ms) s =
     (case hm_get (required_markers s) m of
        None \<Rightarrow> mark_and_unlock order ms s
      | Some hs \<Rightarrow> do {
          (u, s') \<leftarrow> mark_hashes m (order hs) (s\<lparr>required_markers := hm_remove m (required_markers s)\<rparr>);
          (v, s'') \<leftarrow> mark_and_unlock order ms s';
          Some (u @ v, s'')
        })"

definition release_marker ::
    "TxHash \<Rightarrow> (TxMarker, TxHash list) hmap \<Rightarrow> TxMarker \<Rightarrow> (TxMarker, TxHash list) hmap" where
  "release_marker h rm m =
     (case hm_get rm m of
        None \<Rightarrow> rm
      | Some hs \<Rightarrow> if hs_remove h hs = [] then hm_remove m rm else hm_insert m (hs_remove h hs) rm)"

definition remove_waiting :: "TxHash \<Rightarrow> PendingPoolTransaction \<Rightarrow> PendingTransactions \<Rightarrow> PendingTransactions" where
  "remove_waiting h tx s =
     (unqueue h tx s)\<lparr>required_markers :=
        foldl (release_marker h) (required_markers s) (missing_markers tx)\<rparr>"

fun pending_remove :: "TxHash list \<Rightarrow> PendingTransactions \<Rightarrow> PoolTransaction list \<times> PendingTransactions" where
  "pending_remove [] s = ([], s)"
| "pending_remove (h # hs) s =
     (case hm_get (waiting_queue s) h of
        None \<Rightarrow> pending_remove hs s
      | Some tx \<Rightarrow>
          (let (removed, s') = pending_remove hs (remove_waiting h tx s)
           in (p_transaction tx # removed, s')))"

lemmas pending_defs = mark_def is_ready_def unqueue_def insert_waiting_def remove_waiting_def

section \<open>The queue as a map of transactions\<close>

text \<open>The transactions that wait, by hash, and the hashes indexed under a marker.\<close>

definition waiting_tx :: "PendingTransactions \<Rightarrow> TxHash \<Rightarrow> PoolTransaction option" where
  "waiting_tx s h = map_option p_transaction (hm_get (waiting_queue s) h)"

definition waiting_on :: "PendingTransactions \<Rightarrow> TxMarker \<Rightarrow> TxHash set" where
  "waiting_on s m = (case hm_get (required_markers s) m of None \<Rightarrow> {} | Some hs \<Rightarrow> set hs)"

definition misses :: "PendingTransactions \<Rightarrow> TxMarker \<Rightarrow> TxHash set" where
  "misses s m = {h. \<exists>p. hm_get (waiting_queue s) h = Some p \<and> m \<in> set (missing_markers p)}"

definition queue_ok :: "PendingTransactions \<Rightarrow> bool" where
  "queue_ok s \<longleftrightarrow>
     (\<forall>h p. hm_get (waiting_queue s) h = Some p \<longrightarrow>
        p_hash p = h \<and> missing_markers p \<noteq> [] \<and> set (missing_markers p) \<subseteq> set (requires (p_transaction p))) \<and>
     (\<forall>m hs. hm_get (required_markers s) m = Some hs \<longrightarrow> distinct hs \<and> hs \<noteq> []) \<and>
     (\<forall>v h. hm_get (waiting_markers s) v = Some h \<longrightarrow>
        (\<exists>p. hm_get (waiting_queue s) h = Some p \<and> provides (p_transaction p) = v))"

definition pending_inv :: "PendingTransactions \<Rightarrow> bool" where
  "pending_inv s \<longleftrightarrow> queue_ok s \<and> (\<forall>m. waiting_on s m = misses s m)"

lemma queue_ok_waiting:
  "queue_ok s \<Longrightarrow> hm_get (waiting_queue s) h = Some p \<Longrightarrow>
   p_hash p = h \<and> missing_markers p \<noteq> [] \<and> set (missing_markers p) \<subseteq> set (requires (p_transaction p))"
  by (simp add: queue_ok_def)

lemma queue_ok_marker:
  "queue_ok s \<Longrightarrow> hm_get (waiting_markers s) v = Some h \<Longrightarrow> hm_get (waiting_queue s) h = Some p \<Longrightarrow>
   provides (p_transaction p) = v"
  by (fastforce simp: queue_ok_def)

lemma queue_okI:
  assumes "\<And>h p. hm_get (waiting_queue s) h = Some p \<Longrightarrow>
      p_hash p = h \<and> missing_markers p \<noteq> [] \<and> set (missing_markers p) \<subseteq> set (requires (p_transaction p))"
    and "\<And>m hs. hm_get (required_markers s) m = Some hs \<Longrightarrow> distinct hs \<and> hs \<noteq> []"
    and "\<And>v h. hm_get (waiting_markers s) v = Some h \<Longrightarrow>
      \<exists>p. hm_get (waiting_queue s) h = Some p \<and> provides (p_transaction p) = v"
  shows "queue_ok s"
  using assms by (simp add: queue_ok_def)

text \<open>The transactions \<open>u\<close> leave the queue with every marker ticked off; the others stay.\<close>

definition unlocks_to :: "PendingTransactions \<Rightarrow> PendingPoolTransaction list \<Rightarrow> PendingTransactions \<Rightarrow> bool" where
  "unlocks_to s u s' \<longleftrightarrow>
     (\<forall>p\<in>set u. is_ready p \<and> waiting_tx s (p_hash p) = Some (p_transaction p)) \<and>
     distinct (map p_hash u) \<and>
     waiting_tx s' = waiting_tx s |` (- p_hash ` set u)"

lemma unlocks_to_refl: "unlocks_to s [] s"
  by (simp add: unlocks_to_def restrict_map_def)

lemma unlocks_to_trans:
  assumes "unlocks_to s u s'" and "unlocks_to s' v s''"
  shows "unlocks_to s (u @ v) s''"
proof -
  have v: "is_ready p \<and> p_hash p \<notin> p_hash ` set u \<and> waiting_tx s (p_hash p) = Some (p_transaction p)"
    if "p \<in> set v" for p
    using assms that by (force simp: unlocks_to_def restrict_map_def split: if_splits)
  have "waiting_tx s'' = waiting_tx s |` (- p_hash ` set (u @ v))"
    using assms by (auto simp: unlocks_to_def restrict_map_def fun_eq_iff)
  moreover have "distinct (map p_hash (u @ v))"
    using assms v by (fastforce simp: unlocks_to_def)
  moreover have "\<forall>p\<in>set (u @ v). is_ready p \<and> waiting_tx s (p_hash p) = Some (p_transaction p)"
    using assms(1) v by (auto simp: unlocks_to_def)
  ultimately show ?thesis by (simp add: unlocks_to_def)
qed

section \<open>Ticking off a marker\<close>

text \<open>Between taking a marker out of the index and ticking it off in the last transaction that
  waits for it, the index is exact for every other marker, and \<open>hs\<close> are the ones still to visit.\<close>

definition ticking :: "TxMarker \<Rightarrow> TxHash list \<Rightarrow> PendingTransactions \<Rightarrow> bool" where
  "ticking m hs s \<longleftrightarrow> queue_ok s \<and> distinct hs \<and> misses s m = set hs \<and> waiting_on s m = {} \<and>
     (\<forall>m'. m' \<noteq> m \<longrightarrow> waiting_on s m' = misses s m')"

lemma ticking_done: "ticking m [] s \<Longrightarrow> pending_inv s"
  by (auto simp: ticking_def pending_inv_def)

lemma ticking_head:
  assumes "ticking m (h # hs) s"
  obtains tx where "hm_get (waiting_queue s) h = Some tx" "m \<in> set (missing_markers tx)" "p_hash tx = h"
    "set (missing_markers tx) \<subseteq> set (requires (p_transaction tx))"
proof -
  have "h \<in> misses s m" and ok: "queue_ok s" using assms by (simp_all add: ticking_def)
  then obtain tx where tx: "hm_get (waiting_queue s) h = Some tx" "m \<in> set (missing_markers tx)"
    by (auto simp: misses_def)
  from that [OF tx] queue_ok_waiting [OF ok tx(1)] show thesis by simp
qed

lemma ticking_ready:
  assumes t: "ticking m (h # hs) s" and tx: "hm_get (waiting_queue s) h = Some tx"
    and r: "is_ready (mark m tx)"
  shows "ticking m hs (unqueue h (mark m tx) s)"
proof -
  have only: "set (missing_markers tx) \<subseteq> {m}"
    using r by (auto simp: pending_defs filter_empty_conv removeAll_filter_not_eq)
  have misses: "misses (unqueue h (mark m tx) s) m' = misses s m' - {h}" for m'
    by (auto simp: misses_def unqueue_def cont_simps)
  have other: "h \<notin> misses s m'" if "m' \<noteq> m" for m'
    using only tx that by (auto simp: misses_def)
  have on: "waiting_on (unqueue h (mark m tx) s) = waiting_on s"
    by (auto simp: waiting_on_def unqueue_def fun_eq_iff)
  have ok: "queue_ok s" using t by (simp add: ticking_def)
  have "queue_ok (unqueue h (mark m tx) s)"
    using queue_ok_marker [OF ok _ tx] ok
    by (auto simp: queue_ok_def unqueue_def cont_simps mark_def split: if_splits)
  with t misses on other show ?thesis
    by (auto simp: ticking_def)
qed

lemma ticking_unready:
  assumes t: "ticking m (h # hs) s" and tx: "hm_get (waiting_queue s) h = Some tx"
    and r: "\<not> is_ready (mark m tx)"
  shows "ticking m hs (s\<lparr>waiting_queue := hm_insert h (mark m tx) (waiting_queue s)\<rparr>)" (is "ticking m hs ?s")
proof -
  have misses: "misses ?s m' = (if m' = m then misses s m - {h} else misses s m')" for m'
    using tx by (auto simp: misses_def cont_simps mark_def)
  have on: "waiting_on ?s = waiting_on s"
    by (auto simp: waiting_on_def fun_eq_iff)
  have ok: "queue_ok s" using t by (simp add: ticking_def)
  have "queue_ok ?s"
    using queue_ok_marker [OF ok _ tx] ok tx r
    by (auto simp: queue_ok_def cont_simps pending_defs split: if_splits)
  with t misses on show ?thesis
    by (auto simp: ticking_def)
qed

lemma mark_hashes_ok:
  "ticking m hs s \<Longrightarrow>
   \<exists>u s'. mark_hashes m hs s = Some (u, s') \<and> pending_inv s' \<and> unlocks_to s u s' \<and>
     required_markers s' = required_markers s"
proof (induction hs arbitrary: s)
  case Nil
  then show ?case by (simp add: ticking_done unlocks_to_refl)
next
  case (Cons h hs)
  from Cons.prems obtain tx where tx: "hm_get (waiting_queue s) h = Some tx" and h: "p_hash tx = h"
    by (rule ticking_head)
  show ?case
  proof (cases "is_ready (mark m tx)")
    case True
    from Cons.IH [OF ticking_ready [OF Cons.prems tx True]]
    obtain u s' where rest: "mark_hashes m hs (unqueue h (mark m tx) s) = Some (u, s')"
      and inv: "pending_inv s'" and u: "unlocks_to (unqueue h (mark m tx) s) u s'"
      and req: "required_markers s' = required_markers (unqueue h (mark m tx) s)"
      by blast
    have "unlocks_to s [mark m tx] (unqueue h (mark m tx) s)"
      using tx h True
      by (auto simp: unlocks_to_def waiting_tx_def unqueue_def mark_def cont_simps restrict_map_def fun_eq_iff)
    from unlocks_to_trans [OF this u] True tx rest inv req show ?thesis
      by (simp add: unqueue_def)
  next
    case False
    let ?s = "s\<lparr>waiting_queue := hm_insert h (mark m tx) (waiting_queue s)\<rparr>"
    have "waiting_tx ?s = waiting_tx s"
      using tx by (auto simp: waiting_tx_def mark_def cont_simps fun_eq_iff)
    then have same: "unlocks_to ?s u s' = unlocks_to s u s'" for u s'
      by (simp add: unlocks_to_def)
    from Cons.IH [OF ticking_unready [OF Cons.prems tx False]] False tx same show ?thesis
      by simp
  qed
qed

lemma ticking_start:
  assumes "hash_order order" and inv: "pending_inv s" and hs: "hm_get (required_markers s) m = Some hs"
  shows "ticking m (order hs) (s\<lparr>required_markers := hm_remove m (required_markers s)\<rparr>)"
    (is "ticking m _ ?s")
proof -
  have ok: "queue_ok s" and eq: "\<And>m. waiting_on s m = misses s m"
    using inv by (simp_all add: pending_inv_def)
  have misses: "misses ?s = misses s"
    by (auto simp: misses_def fun_eq_iff)
  have "queue_ok ?s" and "distinct hs"
    using ok hs by (auto simp: queue_ok_def cont_simps split: if_splits)
  moreover have "waiting_on ?s m' = (if m' = m then {} else waiting_on s m')" for m'
    by (auto simp: waiting_on_def cont_simps)
  moreover have "misses s m = set hs"
    using eq [of m] hs by (simp add: waiting_on_def)
  ultimately show ?thesis
    using eq misses assms(1)
    by (simp add: ticking_def hash_order.distinct_order hash_order.set_order)
qed

lemma mark_and_unlock_ok:
  assumes "hash_order order"
  shows "pending_inv s \<Longrightarrow>
   \<exists>u s'. mark_and_unlock order ms s = Some (u, s') \<and> pending_inv s' \<and> unlocks_to s u s' \<and>
     dom (hm_get (required_markers s')) = dom (hm_get (required_markers s)) - set ms"
proof (induction ms arbitrary: s)
  case Nil
  then show ?case by (simp add: unlocks_to_refl)
next
  case (Cons m ms)
  show ?case
  proof (cases "hm_get (required_markers s) m")
    case None
    with Cons.IH [OF Cons.prems] show ?thesis
      by (auto simp: domIff)
  next
    case (Some hs)
    let ?s = "s\<lparr>required_markers := hm_remove m (required_markers s)\<rparr>"
    obtain u s1 where first: "mark_hashes m (order hs) ?s = Some (u, s1)" and i1: "pending_inv s1"
      and u: "unlocks_to ?s u s1" and r1: "required_markers s1 = required_markers ?s"
      using mark_hashes_ok [OF ticking_start [OF assms Cons.prems Some]] by blast
    obtain v s2 where rest: "mark_and_unlock order ms s1 = Some (v, s2)" and i2: "pending_inv s2"
      and v: "unlocks_to s1 v s2"
      and r2: "dom (hm_get (required_markers s2)) = dom (hm_get (required_markers s1)) - set ms"
      using Cons.IH [OF i1] by blast
    have "waiting_tx ?s = waiting_tx s"
      by (auto simp: waiting_tx_def fun_eq_iff)
    then have "unlocks_to s u s1"
      using u by (simp add: unlocks_to_def)
    from unlocks_to_trans [OF this v] first rest i2 r1 r2 Some show ?thesis
      by (auto simp: cont_simps)
  qed
qed

lemma length_hm_insert_present:
  "hm_get m k = Some v \<Longrightarrow> length (hm_insert k w m) = length m"
  by (induction m) (auto split: if_splits)

lemma mark_hashes_length:
  "mark_hashes m hs s = Some (u, s') \<Longrightarrow>
   length (waiting_queue s') + length u \<le> length (waiting_queue s)"
proof (induction hs arbitrary: s u)
  case Nil
  then show ?case by simp
next
  case (Cons h hs)
  from Cons.prems obtain tx where tx: "hm_get (waiting_queue s) h = Some tx"
    by (auto split: option.splits)
  show ?case
  proof (cases "is_ready (mark m tx)")
    case True
    with Cons.prems tx obtain v where v: "mark_hashes m hs (unqueue h (mark m tx) s) = Some (v, s')"
      and u: "u = mark m tx # v"
      by (auto simp: Let_def split: bind_splits)
    have "length (waiting_queue (unqueue h (mark m tx) s)) < length (waiting_queue s)"
      using tx by (simp add: unqueue_def length_hm_remove)
    with Cons.IH [OF v] u show ?thesis by simp
  next
    case False
    with Cons.prems tx Cons.IH show ?thesis
      by (force simp: length_hm_insert_present)
  qed
qed

lemma mark_and_unlock_length:
  "mark_and_unlock order ms s = Some (u, s') \<Longrightarrow>
   length (waiting_queue s') + length u \<le> length (waiting_queue s)"
proof (induction ms arbitrary: s u)
  case Nil
  then show ?case by simp
next
  case (Cons m ms)
  then show ?case
    by (fastforce split: option.splits bind_splits dest: mark_hashes_length)
qed

section \<open>Adding and removing\<close>

lemma hs_insert_twice [simp]: "hs_insert h (hs_insert h xs) = hs_insert h xs"
  by (simp add: hs_insert_def)

lemma get_require_markers:
  "hm_get (foldl (require_marker h) rm ms) m =
     (if m \<in> set ms
      then Some (hs_insert h (case hm_get rm m of None \<Rightarrow> [] | Some hs \<Rightarrow> hs)) else hm_get rm m)"
  by (induction ms arbitrary: rm) (auto simp: require_marker_def cont_simps)

lemma get_release_markers:
  "hm_get (foldl (release_marker h) rm ms) m =
     (if m \<in> set ms
      then Option.bind (hm_get rm m) (\<lambda>hs. if hs_remove h hs = [] then None else Some (hs_remove h hs))
      else hm_get rm m)"
proof (induction ms arbitrary: rm)
  case Nil
  then show ?case by simp
next
  case (Cons m' ms)
  have "hm_get (release_marker h rm m') m =
      (if m = m' then Option.bind (hm_get rm m) (\<lambda>hs. if hs_remove h hs = [] then None else Some (hs_remove h hs))
       else hm_get rm m)"
    by (auto simp: release_marker_def cont_simps split: option.splits)
  with Cons.IH show ?case
    by (auto split: bind_splits if_splits)
qed

lemma insert_waiting_inv:
  assumes inv: "pending_inv s" and new: "waiting_tx s (p_hash tx) = None"
    and tx: "missing_markers tx \<noteq> []" "set (missing_markers tx) \<subseteq> set (requires (p_transaction tx))"
  shows "pending_inv (insert_waiting tx s)" (is "pending_inv ?s")
proof -
  have none: "hm_get (waiting_queue s) (p_hash tx) = None"
    using new by (simp add: waiting_tx_def)
  have ok: "queue_ok s" and eq: "\<And>m. waiting_on s m = misses s m"
    using inv by (simp_all add: pending_inv_def)
  have "waiting_on ?s m = waiting_on s m \<union> (if m \<in> set (missing_markers tx) then {p_hash tx} else {})" for m
    by (auto simp: waiting_on_def insert_waiting_def get_require_markers split: option.splits)
  moreover have "misses ?s m = misses s m \<union> (if m \<in> set (missing_markers tx) then {p_hash tx} else {})" for m
    using none by (auto simp: misses_def insert_waiting_def cont_simps)
  moreover have "queue_ok ?s"
  proof (rule queue_okI)
    fix h p assume "hm_get (waiting_queue ?s) h = Some p"
    then show "p_hash p = h \<and> missing_markers p \<noteq> [] \<and> set (missing_markers p) \<subseteq> set (requires (p_transaction p))"
      using queue_ok_waiting [OF ok] tx by (auto simp: insert_waiting_def cont_simps split: if_splits)
  next
    fix m hs assume hs: "hm_get (required_markers ?s) m = Some hs"
    have "distinct xs" if "hm_get (required_markers s) m = Some xs" for xs
      using ok that by (simp add: queue_ok_def)
    then show "distinct hs \<and> hs \<noteq> []"
      using hs ok by (auto simp: insert_waiting_def get_require_markers hs_insert_def queue_ok_def
          split: if_splits option.splits)
  next
    fix v h assume "hm_get (waiting_markers ?s) v = Some h"
    then show "\<exists>p. hm_get (waiting_queue ?s) h = Some p \<and> provides (p_transaction p) = v"
      using ok none by (auto simp: insert_waiting_def cont_simps queue_ok_def split: if_splits) force
  qed
  ultimately show ?thesis
    using eq by (simp add: pending_inv_def)
qed

lemma remove_waiting_inv:
  assumes inv: "pending_inv s" and tx: "hm_get (waiting_queue s) h = Some tx"
  shows "pending_inv (remove_waiting h tx s)" (is "pending_inv ?s")
proof -
  have ok: "queue_ok s" and eq: "\<And>m. waiting_on s m = misses s m"
    using inv by (simp_all add: pending_inv_def)
  have "waiting_on ?s m = waiting_on s m - {h}" for m
  proof (cases "m \<in> set (missing_markers tx)")
    case True
    then show ?thesis
      by (auto simp: waiting_on_def remove_waiting_def get_release_markers removeAll_filter_not_eq
          filter_empty_conv split: option.splits bind_splits)
  next
    case False
    then have "h \<notin> waiting_on s m" using eq [of m] tx by (auto simp: misses_def)
    with False show ?thesis
      by (simp add: waiting_on_def remove_waiting_def get_release_markers)
  qed
  moreover have "misses ?s m = misses s m - {h}" for m
    by (auto simp: misses_def remove_waiting_def unqueue_def cont_simps)
  moreover have "queue_ok ?s"
  proof (rule queue_okI)
    fix h' p assume "hm_get (waiting_queue ?s) h' = Some p"
    then show "p_hash p = h' \<and> missing_markers p \<noteq> [] \<and> set (missing_markers p) \<subseteq> set (requires (p_transaction p))"
      using queue_ok_waiting [OF ok] by (auto simp: remove_waiting_def unqueue_def cont_simps split: if_splits)
  next
    fix m hs assume "hm_get (required_markers ?s) m = Some hs"
    then show "distinct hs \<and> hs \<noteq> []"
      using ok by (auto simp: remove_waiting_def get_release_markers queue_ok_def distinct_removeAll
          split: if_splits bind_splits)
  next
    fix v h' assume "hm_get (waiting_markers ?s) v = Some h'"
    then show "\<exists>p. hm_get (waiting_queue ?s) h' = Some p \<and> provides (p_transaction p) = v"
      using ok queue_ok_marker [OF ok _ tx]
      by (auto simp: remove_waiting_def unqueue_def cont_simps queue_ok_def split: if_splits)
  qed
  ultimately show ?thesis
    using eq by (simp add: pending_inv_def)
qed

lemma remove_waiting_tx: "waiting_tx (remove_waiting h tx s) = (waiting_tx s)(h := None)"
  by (auto simp: waiting_tx_def remove_waiting_def unqueue_def cont_simps fun_eq_iff)

lemma remove_waiting_required:
  "dom (hm_get (required_markers (remove_waiting h tx s))) \<subseteq> dom (hm_get (required_markers s))"
  by (auto simp: remove_waiting_def get_release_markers split: if_splits bind_splits)

lemma pending_remove_ok:
  "pending_inv s \<Longrightarrow> pending_remove hs s = (removed, s') \<Longrightarrow>
   pending_inv s' \<and> waiting_tx s' = waiting_tx s |` (- set hs) \<and>
   set removed = ran (waiting_tx s |` set hs) \<and>
   dom (hm_get (required_markers s')) \<subseteq> dom (hm_get (required_markers s))"
proof (induction hs arbitrary: s removed)
  case Nil
  then show ?case by (auto simp: restrict_map_def)
next
  case (Cons h hs)
  show ?case
  proof (cases "hm_get (waiting_queue s) h")
    case None
    then have "waiting_tx s |` (- set (h # hs)) = waiting_tx s |` (- set hs)"
      and "waiting_tx s |` set (h # hs) = waiting_tx s |` set hs"
      by (auto simp: restrict_map_def waiting_tx_def fun_eq_iff)
    with Cons None show ?thesis by simp
  next
    case (Some tx)
    let ?s = "remove_waiting h tx s"
    obtain rs where rs: "pending_remove hs ?s = (rs, s')" and removed: "removed = p_transaction tx # rs"
      using Cons.prems Some by (auto split: prod.splits)
    note IH = Cons.IH [OF remove_waiting_inv [OF Cons.prems(1) Some] rs]
    have "waiting_tx s h = Some (p_transaction tx)"
      using Some by (simp add: waiting_tx_def)
    then have "ran (waiting_tx s |` set (h # hs)) =
        insert (p_transaction tx) (ran ((waiting_tx s)(h := None) |` set hs))"
      by (auto simp: ran_def restrict_map_def split: if_splits)
    moreover have "(waiting_tx s)(h := None) |` (- set hs) = waiting_tx s |` (- set (h # hs))"
      by (auto simp: restrict_map_def fun_eq_iff)
    ultimately show ?thesis
      using IH removed remove_waiting_required [of h tx s]
      unfolding remove_waiting_tx by (simp only: list.set) (meson subset_trans)
  qed
qed

lemma pending_add_transaction_cases:
  assumes "pending_add_transaction tx s = Some (r, s')"
  obtains (underpriced) "r = Inl (ReplacementUnderpriced (p_transaction tx))" "s' = s"
    | (added) "r = Inr ()" "s' = insert_waiting tx s" "\<not> is_ready tx" "waiting_tx s (p_hash tx) = None"
  using assms
  by (auto simp: pending_add_transaction_def waiting_tx_def hm_contains_def
      split: if_splits option.splits)

lemma pending_add_transaction_total:
  "\<not> is_ready tx \<Longrightarrow> waiting_tx s (p_hash tx) = None \<Longrightarrow> \<exists>r. pending_add_transaction tx s = Some r"
  by (auto simp: pending_add_transaction_def waiting_tx_def hm_contains_def split: option.splits)

lemma insert_waiting_tx:
  "waiting_tx (insert_waiting tx s) = (waiting_tx s)(p_hash tx \<mapsto> p_transaction tx)"
  by (auto simp: waiting_tx_def insert_waiting_def cont_simps fun_eq_iff)

lemma insert_waiting_required:
  "dom (hm_get (required_markers (insert_waiting tx s))) =
   dom (hm_get (required_markers s)) \<union> set (missing_markers tx)"
  by (auto simp: insert_waiting_def get_require_markers split: if_splits)

lemma pending_add_transaction_inv:
  assumes "pending_inv s" and "pending_add_transaction tx s = Some (r, s')"
    and "set (missing_markers tx) \<subseteq> set (requires (p_transaction tx))"
  shows "pending_inv s'"
  using assms(2)
proof (cases rule: pending_add_transaction_cases)
  case underpriced
  with assms show ?thesis by simp
next
  case added
  with assms insert_waiting_inv show ?thesis by (simp add: is_ready_def)
qed

text \<open>Replacing a waiting transaction (same provided markers, a gas price at least as high)
  does not take the old one out: both are in the queue afterwards, and the index of provided
  markers points at the new one only.\<close>

theorem pending_replacement_keeps_old:
  assumes inv: "pending_inv s" and old: "waiting_tx s old_hash = Some old"
    and same: "provides (p_transaction tx) = provides old" and new: "waiting_tx s (p_hash tx) = None"
    and added: "pending_add_transaction tx s = Some (Inr (), s')"
  shows "waiting_tx s' old_hash = Some old \<and> waiting_tx s' (p_hash tx) = Some (p_transaction tx) \<and>
     hm_get (waiting_markers s') (provides old) = Some (p_hash tx)"
proof -
  from added have s': "s' = insert_waiting tx s"
    by (cases rule: pending_add_transaction_cases) auto
  from old new have "old_hash \<noteq> p_hash tx" by auto
  with old same s' show ?thesis
    by (simp add: insert_waiting_tx) (simp add: insert_waiting_def cont_simps)
qed

theorem pending_replacement_keeps_old_witness:
  "\<exists>s s' :: PendingTransactions.
     waiting_tx s 1 \<noteq> None \<and> waiting_tx s' 1 = waiting_tx s 1 \<and> waiting_tx s' 2 \<noteq> None \<and>
     hm_get (waiting_markers s') [[9]] = Some 2"
proof -
  define old where "old = \<lparr>pending_transaction =
      \<lparr>transaction = legacy_tx 6 5, sender = 7, pending_hash = 1\<rparr>,
      requires = [[8]], provides = [[9]], priority = 5\<rparr>"
  define new where "new = \<lparr>pending_transaction =
      \<lparr>transaction = legacy_tx 6 9, sender = 7, pending_hash = 2\<rparr>,
      requires = [[8]], provides = [[9]], priority = 9\<rparr>"
  let ?p = "new_PendingPoolTransaction old []" and ?q = "new_PendingPoolTransaction new []"
  let ?s = "insert_waiting ?p empty_pending" and ?s' = "insert_waiting ?q (insert_waiting ?p empty_pending)"
  have "pending_inv empty_pending"
    by (auto simp: pending_inv_def queue_ok_def waiting_on_def misses_def empty_pending_def)
  then have "pending_inv ?s"
    by (rule insert_waiting_inv)
      (simp_all add: waiting_tx_def empty_pending_def new_PendingPoolTransaction_def old_def hs_from_def
        hs_insert_def hm_contains_def)
  moreover have "waiting_tx ?s 1 = Some old" and "provides (p_transaction ?q) = provides old"
    and "waiting_tx ?s (p_hash ?q) = None"
    by (simp_all add: waiting_tx_def insert_waiting_def empty_pending_def new_PendingPoolTransaction_def
        old_def new_def tx_hash_def)
  moreover have "pending_add_transaction ?q ?s = Some (Inr (), ?s')"
    by (simp add: pending_add_transaction_def is_ready_def insert_waiting_def empty_pending_def hm_contains_def
        new_PendingPoolTransaction_def old_def new_def tx_hash_def tx_gas_price_def hs_from_def hs_insert_def)
  ultimately have "waiting_tx ?s' 1 = Some old \<and> waiting_tx ?s' (p_hash ?q) = Some (p_transaction ?q) \<and>
      hm_get (waiting_markers ?s') (provides old) = Some (p_hash ?q)"
    by (rule pending_replacement_keeps_old)
  moreover have "p_hash ?q = 2" and "provides old = [[9]]"
    by (simp_all add: new_PendingPoolTransaction_def new_def old_def tx_hash_def)
  ultimately show ?thesis
    using \<open>waiting_tx ?s 1 = Some old\<close> by (metis option.distinct(1))
qed

end
