(* ===== verification/Pool_Ready_Inv.thy ===== *)
theory Pool_Ready_Inv
  imports Pool_Ready
begin

text \<open>
  The invariant of the ready half of the pool: the index of provided markers is exact. Every
  operation keeps it and, under it, none of the operations panics; \<open>removes_to\<close> says which
  transactions an operation took out.
\<close>

section \<open>The ready transactions as a map\<close>

definition txs_of :: "(TxHash, ReadyTransaction) hmap \<Rightarrow> TxHash \<Rightarrow> PoolTransaction option" where
  "txs_of ready h = map_option r_tx (hm_get ready h)"

definition ready_txs :: "ReadyTransactions \<Rightarrow> TxHash \<Rightarrow> PoolTransaction option" where
  "ready_txs s = txs_of (ready_tx s)"

lemma ready_txs_Some: "hm_get (ready_tx s) h = Some r \<Longrightarrow> ready_txs s h = Some (r_tx r)"
  by (simp add: ready_txs_def txs_of_def)

lemma ready_txs_None: "ready_txs s h = None \<longleftrightarrow> hm_get (ready_tx s) h = None"
  by (simp add: ready_txs_def txs_of_def)

text \<open>\<open>F\<close> are the markers about to be provided by a new transaction: while it replaces others,
  their entries may point at transactions already gone.\<close>

definition marks_ok :: "TxMarker set \<Rightarrow> ReadyTransactions \<Rightarrow> bool" where
  "marks_ok F s \<longleftrightarrow>
     (\<forall>h t. ready_txs s h = Some t \<longrightarrow> tx_hash t = h \<and> wf_tx t) \<and>
     (\<forall>h t m. ready_txs s h = Some t \<longrightarrow> m \<in> set (provides t) \<longrightarrow>
        hm_get (provided_markers s) m = Some h) \<and>
     (\<forall>h m. hm_get (provided_markers s) m = Some h \<longrightarrow> m \<notin> F \<longrightarrow>
        (\<exists>t. ready_txs s h = Some t \<and> m \<in> set (provides t)))"

definition ready_inv :: "ReadyTransactions \<Rightarrow> bool" where
  "ready_inv s = marks_ok {} s"

lemma marks_ok_tx: "marks_ok F s \<Longrightarrow> ready_txs s h = Some t \<Longrightarrow> tx_hash t = h \<and> wf_tx t"
  by (simp add: marks_ok_def)

lemma marks_ok_provided:
  "marks_ok F s \<Longrightarrow> ready_txs s h = Some t \<Longrightarrow> m \<in> set (provides t) \<Longrightarrow>
   hm_get (provided_markers s) m = Some h"
  by (simp add: marks_ok_def)

lemma marks_ok_ready:
  "marks_ok F s \<Longrightarrow> hm_get (provided_markers s) m = Some h \<Longrightarrow> m \<notin> F \<Longrightarrow>
   \<exists>t. ready_txs s h = Some t \<and> m \<in> set (provides t)"
  by (simp add: marks_ok_def)

lemma marks_ok_mono: "marks_ok F s \<Longrightarrow> F \<subseteq> G \<Longrightarrow> marks_ok G s"
  unfolding marks_ok_def by blast

definition removes_to :: "ReadyTransactions \<Rightarrow> PoolTransaction list \<Rightarrow> ReadyTransactions \<Rightarrow> bool" where
  "removes_to s rs s' \<longleftrightarrow>
     (\<forall>t\<in>set rs. ready_txs s (tx_hash t) = Some t) \<and> distinct (map tx_hash rs) \<and>
     ready_txs s' = ready_txs s |` (- tx_hash ` set rs)"

lemma removes_to_refl: "removes_to s [] s"
  by (simp add: removes_to_def restrict_map_def)

lemma removes_to_trans:
  assumes "removes_to s rs s'" and "removes_to s' ts s''"
  shows "removes_to s (rs @ ts) s''"
proof -
  have t: "tx_hash t \<notin> tx_hash ` set rs \<and> ready_txs s (tx_hash t) = Some t" if "t \<in> set ts" for t
    using assms that by (force simp: removes_to_def restrict_map_def split: if_splits)
  have "ready_txs s'' = ready_txs s |` (- tx_hash ` set (rs @ ts))"
    using assms by (auto simp: removes_to_def restrict_map_def fun_eq_iff)
  moreover have "distinct (map tx_hash (rs @ ts))"
    using assms t by (fastforce simp: removes_to_def)
  moreover have "\<forall>t\<in>set (rs @ ts). ready_txs s (tx_hash t) = Some t"
    using assms(1) t by (auto simp: removes_to_def)
  ultimately show ?thesis by (simp add: removes_to_def)
qed

lemma removes_to_None: "removes_to s rs s' \<Longrightarrow> ready_txs s h = None \<Longrightarrow> ready_txs s' h = None"
  by (simp add: removes_to_def restrict_map_def)

lemma removes_to_Some: "removes_to s rs s' \<Longrightarrow> ready_txs s' h = Some t \<Longrightarrow> ready_txs s h = Some t"
  by (simp add: removes_to_def restrict_map_def split: if_splits)

section \<open>Operations that only touch links\<close>

lemma txs_update [simp]:
  "hm_get ready h = Some r \<Longrightarrow> r_tx r' = r_tx r \<Longrightarrow> txs_of (hm_insert h r' ready) = txs_of ready"
  by (auto simp: txs_of_def cont_simps fun_eq_iff)

lemma txs_drop_from_unlocks [simp]:
  "txs_of (foldl (drop_from_unlocks prov) ready ms) = txs_of ready"
proof (induction ms arbitrary: ready)
  case Nil
  then show ?case by simp
next
  case (Cons m ms)
  have "txs_of (drop_from_unlocks prov ready m) = txs_of ready"
    by (auto simp: drop_from_unlocks_def split: option.splits)
  with Cons.IH show ?case by simp
qed

lemma txs_prune_previous: "prune_previous h prov ms ready = (tags, ready') \<Longrightarrow> txs_of ready' = txs_of ready"
proof (induction ms arbitrary: ready tags)
  case Nil
  then show ?case by simp
next
  case (Cons m ms)
  show ?case
  proof (cases "Option.bind (hm_get prov m) (\<lambda>prev. map_option (Pair prev) (hm_get ready prev))")
    case None
    with Cons show ?thesis by simp
  next
    case (Some x)
    then obtain prev tx2 where x: "x = (prev, tx2)" and tx2: "hm_get ready prev = Some tx2"
      by (cases x) (auto split: bind_splits)
    from Cons.prems Some x obtain us tags'
      where "prune_previous h prov ms (hm_insert prev (tx2\<lparr>unlocks := us\<rparr>) ready) = (tags', ready')"
      by (auto simp: Let_def split: prod.splits)
    from Cons.IH [OF this] tx2 show ?thesis by simp
  qed
qed

lemma txs_prune_unlock: "prune_unlock hs ready ind = (ready', ind') \<Longrightarrow> txs_of ready' = txs_of ready"
  by (induction hs ready ind rule: prune_unlock.induct)
    (auto simp: Let_def split: option.splits)

lemma txs_link_requires:
  "link_requires h prov ms ready = Some (ind, off, ready') \<Longrightarrow> txs_of ready' = txs_of ready"
proof (induction ms arbitrary: ready ind off)
  case Nil
  then show ?case by simp
next
  case (Cons m ms)
  show ?case
  proof (cases "hm_get prov m")
    case None
    with Cons.prems obtain ind' off' where "link_requires h prov ms ready = Some (ind', off', ready')"
      by (auto split: bind_splits)
    then show ?thesis by (rule Cons.IH)
  next
    case (Some other)
    with Cons.prems obtain r ind' off' where r: "hm_get ready other = Some r"
      and "link_requires h prov ms (hm_insert other (r\<lparr>unlocks := unlocks r @ [h]\<rparr>) ready) =
        Some (ind', off', ready')"
      by (auto split: bind_splits option.splits)
    from Cons.IH [OF this(2)] r show ?thesis by simp
  qed
qed

lemma link_requires_total:
  "(\<And>m h'. m \<in> set ms \<Longrightarrow> hm_get prov m = Some h' \<Longrightarrow> hm_get ready h' \<noteq> None) \<Longrightarrow>
   \<exists>r. link_requires h prov ms ready = Some r"
proof (induction ms arbitrary: ready)
  case Nil
  then show ?case by auto
next
  case (Cons m ms)
  show ?case
  proof (cases "hm_get prov m")
    case None
    moreover obtain x where "link_requires h prov ms ready = Some x"
      using Cons.IH [of ready] Cons.prems by (meson list.set_intros(2))
    ultimately show ?thesis by (cases x) simp
  next
    case (Some other)
    with Cons.prems obtain r where r: "hm_get ready other = Some r" by fastforce
    have "hm_get (hm_insert other (r\<lparr>unlocks := unlocks r @ [h]\<rparr>) ready) h' \<noteq> None"
      if "m' \<in> set ms" "hm_get prov m' = Some h'" for m' h'
      using Cons.prems that by (auto simp: cont_simps)
    then obtain x where "link_requires h prov ms (hm_insert other (r\<lparr>unlocks := unlocks r @ [h]\<rparr>) ready) = Some x"
      using Cons.IH by blast
    with Some r show ?thesis by (cases x) auto
  qed
qed

section \<open>Removing\<close>

lemma get_remove_fold:
  "hm_get (foldl (\<lambda>p m. hm_remove m p) prov ms) m = (if m \<in> set ms then None else hm_get prov m)"
  by (induction ms arbitrary: prov) (auto simp: cont_simps)

lemma ready_txs_remove_entry: "ready_txs (remove_entry f h r s) = (ready_txs s)(h := None)"
proof -
  have "txs_of (hm_remove h ready) = (txs_of ready)(h := None)" for ready
    by (auto simp: txs_of_def cont_simps fun_eq_iff)
  then show ?thesis
    by (simp add: ready_txs_def remove_entry_def Let_def)
qed

definition filter_set :: "TxMarker list option \<Rightarrow> TxMarker set" where
  "filter_set f = (case f of None \<Rightarrow> {} | Some ms \<Rightarrow> set ms)"

lemma set_invalidated: "set (invalidated f tx) = set (provides tx) - filter_set f"
  by (auto simp: invalidated_def filter_set_def split: option.splits)

lemma remove_entry_marks:
  assumes ok: "marks_ok (filter_set f) s" and r: "hm_get (ready_tx s) h = Some r"
  shows "marks_ok (filter_set f) (remove_entry f h r s)" (is "marks_ok _ ?s")
proof -
  have t: "ready_txs s h = Some (r_tx r)" using r by (rule ready_txs_Some)
  have prov: "hm_get (provided_markers ?s) m =
      (if m \<in> set (provides (r_tx r)) - filter_set f then None else hm_get (provided_markers s) m)" for m
    by (simp add: remove_entry_def Let_def get_remove_fold set_invalidated)
  note txs = ready_txs_remove_entry [of f h r s]
  show ?thesis
    unfolding marks_ok_def
  proof (intro conjI allI impI)
    fix h' t' m
    assume t': "ready_txs ?s h' = Some t'" and m: "m \<in> set (provides t')"
    then have old: "ready_txs s h' = Some t'" and ne: "h' \<noteq> h" by (auto simp: txs split: if_splits)
    from marks_ok_provided [OF ok old m] marks_ok_provided [OF ok t] ne
    show "hm_get (provided_markers ?s) m = Some h'"
      by (auto simp: prov)
  next
    fix h' m
    assume p: "hm_get (provided_markers ?s) m = Some h'" and m: "m \<notin> filter_set f"
    then have old: "hm_get (provided_markers s) m = Some h'" and nm: "m \<notin> set (provides (r_tx r))"
      by (auto simp: prov split: if_splits)
    from marks_ok_ready [OF ok old m] nm t show "\<exists>t. ready_txs ?s h' = Some t \<and> m \<in> set (provides t)"
      by (auto simp: txs)
  qed (use marks_ok_tx [OF ok] in \<open>auto simp: txs split: if_splits\<close>)
qed

lemma ready_id_remove_entry [simp]: "ready_id (remove_entry f h r s) = ready_id s"
  by (simp add: remove_entry_def Let_def)

lemma remove_loop_ok:
  "marks_ok (filter_set f) s \<Longrightarrow> remove_loop f hs s = (rs, s') \<Longrightarrow>
   marks_ok (filter_set f) s' \<and> removes_to s rs s' \<and> (\<forall>h\<in>set hs. ready_txs s' h = None) \<and>
   ready_id s' = ready_id s"
proof (induction f hs s arbitrary: rs rule: remove_loop.induct)
  case (1 f s)
  then show ?case by (simp add: removes_to_refl)
next
  case (2 f h hs s)
  show ?case
  proof (cases "hm_get (ready_tx s) h")
    case None
    then have loop: "remove_loop f hs s = (rs, s')" using "2.prems"(2) by simp
    note IH = "2.IH"(1) [OF None "2.prems"(1) loop]
    then have "ready_txs s' h = None"
      by (metis None ready_txs_None removes_to_None)
    with IH show ?thesis by simp
  next
    case (Some r)
    let ?s = "remove_entry f h r s"
    let ?hs = "(if invalidated f (r_tx r) \<noteq> [] then rev (unlocks r) else []) @ hs"
    obtain rs' where loop: "remove_loop f ?hs ?s = (rs', s')" and rs: "rs = r_tx r # rs'"
      using "2.prems"(2) Some by (cases "remove_loop f ?hs ?s") (simp add: Let_def)
    have IH: "marks_ok (filter_set f) s' \<and> removes_to ?s rs' s' \<and> (\<forall>h\<in>set ?hs. ready_txs s' h = None) \<and>
        ready_id s' = ready_id ?s"
      by (rule "2.IH"(2) [OF Some refl remove_entry_marks [OF "2.prems"(1) Some] loop])
    have t: "ready_txs s h = Some (r_tx r)" using Some by (rule ready_txs_Some)
    from marks_ok_tx [OF "2.prems"(1) t] t
    have one: "removes_to s [r_tx r] ?s"
      by (simp add: removes_to_def ready_txs_remove_entry restrict_map_def fun_eq_iff)
    from IH have rest: "removes_to ?s rs' s'" by blast
    have gone: "ready_txs s' h = None"
      by (rule removes_to_None [OF rest]) (simp add: ready_txs_remove_entry)
    have "removes_to s rs s'"
      using removes_to_trans [OF one rest] rs by simp
    with IH gone show ?thesis by simp
  qed
qed

lemma remove_with_markers_ok:
  "marks_ok (filter_set f) s \<Longrightarrow> remove_with_markers hs f s = (rs, s') \<Longrightarrow>
   marks_ok (filter_set f) s' \<and> removes_to s rs s' \<and> (\<forall>h\<in>set hs. ready_txs s' h = None) \<and>
   ready_id s' = ready_id s"
  using remove_loop_ok [of f s "rev hs"] by (simp add: remove_with_markers_def)

lemma remove_invalid_ok:
  "ready_inv s \<Longrightarrow> remove_with_markers hs None s = (rs, s') \<Longrightarrow>
   ready_inv s' \<and> removes_to s rs s' \<and> (\<forall>h\<in>set hs. ready_txs s' h = None) \<and> ready_id s' = ready_id s"
  using remove_with_markers_ok [of None] by (simp add: ready_inv_def filter_set_def)

section \<open>Adding\<close>

lemma collect_unlocks_error: "collect_unlocks tx rs = Inl e \<Longrightarrow> e = ReplacementUnderpriced tx"
  by (induction rs) (auto split: if_splits sum.splits)

text \<open>The state between the removal of the replaced transactions and the insertion of the new
  one: only its own markers may dangle, and no transaction left provides one of them.\<close>

definition cleared_for :: "PoolTransaction \<Rightarrow> ReadyTransactions \<Rightarrow> bool" where
  "cleared_for tx s \<longleftrightarrow> marks_ok (set (provides tx)) s \<and>
     (\<forall>h t. ready_txs s h = Some t \<longrightarrow> set (provides t) \<inter> set (provides tx) = {})"

lemma replaced_transactions_ok:
  assumes ord: "hash_order order" and inv: "ready_inv s"
    and res: "replaced_transactions order tx s = (r, s1)"
  shows "(case r of
      Inl e \<Rightarrow> s1 = s \<and> e = ReplacementUnderpriced tx
    | Inr (rs, us) \<Rightarrow> cleared_for tx s1 \<and> removes_to s rs s1 \<and> ready_id s1 = ready_id s)"
proof -
  let ?hs = "order (hs_from (List.map_filter (hm_get (provided_markers s)) (provides tx)))"
  have set_hs: "set ?hs = {h. \<exists>m\<in>set (provides tx). hm_get (provided_markers s) m = Some h}"
    using ord by (auto simp: hash_order.set_order set_map_filter)
  have ok: "marks_ok {} s" using inv by (simp add: ready_inv_def)
  have in_hs: "h \<in> set ?hs" if "ready_txs s h = Some t" "m \<in> set (provides t)" "m \<in> set (provides tx)" for h t m
    using marks_ok_provided [OF ok that(1,2)] that(3) set_hs by auto
  show ?thesis
  proof (cases "?hs = []")
    case True
    with in_hs have "set (provides t) \<inter> set (provides tx) = {}" if "ready_txs s h = Some t" for h t
      using that by fastforce
    with True res marks_ok_mono [OF ok, of "set (provides tx)"] removes_to_refl [of s] show ?thesis
      by (auto simp: replaced_transactions_def cleared_for_def)
  next
    case False
    show ?thesis
    proof (cases "collect_unlocks tx (List.map_filter (hm_get (ready_tx s)) ?hs)")
      case (Inl e)
      with False res collect_unlocks_error show ?thesis
        by (auto simp: replaced_transactions_def Let_def)
    next
      case (Inr us)
      obtain rs s2 where rm: "remove_with_markers ?hs (Some (hs_from (provides tx))) s = (rs, s2)"
        by fastforce
      have f: "filter_set (Some (hs_from (provides tx))) = set (provides tx)"
        by (simp add: filter_set_def)
      have "marks_ok (set (provides tx)) s" by (rule marks_ok_mono [OF ok]) simp
      from remove_with_markers_ok [OF this [folded f] rm, unfolded f]
      have after: "marks_ok (set (provides tx)) s2" "removes_to s rs s2" "ready_id s2 = ready_id s"
        and gone: "\<And>h. h \<in> set ?hs \<Longrightarrow> ready_txs s2 h = None"
        by auto
      have "set (provides t) \<inter> set (provides tx) = {}" if t: "ready_txs s2 h = Some t" for h t
        using in_hs [OF removes_to_Some [OF after(2) t]] gone t by fastforce
      with after False Inr rm res show ?thesis
        by (auto simp: replaced_transactions_def Let_def cleared_for_def)
    qed
  qed
qed

lemma get_provide_fold:
  "hm_get (foldl (\<lambda>p m. hm_insert m h p) prov ms) m = (if m \<in> set ms then Some h else hm_get prov m)"
  by (induction ms arbitrary: prov) (auto simp: cont_simps)

lemma insert_cleared_inv:
  assumes clr: "cleared_for tx s" and wf: "wf_tx tx" and new: "ready_txs s (tx_hash tx) = None"
    and txs: "ready_txs s' = (ready_txs s)(tx_hash tx \<mapsto> tx)"
    and prov: "\<And>m. hm_get (provided_markers s') m =
      (if m \<in> set (provides tx) then Some (tx_hash tx) else hm_get (provided_markers s) m)"
  shows "ready_inv s'"
proof -
  have ok: "marks_ok (set (provides tx)) s" using clr by (simp add: cleared_for_def)
  show ?thesis
    unfolding ready_inv_def marks_ok_def
  proof (intro conjI allI impI)
    fix h t m
    assume t: "ready_txs s' h = Some t" and m: "m \<in> set (provides t)"
    show "hm_get (provided_markers s') m = Some h"
    proof (cases "h = tx_hash tx")
      case True
      with t m show ?thesis by (simp add: txs prov)
    next
      case False
      with t have "ready_txs s h = Some t" by (simp add: txs)
      with marks_ok_provided [OF ok this m] clr m show ?thesis
        by (auto simp: prov cleared_for_def)
    qed
  next
    fix h m
    assume p: "hm_get (provided_markers s') m = Some h"
    show "\<exists>t. ready_txs s' h = Some t \<and> m \<in> set (provides t)"
    proof (cases "m \<in> set (provides tx)")
      case True
      with p show ?thesis by (simp add: prov txs)
    next
      case False
      with p have "hm_get (provided_markers s) m = Some h" by (simp add: prov)
      from marks_ok_ready [OF ok this False] new show ?thesis by (auto simp: txs)
    qed
  qed (use marks_ok_tx [OF ok] wf in \<open>auto simp: txs split: if_splits\<close>)
qed

lemma ready_add_transaction_ok:
  assumes ord: "hash_order order" and inv: "ready_inv s" and rdy: "is_ready p"
    and new: "ready_txs s (p_hash p) = None" and wf: "wf_tx (p_transaction p)"
  shows "\<exists>r s'. ready_add_transaction order p s = Some (r, s') \<and> ready_inv s' \<and>
    (case r of
       Inl e \<Rightarrow> s' = s \<and> e = ReplacementUnderpriced (p_transaction p)
     | Inr rs \<Rightarrow> (\<exists>s1. removes_to s rs s1 \<and> ready_txs s' = (ready_txs s1)(p_hash p \<mapsto> p_transaction p)))"
proof -
  let ?tx = "p_transaction p"
  have nc: "\<not> hm_contains (ready_tx s) (p_hash p)"
    using new by (simp add: hm_contains_def ready_txs_None)
  obtain r s1 where rep: "replaced_transactions order ?tx s = (r, s1)" by fastforce
  note after = replaced_transactions_ok [OF ord inv rep]
  show ?thesis
  proof (cases r)
    case (Inl e)
    with after rep nc rdy inv show ?thesis by (simp add: ready_add_transaction_def)
  next
    case (Inr x)
    then obtain rs us where r: "r = Inr (rs, us)" by (cases x) auto
    with after have clr: "cleared_for ?tx s1" and rm: "removes_to s rs s1" by simp_all
    let ?s2 = "s1\<lparr>ready_id := ready_id s1 + 1\<rparr>"
    have "hm_get (ready_tx s1) h' \<noteq> None"
      if "m \<in> set (requires ?tx)" "hm_get (provided_markers s1) m = Some h'" for m h'
    proof -
      have "m \<notin> set (provides ?tx)" using wf that(1) by (auto simp: wf_tx_def)
      with clr that(2) show ?thesis
        by (auto simp: cleared_for_def simp flip: ready_txs_None dest: marks_ok_ready)
    qed
    then obtain x where x: "link_requires (p_hash p) (provided_markers s1) (requires ?tx) (ready_tx s1) = Some x"
      using link_requires_total by blast
    obtain ind off ready where link:
      "link_requires (p_hash p) (provided_markers s1) (requires ?tx) (ready_tx s1) = Some (ind, off, ready)"
      using x by (cases x) auto
    obtain s' where add: "ready_add_transaction order p s = Some (Inr rs, s')"
      and prov': "provided_markers s' = foldl (\<lambda>q m. hm_insert m (p_hash p) q) (provided_markers s1) (provides ?tx)"
      and tx': "ready_tx s' = hm_insert (p_hash p) \<lparr>r_transaction = \<lparr>ref_transaction = ?tx, ref_id = ready_id s1\<rparr>,
          unlocks = us, requires_offset = off\<rparr> ready"
      using rep r nc rdy link by (simp add: ready_add_transaction_def next_id_def Let_def)
    have txs: "ready_txs s' = (ready_txs s1)(p_hash p \<mapsto> ?tx)"
      using txs_link_requires [OF link] by (auto simp: ready_txs_def txs_of_def tx' cont_simps fun_eq_iff)
    have "ready_inv s'"
      by (rule insert_cleared_inv [OF clr wf removes_to_None [OF rm new] txs])
        (simp add: prov' get_provide_fold)
    with add rm txs show ?thesis by auto
  qed
qed

section \<open>Pruning\<close>

lemma take_markers_ok:
  "distinct ms \<Longrightarrow> (\<And>m. m \<in> set ms \<Longrightarrow> hm_get prov m = (if current = m then None else Some h)) \<Longrightarrow>
   \<exists>prov'. take_markers current h ms prov = Some prov' \<and>
     (\<forall>m. hm_get prov' m = (if m \<in> set ms then None else hm_get prov m))"
proof (induction ms arbitrary: prov)
  case Nil
  then show ?case by simp
next
  case (Cons m ms)
  have "hm_get (hm_remove m prov) m' = (if current = m' then None else Some h)" if "m' \<in> set ms" for m'
    using Cons.prems that by (auto simp: cont_simps)
  with Cons.IH [of "hm_remove m prov"] Cons.prems
  obtain prov' where "take_markers current h ms (hm_remove m prov) = Some prov'"
    and "\<forall>m'. hm_get prov' m' = (if m' \<in> set ms then None else hm_get (hm_remove m prov) m')"
    by auto
  with Cons.prems(2) [of m] show ?case
    by (auto simp: cont_simps)
qed

lemma prune_entry_ok:
  assumes inv: "ready_inv s" and r: "hm_get (ready_tx s) h = Some r"
    and m: "hm_get (provided_markers s) m = Some h"
  shows "\<exists>tags s'. prune_entry m h r s = Some (tags, s') \<and> ready_inv s' \<and> removes_to s [r_tx r] s' \<and>
    ready_id s' = ready_id s \<and>
    (\<forall>m'. hm_get (provided_markers s') m' =
       (if m' \<in> set (provides (r_tx r)) then None else hm_get (provided_markers s) m'))"
proof -
  have ok: "marks_ok {} s" using inv by (simp add: ready_inv_def)
  have t: "ready_txs s h = Some (r_tx r)" using r by (rule ready_txs_Some)
  have h: "tx_hash (r_tx r) = h" and wf: "wf_tx (r_tx r)" using marks_ok_tx [OF ok t] by simp_all
  have mp: "m \<in> set (provides (r_tx r))" using marks_ok_ready [OF ok m] t by auto
  obtain tags ready1 where p1: "prune_previous h (hm_remove m (provided_markers s))
      (requires (r_tx r)) (hm_remove h (ready_tx s)) = (tags, ready1)" by fastforce
  obtain ready2 ind where p2: "prune_unlock (unlocks r) ready1
      (bt_remove (r_transaction r) (independent_transactions s)) = (ready2, ind)" by fastforce
  have "hm_get (hm_remove m (provided_markers s)) m' = (if m = m' then None else Some h)"
    if "m' \<in> set (provides (r_tx r))" for m'
    using marks_ok_provided [OF ok t that] by (simp add: cont_simps)
  with take_markers_ok [of "provides (r_tx r)" "hm_remove m (provided_markers s)" m h] wf
  obtain prov' where tm: "take_markers m h (provides (r_tx r)) (hm_remove m (provided_markers s)) = Some prov'"
    and prov': "\<forall>m'. hm_get prov' m' =
      (if m' \<in> set (provides (r_tx r)) then None else hm_get (hm_remove m (provided_markers s)) m')"
    by (auto simp: wf_tx_def)
  let ?s = "s\<lparr>provided_markers := prov', ready_tx := ready2, independent_transactions := ind\<rparr>"
  have pe: "prune_entry m h r s = Some (tags, ?s)"
    using p1 p2 tm h by (simp add: prune_entry_def)
  have txs: "ready_txs ?s = (ready_txs s)(h := None)"
    using txs_prune_previous [OF p1] txs_prune_unlock [OF p2]
    by (auto simp: ready_txs_def txs_of_def cont_simps fun_eq_iff)
  have prov: "hm_get (provided_markers ?s) m' =
      (if m' \<in> set (provides (r_tx r)) then None else hm_get (provided_markers s) m')" for m'
    using prov' mp by (auto simp: cont_simps)
  have "removes_to s [r_tx r] ?s"
    using t h by (simp add: removes_to_def txs restrict_map_def fun_eq_iff)
  moreover have "marks_ok {} ?s"
    unfolding marks_ok_def
  proof (intro conjI allI impI)
    fix h' t' m'
    assume t': "ready_txs ?s h' = Some t'" and m': "m' \<in> set (provides t')"
    then have old: "ready_txs s h' = Some t'" and ne: "h' \<noteq> h" by (auto simp: txs split: if_splits)
    from marks_ok_provided [OF ok old m'] marks_ok_provided [OF ok t] ne
    show "hm_get (provided_markers ?s) m' = Some h'" by (subst prov) auto
  next
    fix h' m'
    assume "hm_get (provided_markers ?s) m' = Some h'"
    then have old: "hm_get (provided_markers s) m' = Some h'" and nm: "m' \<notin> set (provides (r_tx r))"
      unfolding prov by (auto split: if_splits)
    from marks_ok_ready [OF ok old] nm t show "\<exists>t. ready_txs ?s h' = Some t \<and> m' \<in> set (provides t)"
      by (auto simp: txs)
  qed (use marks_ok_tx [OF ok] in \<open>auto simp: txs split: if_splits\<close>)
  ultimately show ?thesis
    using pe prov by (simp add: ready_inv_def)
qed

lemma prune_loop_ok:
  "ready_inv s \<Longrightarrow> \<exists>rs s'. prune_loop ms s = Some (rs, s') \<and> ready_inv s' \<and> removes_to s rs s' \<and>
     ready_id s' = ready_id s \<and> (\<forall>m\<in>set ms. hm_get (provided_markers s') m = None)"
proof (induction ms s rule: prune_loop.induct)
  case (1 s)
  then show ?case by (simp add: removes_to_refl)
next
  case (2 m ms s)
  have ok: "marks_ok {} s" using "2.prems" by (simp add: ready_inv_def)
  let ?look = "Option.bind (hm_get (provided_markers s) m) (\<lambda>h. map_option (Pair h) (hm_get (ready_tx s) h))"
  show ?case
  proof (cases ?look)
    case None
    then have none: "hm_get (provided_markers s) m = None"
      using marks_ok_ready [OF ok, of m] by (auto simp: ready_txs_def txs_of_def split: bind_splits)
    let ?s = "s\<lparr>provided_markers := hm_remove m (provided_markers s)\<rparr>"
    have same: "hm_get (provided_markers ?s) = hm_get (provided_markers s)"
      using none by (auto simp: cont_simps fun_eq_iff)
    have txs: "ready_txs ?s = ready_txs s" by (simp add: ready_txs_def)
    have "ready_inv ?s"
      using ok unfolding ready_inv_def marks_ok_def same txs .
    from "2.IH"(1) [OF None this] obtain rs s' where loop: "prune_loop ms ?s = Some (rs, s')"
      and inv': "ready_inv s'" and rm: "removes_to ?s rs s'" and id': "ready_id s' = ready_id s"
      and gone: "\<forall>m\<in>set ms. hm_get (provided_markers s') m = None"
      by auto
    have rm': "removes_to s rs s'" using rm by (simp add: removes_to_def txs)
    have "hm_get (provided_markers s') m = None"
    proof (rule ccontr)
      assume "hm_get (provided_markers s') m \<noteq> None"
      then obtain h t where "ready_txs s' h = Some t" and mt: "m \<in> set (provides t)"
        using inv' by (auto simp: ready_inv_def dest: marks_ok_ready)
      then have "ready_txs s h = Some t" using removes_to_Some [OF rm'] by simp
      from marks_ok_provided [OF ok this mt] none show False by simp
    qed
    with None loop inv' rm' id' gone show ?thesis by simp
  next
    case (Some x)
    then obtain h r where x: "x = (h, r)" and m: "hm_get (provided_markers s) m = Some h"
      and r: "hm_get (ready_tx s) h = Some r"
      by (auto split: bind_splits)
    from prune_entry_ok [OF "2.prems" r m] obtain tags s1 where pe: "prune_entry m h r s = Some (tags, s1)"
      and inv1: "ready_inv s1" and rm1: "removes_to s [r_tx r] s1" and id1: "ready_id s1 = ready_id s"
      and prov1: "\<forall>m'. hm_get (provided_markers s1) m' =
        (if m' \<in> set (provides (r_tx r)) then None else hm_get (provided_markers s) m')"
      by blast
    from "2.IH"(2) [OF Some x [symmetric] pe refl inv1] obtain rs s' where
      loop: "prune_loop (rev tags @ ms) s1 = Some (rs, s')" and inv': "ready_inv s'"
      and rm: "removes_to s1 rs s'" and id': "ready_id s' = ready_id s1"
      and gone: "\<forall>m\<in>set (rev tags @ ms). hm_get (provided_markers s') m = None"
      by auto
    have mp: "m \<in> set (provides (r_tx r))"
      using marks_ok_ready [OF ok m] ready_txs_Some [OF r] by auto
    have "hm_get (provided_markers s') m = None"
    proof (rule ccontr)
      assume "hm_get (provided_markers s') m \<noteq> None"
      then obtain h' t where "ready_txs s' h' = Some t" and mt: "m \<in> set (provides t)"
        using inv' by (auto simp: ready_inv_def dest: marks_ok_ready)
      then have "ready_txs s1 h' = Some t" using removes_to_Some [OF rm] by simp
      with inv1 mt have "hm_get (provided_markers s1) m = Some h'"
        by (auto simp: ready_inv_def dest: marks_ok_provided)
      with prov1 mp show False by simp
    qed
    moreover have "removes_to s (r_tx r # rs) s'"
      using removes_to_trans [OF rm1 rm] by simp
    ultimately show ?thesis
      using Some x pe loop inv' id' id1 gone by simp
  qed
qed

lemma prune_tags_ok:
  "ready_inv s \<Longrightarrow> \<exists>rs s'. prune_tags m s = Some (rs, s') \<and> ready_inv s' \<and> removes_to s rs s' \<and>
     ready_id s' = ready_id s \<and> hm_get (provided_markers s') m = None"
  using prune_loop_ok [of s "[m]"] by (auto simp: prune_tags_def)

end
