(* ===== verification/Pool_Iter.thy ===== *)
theory Pool_Iter
  imports Pool_Ready "HOL-Library.Multiset"
begin

text \<open>
  The order in which ready transactions are offered to a block: \<open>TransactionsIterator\<close> and
  \<open>ReadyTransactions::get_transactions\<close> of \<open>crates/anvil/src/eth/pool/transactions.rs\<close>. One call of
  \<open>next\<close> always returns; collecting the iterator is a \<open>partial_function\<close>, since links that form a
  cycle would make it endless. The lemmas show that it ends whenever the links are acyclic, that it
  offers the best independent transaction first, and that it never offers a transaction before one
  that unlocks it.
\<close>

section \<open>The iterator\<close>

record TransactionsIterator =
  all_txs :: "(TxHash, ReadyTransaction) hmap"
  awaiting :: "(TxHash, nat \<times> PoolTransactionRef) hmap"
  independent :: "PoolTransactionRef list"

definition get_transactions :: "ReadyTransactions \<Rightarrow> TransactionsIterator" where
  "get_transactions s =
     \<lparr>all_txs = ready_tx s, awaiting = [], independent = independent_transactions s\<rparr>"

definition independent_or_awaiting ::
    "nat \<Rightarrow> PoolTransactionRef \<Rightarrow> TransactionsIterator \<Rightarrow> TransactionsIterator" where
  "independent_or_awaiting satisfied tx_ref it =
     (if length (requires (ref_transaction tx_ref)) \<le> satisfied
      then it\<lparr>independent := bt_insert tx_ref (independent it)\<rparr>
      else it\<lparr>awaiting := hm_insert (tx_hash (ref_transaction tx_ref)) (satisfied, tx_ref) (awaiting it)\<rparr>)"

definition unlock_one :: "TransactionsIterator \<Rightarrow> TxHash \<Rightarrow> TransactionsIterator" where
  "unlock_one it h =
     (case hm_get (awaiting it) h of
        Some (satisfied, tx_ref) \<Rightarrow>
          independent_or_awaiting (satisfied + 1) tx_ref (it\<lparr>awaiting := hm_remove h (awaiting it)\<rparr>)
      | None \<Rightarrow>
          (case hm_get (all_txs it) h of
             Some nxt \<Rightarrow> independent_or_awaiting (requires_offset nxt + 1) (r_transaction nxt) it
           | None \<Rightarrow> it))"

lemma ref_cmp_refl [simp]: "ref_cmp x x = Equal"
  by (simp add: ref_cmp_def word_cmp_def)

lemma length_bt_remove_last: "xs \<noteq> [] \<Longrightarrow> length (bt_remove (last xs) xs) < length xs"
  unfolding bt_remove_def by (rule length_filter_less [of "last xs"]) simp_all

function iter_next :: "TransactionsIterator \<Rightarrow> (PoolTransaction \<times> TransactionsIterator) option" where
  "iter_next it =
     (if independent it = [] then None
      else let best = last (independent it);
               it' = it\<lparr>independent := bt_remove best (independent it)\<rparr>
           in case hm_get (all_txs it) (tx_hash (ref_transaction best)) of
                None \<Rightarrow> iter_next it'
              | Some ready \<Rightarrow> Some (ref_transaction best, foldl unlock_one it' (unlocks ready)))"
  by pat_completeness auto
termination
  by (relation "measure (\<lambda>it. length (independent it))") (auto simp: length_bt_remove_last)

declare iter_next.simps [simp del]

partial_function (option) drain :: "TransactionsIterator \<Rightarrow> PoolTransaction list option" where
  "drain it =
     (case iter_next it of
        None \<Rightarrow> Some []
      | Some (tx, it') \<Rightarrow> do { rest \<leftarrow> drain it'; Some (tx # rest) })"

text \<open>The runs of the iterator to its end, as a relation.\<close>

inductive yields :: "TransactionsIterator \<Rightarrow> PoolTransaction list \<Rightarrow> bool" where
  stop: "iter_next it = None \<Longrightarrow> yields it []"
| step: "iter_next it = Some (tx, it') \<Longrightarrow> yields it' txs \<Longrightarrow> yields it (tx # txs)"

inductive_cases yields_ConsE: "yields it (tx # txs)"

lemma drain_yields: "drain it = Some txs \<Longrightarrow> yields it txs"
proof (rule drain.raw_induct [of "\<lambda>it txs. yields it txs"])
  fix f :: "TransactionsIterator \<Rightarrow> PoolTransaction list option" and it txs
  assume IH: "\<And>it txs. f it = Some txs \<Longrightarrow> yields it txs"
    and eq: "(case iter_next it of None \<Rightarrow> Some []
      | Some (tx, it') \<Rightarrow> f it' \<bind> (\<lambda>rest. Some (tx # rest))) = Some txs"
  show "yields it txs"
  proof (cases "iter_next it")
    case None
    with eq show ?thesis by (auto intro: yields.stop)
  next
    case (Some x)
    with eq show ?thesis
      by (cases x) (auto intro: yields.step IH split: bind_splits)
  qed
qed

lemma yields_drain: "yields it txs \<Longrightarrow> drain it = Some txs"
  by (induction rule: yields.induct) (simp_all add: drain.simps)

lemma drain_iff: "drain it = Some txs \<longleftrightarrow> yields it txs"
  using drain_yields yields_drain by blast

section \<open>The order on references\<close>

text \<open>The order of the set as a number: a higher fee first, among equal fees the lower id.\<close>

definition ref_key :: "PoolTransactionRef \<Rightarrow> nat" where
  "ref_key r = unat (priority (ref_transaction r)) * 2 ^ 64 + (2 ^ 64 - 1 - unat (ref_id r))"

lemma two_digits_less:
  fixes p q x y n :: nat
  assumes "x < n" "y < n"
  shows "p * n + x < q * n + y \<longleftrightarrow> p < q \<or> p = q \<and> x < y"
proof (cases p q rule: linorder_cases)
  case less
  then have "p * n + n \<le> q * n" by (metis Suc_leI add.commute mult_Suc mult_le_mono1)
  with less assms show ?thesis by simp
next
  case greater
  then have "q * n + n \<le> p * n" by (metis Suc_leI add.commute mult_Suc mult_le_mono1)
  with greater assms show ?thesis by simp
qed simp

lemma unat_u64_less: "unat (w :: u64) < 2 ^ 64"
  using unsigned_less [of w] by simp

lemma ref_key_less:
  "ref_key a < ref_key b \<longleftrightarrow>
   priority (ref_transaction a) < priority (ref_transaction b) \<or>
   priority (ref_transaction a) = priority (ref_transaction b) \<and> ref_id b < ref_id a"
  unfolding ref_key_def
  by (subst two_digits_less)
    (use unat_u64_less [of "ref_id a"] unat_u64_less [of "ref_id b"] in
      \<open>auto simp: word_less_nat_alt word_unat_eq_iff\<close>)

lemma ref_key_eq:
  "ref_key a = ref_key b \<longleftrightarrow>
   priority (ref_transaction a) = priority (ref_transaction b) \<and> ref_id a = ref_id b"
proof -
  have "ref_key a = ref_key b \<longleftrightarrow> \<not> ref_key a < ref_key b \<and> \<not> ref_key b < ref_key a"
    by (metis nat_neq_iff)
  also have "\<dots> \<longleftrightarrow> priority (ref_transaction a) = priority (ref_transaction b) \<and> ref_id a = ref_id b"
    unfolding ref_key_less by (metis linorder_neqE less_irrefl)
  finally show ?thesis .
qed

lemma ref_cmp_key:
  "ref_cmp a b = (if ref_key a < ref_key b then Less else if ref_key a = ref_key b then Equal else Greater)"
  unfolding ref_key_less ref_key_eq
  by (auto simp: ref_cmp_def word_cmp_def)

definition bt_sorted :: "PoolTransactionRef list \<Rightarrow> bool" where
  "bt_sorted xs = sorted_wrt (<) (map ref_key xs)"

lemma set_bt_insert: "set (bt_insert x xs) \<subseteq> insert x (set xs)"
  by (induction xs) (auto split: Ordering.splits)

lemma key_bt_insert: "ref_key ` set (bt_insert x xs) = insert (ref_key x) (ref_key ` set xs)"
  by (induction xs) (auto simp: ref_cmp_key)

lemma bt_insert_keeps: "y \<in> set xs \<Longrightarrow> y \<in> set (bt_insert x xs)"
  by (induction xs) (auto split: Ordering.splits)

lemma bt_sorted_insert: "bt_sorted xs \<Longrightarrow> bt_sorted (bt_insert x xs)"
proof (induction xs)
  case Nil
  then show ?case by (simp add: bt_sorted_def)
next
  case (Cons y ys)
  have "\<forall>k\<in>ref_key ` set (bt_insert x ys). ref_key y < k" if "ref_key y < ref_key x"
    unfolding key_bt_insert using Cons.prems that by (auto simp: bt_sorted_def)
  with Cons show ?case
    by (auto simp: bt_sorted_def ref_cmp_key split: if_splits)
qed

lemma bt_sorted_remove: "bt_sorted xs \<Longrightarrow> bt_sorted (bt_remove x xs)"
  unfolding bt_sorted_def bt_remove_def sorted_wrt_map by (rule sorted_wrt_filter)

lemma bt_sorted_Cons: "bt_sorted (x # xs) \<longleftrightarrow> (\<forall>y\<in>set xs. ref_key x < ref_key y) \<and> bt_sorted xs"
  by (simp add: bt_sorted_def)

lemma bt_sorted_last: "bt_sorted xs \<Longrightarrow> y \<in> set xs \<Longrightarrow> ref_key y \<le> ref_key (last xs)"
proof (induction xs)
  case (Cons x xs)
  then show ?case
    by (cases "xs = []") (auto simp: bt_sorted_Cons intro: less_imp_le)
qed simp

lemma bt_sorted_inj: "bt_sorted xs \<Longrightarrow> inj_on ref_key (set xs)"
proof (induction xs)
  case (Cons x xs)
  then show ?case by (auto simp: bt_sorted_Cons)
qed simp

lemma set_bt_remove_last:
  "bt_sorted xs \<Longrightarrow> xs \<noteq> [] \<Longrightarrow> set (bt_remove (last xs) xs) = set xs - {last xs}"
  using bt_sorted_inj [of xs] by (auto simp: bt_remove_def ref_cmp_key inj_on_def)

section \<open>What one call does\<close>

text \<open>The references of the iterator are those of the ready transactions it was made from.\<close>

definition it_ok :: "TransactionsIterator \<Rightarrow> bool" where
  "it_ok it \<longleftrightarrow> bt_sorted (independent it) \<and>
     (\<forall>h r. hm_get (all_txs it) h = Some r \<longrightarrow> tx_hash (r_tx r) = h) \<and>
     (\<forall>ref\<in>set (independent it). \<exists>r. hm_get (all_txs it) (tx_hash (ref_transaction ref)) = Some r \<and>
        r_transaction r = ref) \<and>
     (\<forall>h n ref. hm_get (awaiting it) h = Some (n, ref) \<longrightarrow>
        (\<exists>r. hm_get (all_txs it) h = Some r \<and> r_transaction r = ref))"

lemma it_ok_independent:
  "it_ok it \<Longrightarrow> ref \<in> set (independent it) \<Longrightarrow>
   \<exists>r. hm_get (all_txs it) (tx_hash (ref_transaction ref)) = Some r \<and> r_transaction r = ref"
  by (simp add: it_ok_def)

lemma it_ok_hash: "it_ok it \<Longrightarrow> hm_get (all_txs it) h = Some r \<Longrightarrow> tx_hash (r_tx r) = h"
  by (simp add: it_ok_def)

lemma all_txs_unlock_one [simp]: "all_txs (unlock_one it h) = all_txs it"
  by (auto simp: unlock_one_def independent_or_awaiting_def split: option.splits)

lemma all_txs_unlock_fold [simp]: "all_txs (foldl unlock_one it hs) = all_txs it"
  by (induction hs arbitrary: it) auto

lemma independent_or_awaiting_ok:
  assumes ok: "it_ok it" and r: "hm_get (all_txs it) h = Some r"
  shows "it_ok (independent_or_awaiting n (r_transaction r) it)"
proof -
  have h: "tx_hash (r_tx r) = h" using it_ok_hash [OF ok r] .
  then show ?thesis
    using ok r set_bt_insert [of "r_transaction r" "independent it"]
    by (auto simp: it_ok_def independent_or_awaiting_def bt_sorted_insert cont_simps split: if_splits)
qed

lemma independent_independent_or_awaiting:
  "set (independent it) \<subseteq> set (independent (independent_or_awaiting n ref it)) \<and>
   set (independent (independent_or_awaiting n ref it)) \<subseteq> insert ref (set (independent it))"
  using set_bt_insert [of ref "independent it"]
  by (auto simp: independent_or_awaiting_def bt_insert_keeps)

lemma unlock_one_ok:
  assumes ok: "it_ok it"
  shows "it_ok (unlock_one it h) \<and> set (independent it) \<subseteq> set (independent (unlock_one it h)) \<and>
    (\<forall>ref\<in>set (independent (unlock_one it h)).
       ref \<in> set (independent it) \<or> tx_hash (ref_transaction ref) = h)"
proof (cases "hm_get (awaiting it) h")
  case None
  show ?thesis
  proof (cases "hm_get (all_txs it) h")
    case None
    with \<open>hm_get (awaiting it) h = None\<close> ok show ?thesis by (simp add: unlock_one_def)
  next
    case (Some r)
    have "it_ok (independent_or_awaiting (requires_offset r + 1) (r_transaction r) it)"
      by (rule independent_or_awaiting_ok [OF ok Some])
    with Some \<open>hm_get (awaiting it) h = None\<close> it_ok_hash [OF ok Some]
      independent_independent_or_awaiting [of it "requires_offset r + 1" "r_transaction r"]
    show ?thesis by (auto simp: unlock_one_def)
  qed
next
  case (Some x)
  obtain n ref where x: "x = (n, ref)" by (cases x)
  let ?it = "it\<lparr>awaiting := hm_remove h (awaiting it)\<rparr>"
  obtain r where r: "hm_get (all_txs it) h = Some r" and ref: "r_transaction r = ref"
    using ok Some x by (simp add: it_ok_def) blast
  have "it_ok ?it" using ok by (auto simp: it_ok_def cont_simps split: if_splits)
  then have "it_ok (independent_or_awaiting (n + 1) ref ?it)"
    using independent_or_awaiting_ok [of ?it h r] r ref by simp
  with Some x it_ok_hash [OF ok r] ref independent_independent_or_awaiting [of ?it "n + 1" ref]
  show ?thesis by (auto simp: unlock_one_def)
qed

lemma unlock_fold_ok:
  "it_ok it \<Longrightarrow> it_ok (foldl unlock_one it hs) \<and>
   set (independent it) \<subseteq> set (independent (foldl unlock_one it hs)) \<and>
   (\<forall>ref\<in>set (independent (foldl unlock_one it hs)).
      ref \<in> set (independent it) \<or> tx_hash (ref_transaction ref) \<in> set hs)"
proof (induction hs arbitrary: it)
  case Nil
  then show ?case by simp
next
  case (Cons h hs)
  note one = unlock_one_ok [OF Cons.prems, of h]
  with Cons.IH [of "unlock_one it h"] show ?case
    by (simp, blast)
qed

lemma iter_next_ok:
  assumes ok: "it_ok it" and ne: "independent it \<noteq> []"
  obtains r it' where
    "hm_get (all_txs it) (tx_hash (ref_transaction (last (independent it)))) = Some r"
    "r_transaction r = last (independent it)"
    "iter_next it = Some (ref_transaction (last (independent it)), it')"
    "it_ok it'" "all_txs it' = all_txs it"
    "set (independent it) - {last (independent it)} \<subseteq> set (independent it')"
    "\<And>ref. ref \<in> set (independent it') \<Longrightarrow>
       ref \<in> set (independent it) - {last (independent it)} \<or>
       tx_hash (ref_transaction ref) \<in> set (unlocks r)"
proof -
  let ?best = "last (independent it)"
  let ?it = "it\<lparr>independent := bt_remove ?best (independent it)\<rparr>"
  have sorted: "bt_sorted (independent it)" using ok by (simp add: it_ok_def)
  obtain r where r: "hm_get (all_txs it) (tx_hash (ref_transaction ?best)) = Some r" "r_transaction r = ?best"
    using it_ok_independent [OF ok, of ?best] ne by auto
  have set': "set (independent ?it) = set (independent it) - {?best}"
    using set_bt_remove_last [OF sorted ne] by simp
  have "it_ok ?it"
    using ok set' by (auto simp: it_ok_def bt_sorted_remove)
  from unlock_fold_ok [OF this, of "unlocks r"] set'
  have fold: "it_ok (foldl unlock_one ?it (unlocks r))"
    "set (independent it) - {?best} \<subseteq> set (independent (foldl unlock_one ?it (unlocks r)))"
    "\<And>ref. ref \<in> set (independent (foldl unlock_one ?it (unlocks r))) \<Longrightarrow>
       ref \<in> set (independent it) - {?best} \<or> tx_hash (ref_transaction ref) \<in> set (unlocks r)"
    by auto
  have "iter_next it = Some (ref_transaction ?best, foldl unlock_one ?it (unlocks r))"
    using ne r by (simp add: iter_next.simps Let_def)
  with r fold show thesis
    by (intro that [of r "foldl unlock_one ?it (unlocks r)"]) auto
qed

lemma iter_next_None_iff: "it_ok it \<Longrightarrow> iter_next it = None \<longleftrightarrow> independent it = []"
  by (metis iter_next.simps iter_next_ok option.distinct(1))

section \<open>Whole runs\<close>

definition unlocked_by :: "(TxHash, ReadyTransaction) hmap \<Rightarrow> PoolTransaction \<Rightarrow> PoolTransaction \<Rightarrow> bool" where
  "unlocked_by ready a b \<longleftrightarrow> (\<exists>r. hm_get ready (tx_hash a) = Some r \<and> tx_hash b \<in> set (unlocks r))"


definition sample_ref :: "TxHash \<Rightarrow> u128 \<Rightarrow> u64 \<Rightarrow> PoolTransactionRef" where
  "sample_ref h p i =
     \<lparr>ref_transaction = \<lparr>pending_transaction = \<lparr>transaction = legacy_tx 0 p, sender = 7, pending_hash = h\<rparr>,
        requires = [], provides = [], priority = p\<rparr>,
      ref_id = i\<rparr>"

definition sample_iter :: TransactionsIterator where
  "sample_iter =
     \<lparr>all_txs = map (\<lambda>(h, p, i). (h, \<lparr>r_transaction = sample_ref h p i, unlocks = [], requires_offset = 0\<rparr>))
        [(1, 5, 0), (2, 9, 1), (3, 9, 2)],
      awaiting = [],
      independent = [sample_ref 1 5 0, sample_ref 3 9 2, sample_ref 2 9 1]\<rparr>"


lemma yields_links:
  assumes "yields it txs" and "it_ok it" and "i < length txs"
  shows "txs ! i \<in> ref_transaction ` set (independent it) \<or> (\<exists>j<i. unlocked_by (all_txs it) (txs ! j) (txs ! i))"
  using assms
proof (induction arbitrary: i)
  case (stop it)
  then show ?case by simp
next
  case (step it tx it' txs)
  let ?best = "last (independent it)"
  have ne: "independent it \<noteq> []" using step.hyps(1) by (auto simp: iter_next.simps)
  obtain r where r: "hm_get (all_txs it) (tx_hash (ref_transaction ?best)) = Some r"
    and tx: "tx = ref_transaction ?best" and ok': "it_ok it'" and all: "all_txs it' = all_txs it"
    and ind: "\<And>ref. ref \<in> set (independent it') \<Longrightarrow>
      ref \<in> set (independent it) - {?best} \<or> tx_hash (ref_transaction ref) \<in> set (unlocks r)"
    using iter_next_ok [OF step.prems(1) ne] step.hyps(1) by (metis Pair_inject option.inject)
  show ?case
  proof (cases i)
    case 0
    then show ?thesis using tx ne by simp
  next
    case (Suc k)
    then have "k < length txs" using step.prems(2) by simp
    from step.IH [OF ok' this]
    consider (ind) ref where "ref \<in> set (independent it')" "txs ! k = ref_transaction ref"
      | (link) j where "j < k" "unlocked_by (all_txs it) (txs ! j) (txs ! k)"
      using all by auto
    then show ?thesis
    proof cases
      case ind
      with \<open>\<And>ref. ref \<in> set (independent it') \<Longrightarrow> _\<close> [of ref] r tx Suc show ?thesis
        by (auto simp: unlocked_by_def)
    next
      case link
      then show ?thesis using Suc by (intro disjI2 exI [of _ "Suc j"]) simp
    qed
  qed
qed

section \<open>Ending\<close>

definition acyclic_by :: "(TxHash \<Rightarrow> nat) \<Rightarrow> (TxHash, ReadyTransaction) hmap \<Rightarrow> bool" where
  "acyclic_by rank ready \<longleftrightarrow>
     (\<forall>h r. hm_get ready h = Some r \<longrightarrow> (\<forall>h'\<in>set (unlocks r). hm_get ready h' \<noteq> None \<longrightarrow> rank h' < rank h))"

definition it_weight :: "(TxHash \<Rightarrow> nat) \<Rightarrow> TransactionsIterator \<Rightarrow> nat multiset" where
  "it_weight rank it =
     image_mset (\<lambda>ref. rank (tx_hash (ref_transaction ref))) (mset_set (set (independent it)))"

lemma iter_next_decreases:
  assumes ok: "it_ok it" and ac: "acyclic_by rank (all_txs it)" and nxt: "iter_next it = Some (tx, it')"
  shows "it_ok it' \<and> all_txs it' = all_txs it \<and> (it_weight rank it', it_weight rank it) \<in> mult less_than"
proof -
  let ?best = "last (independent it)" and ?f = "\<lambda>ref. rank (tx_hash (ref_transaction ref))"
  let ?A = "set (independent it)" and ?B = "set (independent it')"
  have ne: "independent it \<noteq> []" using nxt by (auto simp: iter_next.simps)
  obtain r where r: "hm_get (all_txs it) (tx_hash (ref_transaction ?best)) = Some r"
    and ok': "it_ok it'" and all: "all_txs it' = all_txs it"
    and ind: "\<And>ref. ref \<in> ?B \<Longrightarrow> ref \<in> ?A - {?best} \<or> tx_hash (ref_transaction ref) \<in> set (unlocks r)"
    using iter_next_ok [OF ok ne] nxt by (metis Pair_inject option.inject)
  have lower: "?f ref < ?f ?best" if "ref \<in> ?B" "ref \<notin> ?A - {?best}" for ref
    using ind [OF that(1)] that(2) ac r it_ok_independent [OF ok' that(1)] all
    unfolding acyclic_by_def by (metis option.distinct(1))
  then have best: "?best \<in> ?A - ?B" using ne by fastforce
  have split: "mset_set ?A = mset_set (?A \<inter> ?B) + mset_set (?A - ?B)"
    "mset_set ?B = mset_set (?A \<inter> ?B) + mset_set (?B - ?A)"
    by (subst mset_set_Union [symmetric]; (simp add: Un_Diff_Int Int_commute Un_commute)?; auto)+
  have "(it_weight rank it', it_weight rank it) \<in> mult less_than"
    unfolding it_weight_def split image_mset_union
  proof (rule one_step_implies_mult)
    show "image_mset ?f (mset_set (?A - ?B)) \<noteq> {#}" using best by (auto simp: mset_set_empty_iff)
    show "\<forall>k\<in>set_mset (image_mset ?f (mset_set (?B - ?A))).
      \<exists>j\<in>set_mset (image_mset ?f (mset_set (?A - ?B))). (k, j) \<in> less_than"
      using lower best by auto
  qed
  with ok' all show ?thesis by simp
qed

lemma yields_total:
  assumes "it_ok it" and "acyclic_by rank (all_txs it)"
  shows "\<exists>txs. yields it txs"
  using assms
proof (induction "it_weight rank it" arbitrary: it rule: wf_induct_rule [OF wf_mult [OF wf_less_than]])
  case 1
  show ?case
  proof (cases "iter_next it")
    case None
    then show ?thesis by (auto intro: yields.stop)
  next
    case (Some x)
    obtain tx it' where x: "x = (tx, it')" by (cases x)
    note dec = iter_next_decreases [OF "1.prems" Some [unfolded x]]
    with "1.hyps" [of it'] "1.prems" obtain txs where "yields it' txs" by auto
    with Some x show ?thesis by (auto intro: yields.step)
  qed
qed

end
