(* ===== verification/Pool_Links.thy ===== *)
theory Pool_Links
  imports Pool_Ready_Inv Pool_Iter
begin

text \<open>
  The links between ready transactions that come from accounts' nonces, for the transactions the
  RPC layer puts into the pool: every ready transaction is independent or is listed by another one
  that unlocks it, links lead from a nonce to the next one, and so the iterator of \<open>Pool_Iter\<close> ends
  and offers every ready transaction. The hash of a transaction determines its nonce; \<open>nonce_of\<close> is
  that function.
\<close>

section \<open>Transactions from the RPC layer\<close>

definition rpc_tx :: "(TxHash \<Rightarrow> nat) \<Rightarrow> PoolTransaction \<Rightarrow> bool" where
  "rpc_tx nonce_of t \<longleftrightarrow>
     (\<exists>n a. provides t = [to_marker n a] \<and> nonce_of (tx_hash t) = unat n \<and>
        (requires t = [] \<or> n \<noteq> 0 \<and> requires t = [to_marker (n - 1) a]))"

lemma rpc_tx_api:
  "nonce_of (pending_hash ptx) = unat (pending_nonce ptx) \<Longrightarrow>
   rpc_tx nonce_of (api_pool_transaction ord c ptx)"
  by (auto simp: rpc_tx_def api_pool_transaction_def Let_def required_marker_cases tx_hash_def)

lemma rpc_tx_wf: "rpc_tx nonce_of t \<Longrightarrow> wf_tx t"
  by (auto simp: rpc_tx_def wf_tx_def)

lemma rpc_tx_provides: "rpc_tx nonce_of t \<Longrightarrow> \<exists>m. provides t = [m]"
  by (auto simp: rpc_tx_def)

lemma rpc_tx_requires: "rpc_tx nonce_of t \<Longrightarrow> requires t = [] \<or> (\<exists>m. requires t = [m])"
  by (auto simp: rpc_tx_def)

lemma rpc_same_marker:
  "rpc_tx nonce_of t \<Longrightarrow> rpc_tx nonce_of u \<Longrightarrow> m \<in> set (provides t) \<Longrightarrow> m \<in> set (provides u) \<Longrightarrow>
   nonce_of (tx_hash t) = nonce_of (tx_hash u) \<and> provides t = provides u"
  by (auto simp: rpc_tx_def)

lemma unat_pred: "n \<noteq> (0 :: u64) \<Longrightarrow> unat n = Suc (unat (n - 1))"
  by (simp add: unat_minus_one unat_gt_0)

lemma rpc_next_marker:
  "rpc_tx nonce_of t \<Longrightarrow> rpc_tx nonce_of u \<Longrightarrow> m \<in> set (provides t) \<Longrightarrow> m \<in> set (requires u) \<Longrightarrow>
   nonce_of (tx_hash u) = nonce_of (tx_hash t) + 1"
  by (auto simp: rpc_tx_def unat_pred)

section \<open>The links\<close>

text \<open>\<open>E\<close> are the transactions whose link is broken for the moment: those that a transaction just
  taken out had to unlock.\<close>

definition entries_ok :: "(TxHash \<Rightarrow> nat) \<Rightarrow> (TxHash, ReadyTransaction) hmap \<Rightarrow> bool" where
  "entries_ok nonce_of ready \<longleftrightarrow>
     (\<forall>h r. hm_get ready h = Some r \<longrightarrow> tx_hash (r_tx r) = h \<and> rpc_tx nonce_of (r_tx r)) \<and>
     (\<forall>h r. hm_get ready h = Some r \<longrightarrow> (\<forall>h'\<in>set (unlocks r). nonce_of h' = nonce_of h + 1)) \<and>
     (\<forall>h r h' r'. hm_get ready h = Some r \<longrightarrow> hm_get ready h' = Some r' \<longrightarrow>
        ref_id (r_transaction r) = ref_id (r_transaction r') \<longrightarrow> h = h')"

definition linked :: "(TxHash, ReadyTransaction) hmap \<Rightarrow> TxHash \<Rightarrow> bool" where
  "linked ready h \<longleftrightarrow> (\<exists>h0 r0. hm_get ready h0 = Some r0 \<and> h \<in> set (unlocks r0))"

definition waits_for_one :: "ReadyTransaction \<Rightarrow> bool" where
  "waits_for_one r \<longleftrightarrow> requires_offset r = 0 \<and> length (requires (r_tx r)) = 1"

definition offered :: "TxHash set \<Rightarrow> (TxHash, ReadyTransaction) hmap \<Rightarrow> PoolTransactionRef list \<Rightarrow> bool" where
  "offered E ready ind \<longleftrightarrow>
     bt_sorted ind \<and>
     (\<forall>ref\<in>set ind. \<exists>r. hm_get ready (tx_hash (ref_transaction ref)) = Some r \<and> r_transaction r = ref) \<and>
     (\<forall>h r. hm_get ready h = Some r \<longrightarrow>
        r_transaction r \<in> set ind \<or> waits_for_one r \<and> (h \<in> E \<or> linked ready h))"

lemma entries_ok_tx:
  "entries_ok nonce_of ready \<Longrightarrow> hm_get ready h = Some r \<Longrightarrow> tx_hash (r_tx r) = h \<and> rpc_tx nonce_of (r_tx r)"
  by (simp add: entries_ok_def)

lemma entries_ok_link:
  "entries_ok nonce_of ready \<Longrightarrow> hm_get ready h = Some r \<Longrightarrow> h' \<in> set (unlocks r) \<Longrightarrow>
   nonce_of h' = nonce_of h + 1"
  by (simp add: entries_ok_def)

lemma entries_ok_id:
  "entries_ok nonce_of ready \<Longrightarrow> hm_get ready h = Some r \<Longrightarrow> hm_get ready h' = Some r' \<Longrightarrow>
   ref_id (r_transaction r) = ref_id (r_transaction r') \<Longrightarrow> h = h'"
  unfolding entries_ok_def by blast

lemma entries_ok_key:
  "entries_ok nonce_of ready \<Longrightarrow> hm_get ready h = Some r \<Longrightarrow> hm_get ready h' = Some r' \<Longrightarrow>
   ref_key (r_transaction r) = ref_key (r_transaction r') \<Longrightarrow> h = h'"
  by (auto simp: ref_key_eq dest: entries_ok_id)

text \<open>A change that keeps the transactions and only takes links away.\<close>

lemma entries_ok_weaken:
  assumes ok: "entries_ok nonce_of ready"
    and sub: "\<And>h r'. hm_get ready' h = Some r' \<Longrightarrow>
      \<exists>r. hm_get ready h = Some r \<and> r_transaction r = r_transaction r' \<and> set (unlocks r') \<subseteq> set (unlocks r)"
  shows "entries_ok nonce_of ready'"
  unfolding entries_ok_def
proof (intro conjI allI impI)
  fix h r assume "hm_get ready' h = Some r"
  from sub [OF this] show "tx_hash (r_tx r) = h" "rpc_tx nonce_of (r_tx r)"
    "\<forall>h'\<in>set (unlocks r). nonce_of h' = nonce_of h + 1"
    by (auto dest: entries_ok_tx [OF ok] entries_ok_link [OF ok])
next
  fix h r h' r' assume "hm_get ready' h = Some r" "hm_get ready' h' = Some r'"
    "ref_id (r_transaction r) = ref_id (r_transaction r')"
  then show "h = h'" using sub [of h r] sub [of h' r'] entries_ok_id [OF ok] by metis
qed

lemma bt_insert_mem:
  "(\<And>y. y \<in> set xs \<Longrightarrow> ref_key y = ref_key x \<Longrightarrow> y = x) \<Longrightarrow> x \<in> set (bt_insert x xs)"
proof (induction xs)
  case (Cons y ys)
  have "y = x" if "ref_key x = ref_key y" using Cons.prems [of y] that by simp
  moreover have "x \<in> set (bt_insert x ys)" using Cons.IH Cons.prems by simp
  ultimately show ?case by (auto simp: ref_cmp_key)
qed simp

section \<open>Taking a transaction out\<close>

lemma position_absent: "x \<notin> set xs \<Longrightarrow> position (\<lambda>i. i = x) xs = None"
  by (auto simp: position_None)

text \<open>The step headed \<open>remove from unlocks\<close> changes nothing: no transaction unlocks itself.\<close>

lemma drop_from_unlocks_same:
  assumes "entries_ok nonce_of ready"
  shows "foldl (drop_from_unlocks prov) ready ms = ready"
proof (induction ms)
  case (Cons m ms)
  have "h \<notin> set (unlocks r)" if "hm_get ready h = Some r" for h r
    using entries_ok_link [OF assms that, of h] by auto
  then have "drop_from_unlocks prov ready m = ready"
    by (auto simp: drop_from_unlocks_def position_absent split: option.splits)
  with Cons.IH show ?case by simp
qed simp

lemma entries_ok_remove: "entries_ok nonce_of ready \<Longrightarrow> entries_ok nonce_of (hm_remove h ready)"
  by (erule entries_ok_weaken) (auto simp: cont_simps split: if_splits)

lemma ready_remove_entry:
  "entries_ok nonce_of (ready_tx s) \<Longrightarrow> ready_tx (remove_entry f h r s) = hm_remove h (ready_tx s)"
  by (simp add: remove_entry_def Let_def drop_from_unlocks_same [OF entries_ok_remove])

lemma offered_remove:
  assumes ok: "entries_ok nonce_of ready" and off: "offered E ready ind" and r: "hm_get ready h = Some r"
  shows "offered (E \<union> set (unlocks r)) (hm_remove h ready) (bt_remove (r_transaction r) ind)"
  unfolding offered_def
proof (intro conjI ballI allI impI)
  show "bt_sorted (bt_remove (r_transaction r) ind)"
    using off by (simp add: offered_def bt_sorted_remove)
  fix ref assume ref: "ref \<in> set (bt_remove (r_transaction r) ind)"
  then have "ref \<in> set ind" "ref \<noteq> r_transaction r" by (auto simp: bt_remove_def)
  then show "\<exists>r'. hm_get (hm_remove h ready) (tx_hash (ref_transaction ref)) = Some r' \<and> r_transaction r' = ref"
    using off r by (force simp: offered_def cont_simps)
next
  fix h' r' assume r': "hm_get (hm_remove h ready) h' = Some r'"
  then have ne: "h' \<noteq> h" and old: "hm_get ready h' = Some r'" by (auto simp: cont_simps split: if_splits)
  have "r_transaction r' \<in> set (bt_remove (r_transaction r) ind)" if "r_transaction r' \<in> set ind"
    using that entries_ok_key [OF ok r old] ne by (auto simp: bt_remove_def ref_cmp_key)
  moreover have "h' \<in> set (unlocks r) \<or> linked (hm_remove h ready) h'" if "linked ready h'"
  proof -
    from that obtain h0 r0 where "hm_get ready h0 = Some r0" "h' \<in> set (unlocks r0)"
      by (auto simp: linked_def)
    with r show ?thesis by (cases "h0 = h") (auto simp: linked_def cont_simps)
  qed
  ultimately show "r_transaction r' \<in> set (bt_remove (r_transaction r) ind) \<or>
      waits_for_one r' \<and> (h' \<in> E \<union> set (unlocks r) \<or> linked (hm_remove h ready) h')"
    using off old by (auto simp: offered_def)
qed

lemma offered_mono:
  "offered E ready ind \<Longrightarrow> (\<And>h r. hm_get ready h = Some r \<Longrightarrow> h \<in> E \<Longrightarrow> h \<in> E' \<or> linked ready h) \<Longrightarrow>
   offered E' ready ind"
  unfolding offered_def by blast

definition links_at :: "(TxHash \<Rightarrow> nat) \<Rightarrow> TxHash set \<Rightarrow> ReadyTransactions \<Rightarrow> bool" where
  "links_at nonce_of E s \<longleftrightarrow> entries_ok nonce_of (ready_tx s) \<and>
     offered E (ready_tx s) (independent_transactions s) \<and>
     (\<forall>h r. hm_get (ready_tx s) h = Some r \<longrightarrow> ref_id (r_transaction r) < ready_id s)"

abbreviation links_inv :: "(TxHash \<Rightarrow> nat) \<Rightarrow> ReadyTransactions \<Rightarrow> bool" where
  "links_inv nonce_of s \<equiv> links_at nonce_of {} s"

lemma links_at_entries: "links_at nonce_of E s \<Longrightarrow> entries_ok nonce_of (ready_tx s)"
  by (simp add: links_at_def)

lemma links_at_mono:
  "links_at nonce_of E s \<Longrightarrow> (\<And>h r. hm_get (ready_tx s) h = Some r \<Longrightarrow> h \<in> E \<Longrightarrow> h \<in> E') \<Longrightarrow>
   links_at nonce_of E' s"
  unfolding links_at_def by (blast intro: offered_mono)

lemma links_empty: "links_inv nonce_of empty_ready"
  by (simp add: links_at_def empty_ready_def entries_ok_def offered_def bt_sorted_def)

lemma links_clear: "links_inv nonce_of (ready_clear s)"
  by (simp add: links_at_def ready_clear_def entries_ok_def offered_def bt_sorted_def)

lemma links_remove_entry:
  assumes l: "links_at nonce_of E s" and r: "hm_get (ready_tx s) h = Some r"
  shows "links_at nonce_of (E \<union> set (unlocks r)) (remove_entry f h r s)"
proof -
  note ok = links_at_entries [OF l]
  have "independent_transactions (remove_entry f h r s) =
      bt_remove (r_transaction r) (independent_transactions s)"
    by (simp add: remove_entry_def Let_def)
  moreover have "offered (E \<union> set (unlocks r)) (hm_remove h (ready_tx s))
      (bt_remove (r_transaction r) (independent_transactions s))"
    using l by (intro offered_remove [OF ok _ r]) (simp add: links_at_def)
  ultimately show ?thesis
    using l by (auto simp: links_at_def ready_remove_entry [OF ok] entries_ok_remove cont_simps split: if_splits)
qed

lemma links_remove_loop:
  "links_at nonce_of (set hs) s \<Longrightarrow> f = None \<Longrightarrow> remove_loop f hs s = (rs, s') \<Longrightarrow> links_inv nonce_of s'"
proof (induction f hs s arbitrary: rs rule: remove_loop.induct)
  case (1 f s)
  then show ?case by simp
next
  case (2 f h hs s)
  show ?case
  proof (cases "hm_get (ready_tx s) h")
    case None
    have "links_at nonce_of (set hs) s"
      by (rule links_at_mono [OF "2.prems"(1)]) (use None in auto)
    with "2.IH"(1) [OF None] "2.prems" None show ?thesis by simp
  next
    case (Some r)
    note ok = links_at_entries [OF "2.prems"(1)]
    obtain m where "provides (r_tx r) = [m]"
      using entries_ok_tx [OF ok Some] rpc_tx_provides by blast
    then have inval: "invalidated f (r_tx r) \<noteq> []" using "2.prems"(2) by (simp add: invalidated_def)
    let ?hs = "rev (unlocks r) @ hs"
    obtain rs' where loop: "remove_loop f ?hs (remove_entry f h r s) = (rs', s')"
      using "2.prems"(3) Some inval by (auto simp: Let_def split: prod.splits)
    have "hm_get (ready_tx (remove_entry f h r s)) h = None"
      by (simp add: ready_remove_entry [OF ok] cont_simps)
    then have "links_at nonce_of (set ?hs) (remove_entry f h r s)"
      by (intro links_at_mono [OF links_remove_entry [OF "2.prems"(1) Some]]) auto
    then show ?thesis
      using "2.IH"(2) [OF Some, of ?hs] inval loop "2.prems"(2) by simp
  qed
qed

lemma links_remove:
  "links_inv nonce_of s \<Longrightarrow> remove_with_markers hs None s = (rs, s') \<Longrightarrow> links_inv nonce_of s'"
  unfolding remove_with_markers_def
  by (rule links_remove_loop) (auto intro: links_at_mono)

section \<open>Adding\<close>

lemma order_single: "hash_order order \<Longrightarrow> order [h] = [h]"
  using hash_order.mset_order [of order "[h]"] by simp

lemma links_replaced:
  assumes ord: "hash_order order" and inv: "ready_inv s" and l: "links_inv nonce_of s"
    and tx: "rpc_tx nonce_of tx"
    and rep: "replaced_transactions order tx s = (Inr (rs, us), s1)"
  shows "links_at nonce_of (set us) s1 \<and> (\<forall>h'\<in>set us. nonce_of h' = nonce_of (tx_hash tx) + 1)"
proof -
  note ok = links_at_entries [OF l]
  obtain m where m: "provides tx = [m]" using rpc_tx_provides [OF tx] by blast
  show ?thesis
  proof (cases "hm_get (provided_markers s) m")
    case None
    then show ?thesis
      using rep m l hash_order.order_Nil [OF ord]
      by (auto simp: replaced_transactions_def List.map_filter_def hs_from_def)
  next
    case (Some h)
    have marks: "marks_ok {} s" using inv by (simp add: ready_inv_def)
    obtain t where t: "ready_txs s h = Some t" "m \<in> set (provides t)"
      using marks_ok_ready [OF marks Some] by auto
    then obtain r where r: "hm_get (ready_tx s) h = Some r" "r_tx r = t"
      by (auto simp: ready_txs_def txs_of_def)
    have rt: "tx_hash t = h" "rpc_tx nonce_of t" using entries_ok_tx [OF ok r(1)] r(2) by auto
    have same: "nonce_of h = nonce_of (tx_hash tx)" "provides t = [m]"
      using rpc_same_marker [OF rt(2) tx t(2)] m rt(1) by auto
    have hs: "order (hs_from (List.map_filter (hm_get (provided_markers s)) (provides tx))) = [h]"
      using Some m order_single [OF ord] by (simp add: List.map_filter_def hs_from_def hs_insert_def)
    have us: "us = unlocks r" and s1: "s1 = remove_entry (Some (hs_from [m])) h r s"
      using rep hs m r same(2)
      by (auto simp: replaced_transactions_def List.map_filter_def remove_with_markers_def Let_def
          invalidated_def hs_from_def hs_insert_def split: if_splits prod.splits)
    have "links_at nonce_of (set (unlocks r)) s1"
      using links_remove_entry [OF l r(1)] s1 by simp
    with us same entries_ok_link [OF ok r(1)] show ?thesis by simp
  qed
qed

text \<open>Links may be added to the nonce that follows.\<close>

lemma add_link_ok:
  assumes l: "links_at nonce_of E s" and r: "hm_get (ready_tx s) h0 = Some r"
    and n: "nonce_of h = nonce_of h0 + 1"
  shows "links_at nonce_of E (s\<lparr>ready_tx := hm_insert h0 (r\<lparr>unlocks := unlocks r @ [h]\<rparr>) (ready_tx s)\<rparr>)"
    (is "links_at _ _ ?s")
proof -
  note ok = links_at_entries [OF l]
  have get: "hm_get (ready_tx ?s) h' =
      (if h' = h0 then Some (r\<lparr>unlocks := unlocks r @ [h]\<rparr>) else hm_get (ready_tx s) h')" for h'
    by (simp add: cont_simps)
  have same: "\<exists>q. hm_get (ready_tx s) h' = Some q \<and> r_transaction q = r_transaction q' \<and>
      requires_offset q = requires_offset q' \<and>
      (\<forall>x\<in>set (unlocks q'). x \<in> set (unlocks q) \<or> h' = h0 \<and> x = h)"
    if "hm_get (ready_tx ?s) h' = Some q'" for h' q'
    using that r unfolding get by (auto split: if_splits)
  have "entries_ok nonce_of (ready_tx ?s)"
    unfolding entries_ok_def
  proof (intro conjI allI impI)
    fix h' q' assume "hm_get (ready_tx ?s) h' = Some q'"
    from same [OF this] show "tx_hash (r_tx q') = h'" "rpc_tx nonce_of (r_tx q')"
      "\<forall>x\<in>set (unlocks q'). nonce_of x = nonce_of h' + 1"
      using n by (auto dest: entries_ok_tx [OF ok] entries_ok_link [OF ok])
  next
    fix h' q' h'' q'' assume "hm_get (ready_tx ?s) h' = Some q'" "hm_get (ready_tx ?s) h'' = Some q''"
      "ref_id (r_transaction q') = ref_id (r_transaction q'')"
    then show "h' = h''" using same [of h' q'] same [of h'' q''] entries_ok_id [OF ok] by metis
  qed
  moreover have "linked (ready_tx ?s) x" if "linked (ready_tx s) x" for x
  proof -
    from that obtain h1 r1 where "hm_get (ready_tx s) h1 = Some r1" "x \<in> set (unlocks r1)"
      by (auto simp: linked_def)
    with r show ?thesis
      unfolding linked_def get by (cases "h1 = h0") (auto intro!: exI [of _ h1])
  qed
  then have "offered E (ready_tx ?s) (independent_transactions s)"
    using l r unfolding links_at_def offered_def get by (auto simp: waits_for_one_def)
  moreover have "ref_id (r_transaction q') < ready_id s" if "hm_get (ready_tx ?s) h' = Some q'" for h' q'
    using same [OF that] l unfolding links_at_def by metis
  ultimately show ?thesis by (simp add: links_at_def)
qed

lemma unat_next_id: "w \<noteq> - 1 \<Longrightarrow> unat (w + 1) = unat w + 1" for w :: u64
  using unat_Suc_less_iff [of w] unat_add_no_wrap [of w 1] by simp

lemma insert_entry_ok:
  fixes s nonce_of tx us offset
  defines "ref \<equiv> \<lparr>ref_transaction = tx, ref_id = ready_id s\<rparr>"
  defines "e \<equiv> \<lparr>r_transaction = ref, unlocks = us, requires_offset = offset\<rparr>"
  assumes l: "links_at nonce_of (set us) s" and tx: "rpc_tx nonce_of tx"
    and us: "\<forall>h'\<in>set us. nonce_of h' = nonce_of (tx_hash tx) + 1"
    and new: "hm_get (ready_tx s) (tx_hash tx) = None" and id: "ready_id s \<noteq> - 1"
    and ind: "indep \<or> waits_for_one e \<and> linked (ready_tx s) (tx_hash tx)"
    and s': "ready_tx s' = hm_insert (tx_hash tx) e (ready_tx s)" "ready_id s' = ready_id s + 1"
      "independent_transactions s' =
         (if indep then bt_insert ref (independent_transactions s) else independent_transactions s)"
  shows "links_inv nonce_of s'"
proof -
  let ?h = "tx_hash tx" and ?ind = "independent_transactions s"
  note ok = links_at_entries [OF l]
  have get: "hm_get (ready_tx s') h = (if h = ?h then Some e else hm_get (ready_tx s) h)" for h
    by (simp add: s' cont_simps)
  have older: "ref_id (r_transaction r) < ready_id s" if "hm_get (ready_tx s) h = Some r" for h r
    using l that by (simp add: links_at_def)
  have off: "offered (set us) (ready_tx s) ?ind" using l by (simp add: links_at_def)
  have "entries_ok nonce_of (ready_tx s')"
    unfolding entries_ok_def
  proof (intro conjI allI impI)
    fix h r assume "hm_get (ready_tx s') h = Some r"
    then show "tx_hash (r_tx r) = h" "rpc_tx nonce_of (r_tx r)"
      "\<forall>h'\<in>set (unlocks r). nonce_of h' = nonce_of h + 1"
      using us tx by (auto simp: get e_def ref_def split: if_splits
          dest: entries_ok_tx [OF ok] entries_ok_link [OF ok])
  next
    fix h r h' r' assume "hm_get (ready_tx s') h = Some r" "hm_get (ready_tx s') h' = Some r'"
      "ref_id (r_transaction r) = ref_id (r_transaction r')"
    then show "h = h'"
      using older [of h r] older [of h' r'] entries_ok_id [OF ok, of h r h' r']
      by (auto simp: get e_def ref_def split: if_splits)
  qed
  moreover have "ref_id (r_transaction r) < ready_id s'" if "hm_get (ready_tx s') h = Some r" for h r
  proof -
    have less: "ready_id s < ready_id s'"
      unfolding s'(2) word_less_nat_alt using unat_next_id [OF id] by simp
    with that older less_trans [OF older less] show ?thesis
      by (auto simp: get e_def ref_def split: if_splits)
  qed
  moreover have "offered {} (ready_tx s') (independent_transactions s')"
    unfolding offered_def
  proof (intro conjI ballI allI impI)
    show "bt_sorted (independent_transactions s')"
      using off by (simp add: s' offered_def bt_sorted_insert)
    fix r assume "r \<in> set (independent_transactions s')"
    then consider "r = ref" | "r \<in> set ?ind"
      using set_bt_insert [of ref ?ind] by (auto simp: s' split: if_splits)
    then show "\<exists>q. hm_get (ready_tx s') (tx_hash (ref_transaction r)) = Some q \<and> r_transaction q = r"
      using off new by cases (force simp: get e_def ref_def offered_def)+
  next
    fix h r assume r: "hm_get (ready_tx s') h = Some r"
    have keep: "linked (ready_tx s') x" if "linked (ready_tx s) x" for x
    proof -
      from that obtain h0 r0 where "hm_get (ready_tx s) h0 = Some r0" "x \<in> set (unlocks r0)"
        by (auto simp: linked_def)
      with new show ?thesis
        unfolding linked_def get by (intro exI [of _ h0] exI [of _ r0]) auto
    qed
    have us': "linked (ready_tx s') x" if "x \<in> set us" for x
      unfolding linked_def get using that by (intro exI [of _ ?h] exI [of _ e]) (simp add: e_def)
    have fresh: "y = ref" if "y \<in> set ?ind" "ref_key y = ref_key ref" for y
    proof -
      from off that(1) obtain q where "hm_get (ready_tx s) (tx_hash (ref_transaction y)) = Some q" "r_transaction q = y"
        by (auto simp: offered_def)
      with older have "ref_id y < ready_id s" by metis
      with that(2) show ?thesis by (simp add: ref_key_eq ref_def)
    qed
    show "r_transaction r \<in> set (independent_transactions s') \<or>
        waits_for_one r \<and> (h \<in> {} \<or> linked (ready_tx s') h)"
    proof (cases "h = ?h")
      case True
      have "ref \<in> set (bt_insert ref ?ind)" by (rule bt_insert_mem) (rule fresh)
      moreover have "r = e" using r True get by simp
      moreover have "r_transaction e = ref" by (simp add: e_def)
      ultimately show ?thesis using ind keep True s'(3) by auto
    next
      case False
      then have old: "hm_get (ready_tx s) h = Some r" using r get by simp
      have "y \<in> set (independent_transactions s')" if "y \<in> set ?ind" for y
        using that by (simp add: s'(3) bt_insert_keeps)
      with off old keep us' show ?thesis unfolding offered_def by blast
    qed
  qed
  ultimately show ?thesis by (simp add: links_at_def)
qed

lemma link_requires_links:
  assumes l: "links_at nonce_of E s" and tx: "rpc_tx nonce_of tx"
    and marks: "marks_ok (set (provides tx)) s"
    and link: "link_requires (tx_hash tx) (provided_markers s) (requires tx) (ready_tx s) =
      Some (indep, offset, ready)"
  shows "links_at nonce_of E (s\<lparr>ready_tx := ready\<rparr>) \<and>
    (indep \<or> offset = 0 \<and> length (requires tx) = 1 \<and> linked ready (tx_hash tx))"
proof (cases "requires tx")
  case Nil
  with link l show ?thesis by auto
next
  case (Cons m ms)
  then have req: "requires tx = [m]" using rpc_tx_requires [OF tx] by auto
  show ?thesis
  proof (cases "hm_get (provided_markers s) m")
    case None
    with link req l show ?thesis by auto
  next
    case (Some h0)
    then obtain r where r: "hm_get (ready_tx s) h0 = Some r"
      and eq: "ready = hm_insert h0 (r\<lparr>unlocks := unlocks r @ [tx_hash tx]\<rparr>) (ready_tx s)" "offset = 0"
      using link req by (auto split: option.splits)
    have "m \<notin> set (provides tx)" using rpc_tx_wf [OF tx] req by (simp add: wf_tx_def)
    with marks_ok_ready [OF marks Some] r have "m \<in> set (provides (r_tx r))"
      by (auto simp: ready_txs_def txs_of_def)
    then have "nonce_of (tx_hash tx) = nonce_of h0 + 1"
      using rpc_next_marker [of nonce_of "r_tx r" tx m] entries_ok_tx [OF links_at_entries [OF l] r] tx req
      by simp
    from add_link_ok [OF l r this] eq req show ?thesis
      by (auto simp: linked_def cont_simps intro!: exI [of _ h0])
  qed
qed

lemma links_ready_add:
  assumes ord: "hash_order order" and inv: "ready_inv s" and l: "links_inv nonce_of s"
    and tx: "rpc_tx nonce_of (p_transaction p)" and id: "ready_id s \<noteq> - 1"
    and res: "ready_add_transaction order p s = Some (r, s')"
  shows "links_inv nonce_of s' \<and> unat (ready_id s') \<le> unat (ready_id s) + 1"
proof -
  let ?tx = "p_transaction p"
  have new: "hm_get (ready_tx s) (p_hash p) = None"
    using res by (auto simp: ready_add_transaction_def hm_contains_def split: if_splits)
  obtain q s1 where rep: "replaced_transactions order ?tx s = (q, s1)" by fastforce
  note after = replaced_transactions_ok [OF ord inv rep]
  show ?thesis
  proof (cases q)
    case (Inl e)
    with res rep after l show ?thesis
      by (auto simp: ready_add_transaction_def split: if_splits)
  next
    case (Inr x)
    obtain rs us where x: "x = (rs, us)" by (cases x)
    have l1: "links_at nonce_of (set us) s1" and us: "\<forall>h'\<in>set us. nonce_of h' = nonce_of (p_hash p) + 1"
      using links_replaced [OF ord inv l tx] rep Inr x by auto
    have clr: "marks_ok (set (provides ?tx)) s1" and rm: "removes_to s rs s1" and id1: "ready_id s1 = ready_id s"
      using after Inr x by (auto simp: cleared_for_def)
    have new1: "hm_get (ready_tx s1) (p_hash p) = None"
      using removes_to_None [OF rm, of "p_hash p"] new by (simp add: ready_txs_None)
    let ?link = "link_requires (p_hash p) (provided_markers s1) (requires ?tx) (ready_tx s1)"
    obtain indep offset ready where link: "?link = Some (indep, offset, ready)"
      using res rep Inr x by (cases ?link) (auto simp: ready_add_transaction_def next_id_def split: if_splits)
    note linked = link_requires_links [OF l1 tx clr link]
    have "txs_of ready (p_hash p) = None"
      using txs_link_requires [OF link] new1 by (simp add: txs_of_def)
    then have new2: "hm_get ready (p_hash p) = None" by (simp add: txs_of_def)
    have s': "ready_id s' = ready_id s1 + 1"
      "ready_tx s' = hm_insert (p_hash p) \<lparr>r_transaction = \<lparr>ref_transaction = ?tx, ref_id = ready_id s1\<rparr>,
         unlocks = us, requires_offset = offset\<rparr> ready"
      "independent_transactions s' = (if indep
         then bt_insert \<lparr>ref_transaction = ?tx, ref_id = ready_id s1\<rparr> (independent_transactions s1)
         else independent_transactions s1)"
      using res rep Inr x link
      by (auto simp: ready_add_transaction_def next_id_def Let_def split: if_splits)
    have "links_inv nonce_of s'"
      using linked new2 us id id1 s'
      by (intro insert_entry_ok [where s = "s1\<lparr>ready_tx := ready\<rparr>" and indep = indep, OF _ tx])
        (auto simp: waits_for_one_def)
    with s'(1) id1 unat_next_id [OF id] show ?thesis by simp
  qed
qed

section \<open>Pruning\<close>

lemma links_take_link:
  assumes l: "links_at nonce_of E s" and q: "hm_get (ready_tx s) h0 = Some q"
    and sub: "mset us \<subseteq># mset (unlocks q)" and only: "\<And>x. x \<in> set (unlocks q) \<Longrightarrow> x \<noteq> h \<Longrightarrow> x \<in> set us"
    and gone: "hm_get (ready_tx s) h = None"
  shows "links_at nonce_of E (s\<lparr>ready_tx := hm_insert h0 (q\<lparr>unlocks := us\<rparr>) (ready_tx s)\<rparr>)" (is "links_at _ _ ?s")
proof -
  note ok = links_at_entries [OF l]
  have get: "hm_get (ready_tx ?s) h' =
      (if h' = h0 then Some (q\<lparr>unlocks := us\<rparr>) else hm_get (ready_tx s) h')" for h'
    by (simp add: cont_simps)
  have us: "set us \<subseteq> set (unlocks q)" using sub by (metis set_mset_mono set_mset_mset)
  have "entries_ok nonce_of (ready_tx ?s)"
    by (rule entries_ok_weaken [OF ok]) (use q us in \<open>auto simp: cont_simps split: if_splits\<close>)
  moreover have "linked (ready_tx ?s) x" if "linked (ready_tx s) x" "x \<noteq> h" for x
  proof -
    from that(1) obtain h1 r1 where "hm_get (ready_tx s) h1 = Some r1" "x \<in> set (unlocks r1)"
      by (auto simp: linked_def)
    with q only [OF _ that(2)] show ?thesis
      unfolding linked_def get by (cases "h1 = h0") (auto intro!: exI [of _ h1])
  qed
  then have "offered E (ready_tx ?s) (independent_transactions s)"
    using l q gone unfolding links_at_def offered_def get
    by (auto simp: waits_for_one_def) (metis option.distinct(1))+
  ultimately show ?thesis
    using l q by (auto simp: links_at_def cont_simps split: if_splits)
qed

lemma links_prune_previous:
  "links_at nonce_of E (s\<lparr>ready_tx := ready\<rparr>) \<Longrightarrow> hm_get ready h = None \<Longrightarrow>
   prune_previous h prov ms ready = (tags, ready') \<Longrightarrow> links_at nonce_of E (s\<lparr>ready_tx := ready'\<rparr>)"
proof (induction ms arbitrary: ready tags)
  case Nil
  then show ?case by simp
next
  case (Cons m ms)
  let ?look = "Option.bind (hm_get prov m) (\<lambda>prev. map_option (Pair prev) (hm_get ready prev))"
  show ?case
  proof (cases ?look)
    case None
    with Cons show ?thesis by simp
  next
    case (Some x)
    then obtain prev tx2 where x: "x = (prev, tx2)" and tx2: "hm_get ready prev = Some tx2"
      by (cases x) (auto split: bind_splits)
    let ?us = "case position (\<lambda>i. i = h) (unlocks tx2) of None \<Rightarrow> unlocks tx2
      | Some idx \<Rightarrow> swap_remove idx (unlocks tx2)"
    have us: "mset ?us \<subseteq># mset (unlocks tx2)" "\<And>y. y \<in> set (unlocks tx2) \<Longrightarrow> y \<noteq> h \<Longrightarrow> y \<in> set ?us"
    proof -
      show "mset ?us \<subseteq># mset (unlocks tx2)"
        by (auto simp: mset_swap_remove dest!: position_Some split: option.splits)
      fix y assume "y \<in> set (unlocks tx2)" "y \<noteq> h"
      then show "y \<in> set ?us"
        by (auto simp: mset_swap_remove in_diff_count simp flip: set_mset_mset
            dest!: position_Some split: option.splits)
    qed
    have gone: "hm_get (hm_insert prev (tx2\<lparr>unlocks := ?us\<rparr>) ready) h = None"
      using Cons.prems(2) tx2 by (auto simp: cont_simps)
    have "links_at nonce_of E (s\<lparr>ready_tx := hm_insert prev (tx2\<lparr>unlocks := ?us\<rparr>) ready\<rparr>)"
      using links_take_link [OF Cons.prems(1), of prev tx2 ?us h] tx2 us Cons.prems(2) by simp
    moreover obtain tags' where "prune_previous h prov ms (hm_insert prev (tx2\<lparr>unlocks := ?us\<rparr>) ready) = (tags', ready')"
      using Cons.prems(3) Some x by (auto simp: Let_def split: prod.splits)
    ultimately show ?thesis using Cons.IH gone by blast
  qed
qed

lemma links_unlock:
  assumes l: "links_at nonce_of (insert h E) s" and r: "hm_get (ready_tx s) h = Some r"
    and s': "s' = s\<lparr>ready_tx := hm_insert h (r\<lparr>requires_offset := requires_offset r + 1\<rparr>) (ready_tx s),
       independent_transactions :=
         (if requires_offset r + 1 = length (requires (r_tx r))
          then bt_insert (r_transaction r) (independent_transactions s) else independent_transactions s)\<rparr>"
  shows "links_at nonce_of E s'"
proof -
  let ?ind = "independent_transactions s"
  note ok = links_at_entries [OF l]
  have off: "offered (insert h E) (ready_tx s) ?ind" using l by (simp add: links_at_def)
  have get: "hm_get (ready_tx s') h' =
      (if h' = h then Some (r\<lparr>requires_offset := requires_offset r + 1\<rparr>) else hm_get (ready_tx s) h')" for h'
    by (simp add: s' cont_simps)
  have "entries_ok nonce_of (ready_tx s')"
    by (rule entries_ok_weaken [OF ok]) (use r in \<open>auto simp: get split: if_splits\<close>)
  moreover have "ref_id (r_transaction q) < ready_id s'" if "hm_get (ready_tx s') h' = Some q" for h' q
    using that l r by (auto simp: cont_simps links_at_def s' split: if_splits)
  moreover have "offered E (ready_tx s') (independent_transactions s')"
    unfolding offered_def
  proof (intro conjI ballI allI impI)
    show "bt_sorted (independent_transactions s')"
      using off by (simp add: s' offered_def bt_sorted_insert)
    fix ref assume "ref \<in> set (independent_transactions s')"
    then consider "ref = r_transaction r" | "ref \<in> set ?ind"
      using set_bt_insert [of "r_transaction r" ?ind] by (auto simp: s' split: if_splits)
    then show "\<exists>q. hm_get (ready_tx s') (tx_hash (ref_transaction ref)) = Some q \<and> r_transaction q = ref"
    proof cases
      case 1
      then show ?thesis using entries_ok_tx [OF ok r] by (simp add: get)
    next
      case 2
      then obtain q where "hm_get (ready_tx s) (tx_hash (ref_transaction ref)) = Some q" "r_transaction q = ref"
        using off by (auto simp: offered_def)
      then show ?thesis using r by (auto simp: get)
    qed
  next
    fix h' q assume q: "hm_get (ready_tx s') h' = Some q"
    have "y = r_transaction r" if "y \<in> set ?ind" "ref_key y = ref_key (r_transaction r)" for y
    proof -
      obtain q where "hm_get (ready_tx s) (tx_hash (ref_transaction y)) = Some q" "r_transaction q = y"
        using off \<open>y \<in> set ?ind\<close> by (auto simp: offered_def)
      with entries_ok_key [OF ok _ r] that(2) r show ?thesis by (metis option.inject)
    qed
    then have mem: "r_transaction r \<in> set (bt_insert (r_transaction r) ?ind)" by (rule bt_insert_mem)
    have lk: "linked (ready_tx s') x = linked (ready_tx s) x" for x
    proof -
      have "(\<exists>q. hm_get (ready_tx s') k = Some q \<and> x \<in> set (unlocks q)) \<longleftrightarrow>
          (\<exists>q. hm_get (ready_tx s) k = Some q \<and> x \<in> set (unlocks q))" for k
        using r by (auto simp: get)
      then show ?thesis by (simp only: linked_def)
    qed
    have old: "hm_get (ready_tx s) x = Some y \<Longrightarrow> r_transaction y \<in> set ?ind \<or>
        waits_for_one y \<and> (x = h \<or> x \<in> E \<or> linked (ready_tx s) x)" for x y
      using off by (simp add: offered_def)
    show "r_transaction q \<in> set (independent_transactions s') \<or>
        waits_for_one q \<and> (h' \<in> E \<or> linked (ready_tx s') h')"
    proof (cases "h' = h")
      case True
      have "q = r\<lparr>requires_offset := requires_offset r + 1\<rparr>" using q True get by simp
      with old [OF r] mem show ?thesis by (auto simp: s' bt_insert_keeps waits_for_one_def)
    next
      case False
      then have "hm_get (ready_tx s) h' = Some q" using q get by simp
      from old [OF this] False lk show ?thesis by (auto simp: s' bt_insert_keeps)
    qed
  qed
  ultimately show ?thesis by (simp add: links_at_def)
qed

lemma links_prune_unlock:
  "links_at nonce_of (set hs) (s\<lparr>ready_tx := ready, independent_transactions := ind\<rparr>) \<Longrightarrow>
   prune_unlock hs ready ind = (ready', ind') \<Longrightarrow>
   links_inv nonce_of (s\<lparr>ready_tx := ready', independent_transactions := ind'\<rparr>)"
proof (induction hs ready ind rule: prune_unlock.induct)
  case (1 ready ind)
  then show ?case by simp
next
  case (2 h hs ready ind)
  let ?s = "s\<lparr>ready_tx := ready, independent_transactions := ind\<rparr>"
  show ?case
  proof (cases "hm_get ready h")
    case None
    have "links_at nonce_of (set hs) ?s"
      by (rule links_at_mono [OF "2.prems"(1)]) (use None in auto)
    with "2.IH"(1) "2.prems" None show ?thesis by simp
  next
    case (Some r)
    let ?r = "r\<lparr>requires_offset := requires_offset r + 1\<rparr>"
    let ?ind = "if requires_offset r + 1 = length (requires (r_tx r)) then bt_insert (r_transaction r) ind else ind"
    have "links_at nonce_of (set hs)
        (s\<lparr>ready_tx := hm_insert h ?r ready, independent_transactions := ?ind\<rparr>)"
      by (rule links_unlock [where s = ?s and h = h and r = r]) (use "2.prems"(1) Some in simp_all)
    moreover have "prune_unlock hs (hm_insert h ?r ready) ?ind = (ready', ind')"
      using "2.prems"(2) Some by (simp add: Let_def split: if_splits)
    ultimately show ?thesis
      using "2.IH"(2) [OF Some, of ?r] by (simp cong del: if_weak_cong)
  qed
qed

lemma links_prune_entry:
  assumes l: "links_inv nonce_of s" and r: "hm_get (ready_tx s) h = Some r"
    and res: "prune_entry m h r s = Some (tags, s')"
  shows "links_inv nonce_of s' \<and> ready_id s' = ready_id s"
proof -
  let ?prov = "hm_remove m (provided_markers s)" and ?ind = "bt_remove (r_transaction r) (independent_transactions s)"
  note ok = links_at_entries [OF l]
  have h: "tx_hash (r_tx r) = h" using entries_ok_tx [OF ok r] by simp
  obtain tg ready1 where p1: "prune_previous h ?prov (requires (r_tx r)) (hm_remove h (ready_tx s)) = (tg, ready1)"
    by fastforce
  obtain ready2 ind where p2: "prune_unlock (unlocks r) ready1 ?ind = (ready2, ind)" by fastforce
  obtain prov' where s': "s' = s\<lparr>provided_markers := prov', ready_tx := ready2, independent_transactions := ind\<rparr>"
    using res p1 p2 h by (auto simp: prune_entry_def Let_def split: bind_splits)
  have "offered (set (unlocks r)) (hm_remove h (ready_tx s)) ?ind"
    using offered_remove [OF ok _ r, of "{}"] l by (simp add: links_at_def)
  then have "links_at nonce_of (set (unlocks r))
      ((s\<lparr>independent_transactions := ?ind\<rparr>)\<lparr>ready_tx := hm_remove h (ready_tx s)\<rparr>)"
    using l entries_ok_remove [OF ok] by (auto simp: links_at_def cont_simps split: if_splits)
  from links_prune_previous [OF this _ p1]
  have "links_at nonce_of (set (unlocks r)) (s\<lparr>independent_transactions := ?ind, ready_tx := ready1\<rparr>)"
    by (simp add: cont_simps)
  then have "links_at nonce_of (set (unlocks r)) (s\<lparr>ready_tx := ready1, independent_transactions := ?ind\<rparr>)"
    by (simp add: links_at_def)
  from links_prune_unlock [OF this p2] s' show ?thesis
    by (simp add: links_at_def)
qed

lemma links_prune_loop:
  "links_inv nonce_of s \<Longrightarrow> prune_loop ms s = Some (rs, s') \<Longrightarrow> links_inv nonce_of s'"
proof (induction ms s arbitrary: rs s' rule: prune_loop.induct)
  case (1 s)
  then show ?case by simp
next
  case (2 m ms s)
  let ?look = "Option.bind (hm_get (provided_markers s) m) (\<lambda>h. map_option (Pair h) (hm_get (ready_tx s) h))"
  show ?case
  proof (cases ?look)
    case None
    moreover have "links_inv nonce_of (s\<lparr>provided_markers := hm_remove m (provided_markers s)\<rparr>)"
      using "2.prems"(1) by (simp add: links_at_def)
    ultimately show ?thesis using "2.IH"(1) "2.prems"(2) by simp
  next
    case (Some x)
    then obtain h r where x: "x = (h, r)" and r: "hm_get (ready_tx s) h = Some r"
      by (cases x) (auto split: bind_splits)
    obtain tags s1 where e: "prune_entry m h r s = Some (tags, s1)"
      using "2.prems"(2) Some x by (auto split: option.splits)
    obtain rs' where "prune_loop (rev tags @ ms) s1 = Some (rs', s')"
      using "2.prems"(2) Some x e by (auto split: option.splits)
    with "2.IH"(2) [OF Some x [symmetric] e refl] links_prune_entry [OF "2.prems"(1) r e] show ?thesis
      by blast
  qed
qed

lemma links_prune_tags: "links_inv nonce_of s \<Longrightarrow> prune_tags m s = Some (rs, s') \<Longrightarrow> links_inv nonce_of s'"
  unfolding prune_tags_def by (rule links_prune_loop)

section \<open>The iterator offers everything\<close>

lemma links_it_ok: "links_inv nonce_of s \<Longrightarrow> it_ok (get_transactions s)"
  by (auto simp: it_ok_def get_transactions_def links_at_def offered_def dest: entries_ok_tx)

lemma links_bounded:
  assumes ok: "entries_ok nonce_of ready"
  shows "acyclic_by (\<lambda>h. 2 ^ 64 - nonce_of h) ready"
proof -
  have "nonce_of h < 2 ^ 64" if r: "hm_get ready h = Some r" for h r
  proof -
    obtain n where "nonce_of (tx_hash (r_tx r)) = unat (n :: u64)"
      using entries_ok_tx [OF ok r] by (auto simp: rpc_tx_def)
    then show ?thesis using entries_ok_tx [OF ok r] unat_u64_less [of n] by simp
  qed
  with entries_ok_link [OF ok] show ?thesis
    unfolding acyclic_by_def by (metis Suc_eq_plus1 diff_less_mono2 lessI not_None_eq)
qed

lemma unlock_one_frees:
  assumes ok: "it_ok it" and e: "entries_ok nonce_of (all_txs it)"
    and r: "hm_get (all_txs it) h = Some r"
  shows "r_transaction r \<in> set (independent (unlock_one it h))"
proof -
  have len: "length (requires (r_tx r)) \<le> 1"
    using entries_ok_tx [OF e r] rpc_tx_requires by fastforce
  have "y = r_transaction r" if "y \<in> set (independent it)" "ref_key y = ref_key (r_transaction r)" for y
    using it_ok_independent [OF ok that(1)] entries_ok_key [OF e _ r] that(2) r by (metis option.inject)
  then have mem: "r_transaction r \<in> set (bt_insert (r_transaction r) (independent it))" by (rule bt_insert_mem)
  show ?thesis
  proof (cases "hm_get (awaiting it) h")
    case None
    with r len mem show ?thesis by (simp add: unlock_one_def independent_or_awaiting_def)
  next
    case (Some x)
    obtain n ref where x: "x = (n, ref)" by (cases x)
    have "ref = r_transaction r" using ok Some x r unfolding it_ok_def by (metis option.inject)
    with Some x len mem show ?thesis by (simp add: unlock_one_def independent_or_awaiting_def)
  qed
qed

lemma unlock_fold_frees:
  "it_ok it \<Longrightarrow> entries_ok nonce_of (all_txs it) \<Longrightarrow> hm_get (all_txs it) h = Some r \<Longrightarrow> h \<in> set hs \<Longrightarrow>
   r_transaction r \<in> set (independent (foldl unlock_one it hs))"
proof (induction hs arbitrary: it)
  case (Cons h' hs)
  note one = unlock_one_ok [OF Cons.prems(1), of h']
  show ?case
  proof (cases "h = h'")
    case True
    with unlock_one_frees [OF Cons.prems(1-3)] unlock_fold_ok [of "unlock_one it h'" hs] one
    show ?thesis by auto
  next
    case False
    with Cons.IH [of "unlock_one it h'"] Cons.prems one show ?thesis by simp
  qed
qed simp

lemma set_bt_remove: "set (bt_remove x xs) \<subseteq> set xs"
  by (auto simp: bt_remove_def)

lemma yields_independent:
  "yields it txs \<Longrightarrow> it_ok it \<Longrightarrow> ref \<in> set (independent it) \<Longrightarrow> ref_transaction ref \<in> set txs"
proof (induction rule: yields.induct)
  case (stop it)
  then show ?case by (simp add: iter_next_None_iff)
next
  case (step it tx it' txs)
  have ne: "independent it \<noteq> []" using step.prems by auto
  have "it_ok it'" "set (independent it) - {last (independent it)} \<subseteq> set (independent it')"
    "tx = ref_transaction (last (independent it))"
    using iter_next_ok [OF step.prems(1) ne] step.hyps(1) by (metis Pair_inject option.inject)+
  with step.IH step.prems(2) show ?case
    by (cases "ref = last (independent it)") auto
qed

lemma yields_unlocked:
  "yields it txs \<Longrightarrow> it_ok it \<Longrightarrow> entries_ok nonce_of (all_txs it) \<Longrightarrow>
   hm_get (all_txs it) h0 = Some r0 \<Longrightarrow> r_tx r0 \<in> set txs \<Longrightarrow>
   hm_get (all_txs it) h = Some r \<Longrightarrow> h \<in> set (unlocks r0) \<Longrightarrow> r_tx r \<in> set txs"
proof (induction rule: yields.induct)
  case (stop it)
  then show ?case by simp
next
  case (step it tx it' txs)
  let ?best = "last (independent it)"
  have ne: "independent it \<noteq> []" using step.hyps(1) by (auto simp: iter_next.simps)
  obtain q where q: "hm_get (all_txs it) (tx_hash (ref_transaction ?best)) = Some q"
    "r_transaction q = ?best" "tx = ref_transaction ?best" "it_ok it'" "all_txs it' = all_txs it"
    using iter_next_ok [OF step.prems(1) ne] step.hyps(1) by (metis Pair_inject option.inject)
  show ?case
  proof (cases "r_tx r0 = tx")
    case True
    have "tx_hash (r_tx r0) = h0" using entries_ok_tx [OF step.prems(2,3)] by simp
    with True q(1,3) step.prems(3) have same: "r0 = q" by simp
    have it': "it' = foldl unlock_one (it\<lparr>independent := bt_remove ?best (independent it)\<rparr>) (unlocks q)"
      using step.hyps(1) ne q(1) by (auto simp: iter_next.simps Let_def)
    have "it_ok (it\<lparr>independent := bt_remove ?best (independent it)\<rparr>)"
      using step.prems(1) set_bt_remove [of ?best "independent it"] by (auto simp: it_ok_def bt_sorted_remove)
    from unlock_fold_frees [OF this _ _ step.prems(6)] step.prems same it'
    have "r_transaction r \<in> set (independent it')" by simp
    from yields_independent [OF step.hyps(2) q(4) this] show ?thesis by simp
  next
    case False
    with step.IH [OF q(4)] q(5) step.prems show ?thesis by simp
  qed
qed

lemma yields_ready:
  "yields it txs \<Longrightarrow> it_ok it \<Longrightarrow> t \<in> set txs \<Longrightarrow>
   \<exists>r. hm_get (all_txs it) (tx_hash t) = Some r \<and> r_tx r = t"
proof (induction rule: yields.induct)
  case (step it tx it' txs)
  have ne: "independent it \<noteq> []" using step.hyps(1) by (auto simp: iter_next.simps)
  obtain q where "hm_get (all_txs it) (tx_hash (ref_transaction (last (independent it)))) = Some q"
    "r_transaction q = last (independent it)" "tx = ref_transaction (last (independent it))"
    "it_ok it'" "all_txs it' = all_txs it"
    using iter_next_ok [OF step.prems(1) ne] step.hyps(1) by (metis Pair_inject option.inject)
  with step.IH step.prems(2) show ?case by (cases "t = tx") auto
qed simp

lemma drain_complete:
  assumes l: "links_inv nonce_of s"
  shows "\<exists>txs. drain (get_transactions s) = Some txs \<and> set txs = ran (ready_txs s)"
proof -
  let ?it = "get_transactions s"
  note ok = links_at_entries [OF l] and it = links_it_ok [OF l]
  have all: "all_txs ?it = ready_tx s" and ind: "independent ?it = independent_transactions s"
    by (simp_all add: get_transactions_def)
  obtain txs where y: "yields ?it txs"
    using yields_total [OF it, of "\<lambda>h. 2 ^ 64 - nonce_of h"] links_bounded [OF ok] all by auto
  have "r_tx r \<in> set txs" if "hm_get (ready_tx s) h = Some r" for h r
    using that
  proof (induction "nonce_of h" arbitrary: h r rule: less_induct)
    case less
    consider "r_transaction r \<in> set (independent_transactions s)" | "linked (ready_tx s) h"
      using l less.prems by (auto simp: links_at_def offered_def)
    then show ?case
    proof cases
      case 1
      then show ?thesis using yields_independent [OF y it] ind by simp
    next
      case 2
      then obtain h0 r0 where r0: "hm_get (ready_tx s) h0 = Some r0" "h \<in> set (unlocks r0)"
        by (auto simp: linked_def)
      have "nonce_of h0 < nonce_of h" using entries_ok_link [OF ok r0] by simp
      from less.hyps [OF this r0(1)] yields_unlocked [OF y it] ok r0 less.prems all show ?thesis by metis
    qed
  qed
  moreover have "t \<in> ran (ready_txs s)" if "t \<in> set txs" for t
    using yields_ready [OF y it that] all by (auto simp: ready_txs_def txs_of_def ran_def)
  ultimately have "set txs = ran (ready_txs s)"
    by (auto simp: ready_txs_def txs_of_def ran_def)
  with y show ?thesis by (auto simp: drain_iff)
qed

end
