(* ===== verification/Anvil_Pool.thy ===== *)
theory Anvil_Pool
  imports Pool_Links
begin

text \<open>
  The transaction pool, \<open>PoolInner\<close> and \<open>Pool\<close> of \<open>crates/anvil/src/eth/pool/mod.rs\<close>: the two halves
  of \<open>Pool_Pending\<close> and \<open>Pool_Ready\<close> put together. A listener for new ready transactions is a
  sender of the \<open>futures\<close> crate; the pool is given \<open>try_send\<close>, which hands back whether the hash was
  sent, the buffer was full or the receiver is gone, and the sender. The lemmas show that no call
  panics, that transactions are neither lost nor duplicated, that a refused transaction leaves the
  pool as it was, and that what is ready is offered completely.
\<close>

section \<open>State\<close>

record PoolInner =
  ready_transactions :: ReadyTransactions
  pending_transactions :: PendingTransactions

definition empty_inner :: PoolInner where
  "empty_inner = \<lparr>ready_transactions = empty_ready, pending_transactions = empty_pending\<rparr>"

record ReadyInfo =
  info_hash :: TxHash
  promoted :: "TxHash list"
  discarded :: "TxHash list"
  removed :: "PoolTransaction list"

definition new_ReadyInfo :: "TxHash \<Rightarrow> ReadyInfo" where
  "new_ReadyInfo h = \<lparr>info_hash = h, promoted = [], discarded = [], removed = []\<rparr>"

datatype AddedTransaction = Ready ReadyInfo | Pending TxHash

fun added_hash :: "AddedTransaction \<Rightarrow> TxHash" where
  "added_hash (Ready tx) = info_hash tx"
| "added_hash (Pending h) = h"

record PruneResult =
  prune_promoted :: "AddedTransaction list"
  prune_failed :: "TxHash list"
  prune_pruned :: "PoolTransaction list"

section \<open>PoolInner\<close>

definition inner_clear :: "PoolInner \<Rightarrow> PoolInner" where
  "inner_clear s =
     \<lparr>ready_transactions = ready_clear (ready_transactions s),
      pending_transactions = pending_clear (pending_transactions s)\<rparr>"

definition inner_get_transaction :: "PoolInner \<Rightarrow> TxHash \<Rightarrow> PendingTransaction option" where
  "inner_get_transaction s h =
     (case pending_get (pending_transactions s) h of
        Some pending \<Rightarrow> Some (pending_transaction (p_transaction pending))
      | None \<Rightarrow> map_option (\<lambda>r. pending_transaction (r_tx r)) (ready_get (ready_transactions s) h))"

definition transactions_by_sender ::
    "(TxHash list \<Rightarrow> TxHash list) \<Rightarrow> Address \<Rightarrow> PoolInner \<Rightarrow> PoolTransaction list option" where
  "transactions_by_sender order addr s = do {
     ready_txs \<leftarrow> drain (get_transactions (ready_transactions s));
     Some (filter (\<lambda>tx. sender (pending_transaction tx) = addr)
             (pending_transactions_iter order (pending_transactions s) @ ready_txs))
   }"

definition inner_contains :: "PoolInner \<Rightarrow> TxHash \<Rightarrow> bool" where
  "inner_contains s h \<longleftrightarrow>
     pending_contains (pending_transactions s) h \<or> ready_contains (ready_transactions s) h"

function add_ready_loop ::
    "(TxHash list \<Rightarrow> TxHash list) \<Rightarrow> bool \<Rightarrow> PendingPoolTransaction list \<Rightarrow> ReadyInfo \<Rightarrow> PoolInner \<Rightarrow>
     ((PoolError + ReadyInfo) \<times> PoolInner) option" where
  "add_ready_loop order is_new_tx [] ready s = Some (Inr ready, s)"
| "add_ready_loop order is_new_tx (current # tx_queue) ready s =
     (case mark_and_unlock order (provides (p_transaction current)) (pending_transactions s) of
        None \<Rightarrow> None
      | Some (unlocked, pend) \<Rightarrow>
          (case ready_add_transaction order current (ready_transactions s) of
             None \<Rightarrow> None
           | Some (Inr replaced, rdy) \<Rightarrow>
               add_ready_loop order False (tx_queue @ unlocked)
                 (ready\<lparr>promoted := promoted ready @ (if is_new_tx then [] else [p_hash current]),
                        removed := removed ready @ replaced\<rparr>)
                 \<lparr>ready_transactions = rdy, pending_transactions = pend\<rparr>
           | Some (Inl err, rdy) \<Rightarrow>
               (if is_new_tx
                then Some (Inl err, \<lparr>ready_transactions = rdy, pending_transactions = pend\<rparr>)
                else add_ready_loop order False (tx_queue @ unlocked)
                       (ready\<lparr>discarded := discarded ready @ [p_hash current]\<rparr>)
                       \<lparr>ready_transactions = rdy, pending_transactions = pend\<rparr>)))"
  by pat_completeness auto
termination
  by (relation "measure (\<lambda>(order, is_new_tx, q, ready, s).
        length q + length (waiting_queue (pending_transactions s)))")
    (auto dest!: mark_and_unlock_length)

declare add_ready_loop.simps [simp del]

definition add_ready_transaction ::
    "(TxHash list \<Rightarrow> TxHash list) \<Rightarrow> PendingPoolTransaction \<Rightarrow> PoolInner \<Rightarrow>
     ((PoolError + AddedTransaction) \<times> PoolInner) option" where
  "add_ready_transaction order tx s =
     (case add_ready_loop order True [tx] (new_ReadyInfo (p_hash tx)) s of
        None \<Rightarrow> None
      | Some (Inl err, s') \<Rightarrow> Some (Inl err, s')
      | Some (Inr ready, s') \<Rightarrow>
          (if list_ex (\<lambda>t. tx_hash t = p_hash tx) (removed ready)
           then Some (Inl CyclicTransaction,
                  s'\<lparr>ready_transactions := snd (clear_transactions (promoted ready) (ready_transactions s'))\<rparr>)
           else Some (Inr (Ready ready), s')))"

definition inner_add_transaction ::
    "(TxHash list \<Rightarrow> TxHash list) \<Rightarrow> PoolTransaction \<Rightarrow> PoolInner \<Rightarrow>
     ((PoolError + AddedTransaction) \<times> PoolInner) option" where
  "inner_add_transaction order tx s =
     (if inner_contains s (tx_hash tx) then Some (Inl (AlreadyImported tx), s)
      else let p = new_PendingPoolTransaction tx (provided_markers (ready_transactions s))
           in if \<not> is_ready p
              then case pending_add_transaction p (pending_transactions s) of
                     None \<Rightarrow> None
                   | Some (Inl err, pend) \<Rightarrow> Some (Inl err, s\<lparr>pending_transactions := pend\<rparr>)
                   | Some (Inr _, pend) \<Rightarrow>
                       Some (Inr (Pending (tx_hash tx)), s\<lparr>pending_transactions := pend\<rparr>)
              else add_ready_transaction order p s)"

fun prune_each ::
    "(TxHash list \<Rightarrow> TxHash list) \<Rightarrow> TxMarker list \<Rightarrow> PoolInner \<Rightarrow>
     (PendingPoolTransaction list \<times> PoolTransaction list \<times> PoolInner) option" where
  "prune_each order [] s = Some ([], [], s)"
| "prune_each order (marker # markers) s = do {
     (imports, pend) \<leftarrow> mark_and_unlock order [marker] (pending_transactions s);
     (pruned, rdy) \<leftarrow> prune_tags marker (ready_transactions s);
     (imports', pruned', s') \<leftarrow>
       prune_each order markers \<lparr>ready_transactions = rdy, pending_transactions = pend\<rparr>;
     Some (imports @ imports', pruned @ pruned', s')
   }"

fun import_each ::
    "(TxHash list \<Rightarrow> TxHash list) \<Rightarrow> PendingPoolTransaction list \<Rightarrow> PoolInner \<Rightarrow>
     (AddedTransaction list \<times> TxHash list \<times> PoolInner) option" where
  "import_each order [] s = Some ([], [], s)"
| "import_each order (tx # txs) s =
     (case add_ready_transaction order tx s of
        None \<Rightarrow> None
      | Some (res, s') \<Rightarrow> do {
          (prom, failed, s'') \<leftarrow> import_each order txs s';
          Some (case res of
                  Inr added \<Rightarrow> (added # prom, failed, s'')
                | Inl err \<Rightarrow> (prom, p_hash tx # failed, s''))
        })"

definition inner_prune_markers ::
    "(TxHash list \<Rightarrow> TxHash list) \<Rightarrow> TxMarker list \<Rightarrow> PoolInner \<Rightarrow> (PruneResult \<times> PoolInner) option" where
  "inner_prune_markers order markers s = do {
     (imports, pruned, s1) \<leftarrow> prune_each order markers s;
     (prom, failed, s2) \<leftarrow> import_each order imports s1;
     Some (\<lparr>prune_promoted = prom, prune_failed = failed, prune_pruned = pruned\<rparr>, s2)
   }"

definition remove_both :: "TxHash list \<Rightarrow> PoolInner \<Rightarrow> PoolTransaction list \<times> PoolInner" where
  "remove_both tx_hashes s =
     (if tx_hashes = [] then ([], s)
      else let (rs, rdy) = remove_with_markers tx_hashes None (ready_transactions s);
               (ps, pend) = pending_remove tx_hashes (pending_transactions s)
           in (rs @ ps, \<lparr>ready_transactions = rdy, pending_transactions = pend\<rparr>))"

definition inner_remove_invalid :: "TxHash list \<Rightarrow> PoolInner \<Rightarrow> PoolTransaction list \<times> PoolInner" where
  "inner_remove_invalid tx_hashes s = remove_both tx_hashes s"

definition inner_remove_by_address ::
    "(TxHash list \<Rightarrow> TxHash list) \<Rightarrow> Address \<Rightarrow> PoolInner \<Rightarrow> (PoolTransaction list \<times> PoolInner) option" where
  "inner_remove_by_address order addr s = do {
     txs \<leftarrow> transactions_by_sender order addr s;
     Some (remove_both (map tx_hash txs) s)
   }"

section \<open>Pool\<close>

datatype SendOutcome = Sent | Full | Disconnected

record 'l Pool =
  inner :: PoolInner
  transaction_listener :: "'l list"

definition empty_pool :: "'l Pool" where
  "empty_pool = \<lparr>inner = empty_inner, transaction_listener = []\<rparr>"

text \<open>The loop over the listeners, for the indices below \<open>n\<close> downwards: the listener is taken out by
  \<open>swap_remove\<close> (which panics out of range), and pushed back unless its receiver is gone.\<close>

fun notify_loop ::
    "('l \<Rightarrow> TxHash \<Rightarrow> SendOutcome \<times> 'l) \<Rightarrow> TxHash \<Rightarrow> nat \<Rightarrow> 'l list \<Rightarrow> 'l list option" where
  "notify_loop try_send h 0 listener = Some listener"
| "notify_loop try_send h (Suc n) listener =
     (if length listener \<le> n then None
      else let (sent, listener_tx) = try_send (listener ! n) h;
               rest = swap_remove n listener
           in notify_loop try_send h n
                (case sent of
                   Sent \<Rightarrow> rest @ [listener_tx]
                 | Full \<Rightarrow> rest @ [listener_tx]
                 | Disconnected \<Rightarrow> rest))"

definition notify_listener ::
    "('l \<Rightarrow> TxHash \<Rightarrow> SendOutcome \<times> 'l) \<Rightarrow> TxHash \<Rightarrow> 'l Pool \<Rightarrow> 'l Pool option" where
  "notify_listener try_send h pool = do {
     ls \<leftarrow> notify_loop try_send h (length (transaction_listener pool)) (transaction_listener pool);
     Some (pool\<lparr>transaction_listener := ls\<rparr>)
   }"

fun notify_all ::
    "('l \<Rightarrow> TxHash \<Rightarrow> SendOutcome \<times> 'l) \<Rightarrow> TxHash list \<Rightarrow> 'l Pool \<Rightarrow> 'l Pool option" where
  "notify_all try_send [] pool = Some pool"
| "notify_all try_send (h # hs) pool = do {
     pool' \<leftarrow> notify_listener try_send h pool;
     notify_all try_send hs pool'
   }"

definition pool_add_transaction ::
    "('l \<Rightarrow> TxHash \<Rightarrow> SendOutcome \<times> 'l) \<Rightarrow> (TxHash list \<Rightarrow> TxHash list) \<Rightarrow> PoolTransaction \<Rightarrow> 'l Pool \<Rightarrow>
     ((PoolError + AddedTransaction) \<times> 'l Pool) option" where
  "pool_add_transaction try_send order tx pool = do {
     (res, s) \<leftarrow> inner_add_transaction order tx (inner pool);
     let pool' = pool\<lparr>inner := s\<rparr>;
     case res of
       Inl err \<Rightarrow> Some (Inl err, pool')
     | Inr (Pending h) \<Rightarrow> Some (Inr (Pending h), pool')
     | Inr (Ready ready) \<Rightarrow> do {
         pool'' \<leftarrow> notify_all try_send (info_hash ready # promoted ready) pool';
         Some (Inr (Ready ready), pool'')
       }
   }"

definition add_ready_listener :: "'l \<Rightarrow> 'l Pool \<Rightarrow> 'l Pool" where
  "add_ready_listener tx pool = pool\<lparr>transaction_listener := transaction_listener pool @ [tx]\<rparr>"

definition prune_markers ::
    "(TxHash list \<Rightarrow> TxHash list) \<Rightarrow> TxMarker list \<Rightarrow> 'l Pool \<Rightarrow> (PruneResult \<times> 'l Pool) option" where
  "prune_markers order markers pool = do {
     (res, s) \<leftarrow> inner_prune_markers order markers (inner pool);
     Some (res, pool\<lparr>inner := s\<rparr>)
   }"

definition remove_invalid :: "TxHash list \<Rightarrow> 'l Pool \<Rightarrow> PoolTransaction list \<times> 'l Pool" where
  "remove_invalid tx_hashes pool =
     (let (rs, s) = inner_remove_invalid tx_hashes (inner pool) in (rs, pool\<lparr>inner := s\<rparr>))"

definition on_mined_block ::
    "(TxHash list \<Rightarrow> TxHash list) \<Rightarrow> MinedBlockOutcome \<Rightarrow> 'l Pool \<Rightarrow> (PruneResult \<times> 'l Pool) option" where
  "on_mined_block order outcome pool =
     (let (_, pool') = remove_invalid (map tx_hash (mined_invalid outcome)) pool
      in prune_markers order (concat (map provides (mined_included outcome))) pool')"

definition remove_transactions_by_address ::
    "(TxHash list \<Rightarrow> TxHash list) \<Rightarrow> Address \<Rightarrow> 'l Pool \<Rightarrow> (PoolTransaction list \<times> 'l Pool) option" where
  "remove_transactions_by_address order addr pool = do {
     (rs, s) \<leftarrow> inner_remove_by_address order addr (inner pool);
     Some (rs, pool\<lparr>inner := s\<rparr>)
   }"

definition drop_transaction :: "TxHash \<Rightarrow> 'l Pool \<Rightarrow> PoolTransaction option \<times> 'l Pool" where
  "drop_transaction h pool =
     (let (rs, rdy) = remove_with_markers [h] None (ready_transactions (inner pool))
      in (find (\<lambda>t. tx_hash t = h) rs, pool\<lparr>inner := (inner pool)\<lparr>ready_transactions := rdy\<rparr>\<rparr>))"

definition pool_clear :: "'l Pool \<Rightarrow> 'l Pool" where
  "pool_clear pool = pool\<lparr>inner := inner_clear (inner pool)\<rparr>"

record TxpoolStatus =
  status_pending :: nat
  status_queued :: nat

definition try_u64 :: "nat \<Rightarrow> nat" where
  "try_u64 n = (if n < 2 ^ 64 then n else 0)"

definition txpool_status :: "'l Pool \<Rightarrow> TxpoolStatus option" where
  "txpool_status pool = do {
     txs \<leftarrow> drain (get_transactions (ready_transactions (inner pool)));
     Some \<lparr>status_pending = try_u64 (length txs),
           status_queued = try_u64 (pending_len (pending_transactions (inner pool)))\<rparr>
   }"

section \<open>The invariant\<close>

definition pool_inv :: "PoolInner \<Rightarrow> bool" where
  "pool_inv s \<longleftrightarrow> ready_inv (ready_transactions s) \<and> pending_inv (pending_transactions s) \<and>
     (\<forall>h t. waiting_tx (pending_transactions s) h = Some t \<longrightarrow>
        wf_tx t \<and> ready_txs (ready_transactions s) h = None) \<and>
     (\<forall>m. hm_get (required_markers (pending_transactions s)) m \<noteq> None \<longrightarrow>
        hm_get (provided_markers (ready_transactions s)) m = None)"

text \<open>The transactions in flight between the two halves, and everything the pool holds.\<close>

definition queue_wf :: "PendingPoolTransaction list \<Rightarrow> PoolInner \<Rightarrow> bool" where
  "queue_wf q s \<longleftrightarrow> distinct (map p_hash q) \<and>
     (\<forall>p\<in>set q. is_ready p \<and> wf_tx (p_transaction p) \<and>
        ready_txs (ready_transactions s) (p_hash p) = None \<and>
        waiting_tx (pending_transactions s) (p_hash p) = None)"

definition in_pool :: "PendingPoolTransaction list \<Rightarrow> PoolInner \<Rightarrow> TxHash \<Rightarrow> PoolTransaction \<Rightarrow> bool" where
  "in_pool q s h t \<longleftrightarrow> ready_txs (ready_transactions s) h = Some t \<or>
     waiting_tx (pending_transactions s) h = Some t \<or>
     (\<exists>p\<in>set q. p_hash p = h \<and> p_transaction p = t)"

definition inflight :: "PendingPoolTransaction list \<Rightarrow> PoolInner \<Rightarrow> TxHash set" where
  "inflight q s = p_hash ` set q \<union> dom (waiting_tx (pending_transactions s))"

lemma pool_inv_empty: "pool_inv empty_inner"
  by (auto simp: pool_inv_def empty_inner_def empty_ready_def empty_pending_def ready_inv_def marks_ok_def
      ready_txs_def txs_of_def pending_inv_def queue_ok_def waiting_on_def misses_def waiting_tx_def)

lemma pool_inv_clear: "pool_inv (inner_clear s)"
  by (auto simp: pool_inv_def inner_clear_def ready_clear_def pending_clear_def ready_inv_def marks_ok_def
      ready_txs_def txs_of_def pending_inv_def queue_ok_def waiting_on_def misses_def waiting_tx_def)

section \<open>Moving transactions to the ready half\<close>

lemma mark_step:
  assumes ord: "hash_order order" and inv: "pool_inv s" and q: "queue_wf q s"
  obtains u pend where
    "mark_and_unlock order ms (pending_transactions s) = Some (u, pend)"
    "pool_inv (s\<lparr>pending_transactions := pend\<rparr>)" "queue_wf (q @ u) (s\<lparr>pending_transactions := pend\<rparr>)"
    "\<forall>h t. in_pool (q @ u) (s\<lparr>pending_transactions := pend\<rparr>) h t \<longleftrightarrow> in_pool q s h t"
    "\<forall>m\<in>set ms. hm_get (required_markers pend) m = None"
    "length (waiting_queue pend) + length u \<le> length (waiting_queue (pending_transactions s))"
    "\<forall>q. inflight (q @ u) (s\<lparr>pending_transactions := pend\<rparr>) \<subseteq> inflight q s"
    "waiting_tx pend \<subseteq>\<^sub>m waiting_tx (pending_transactions s)"
    "\<forall>p\<in>set u. waiting_tx (pending_transactions s) (p_hash p) = Some (p_transaction p)"
proof -
  let ?P = "pending_transactions s"
  obtain u pend where mk: "mark_and_unlock order ms ?P = Some (u, pend)" and pi: "pending_inv pend"
    and ul: "unlocks_to ?P u pend"
    and dom: "dom (hm_get (required_markers pend)) = dom (hm_get (required_markers ?P)) - set ms"
    using mark_and_unlock_ok [OF ord, of ?P ms] inv by (auto simp: pool_inv_def)
  let ?s = "s\<lparr>pending_transactions := pend\<rparr>"
  have u: "is_ready p" "waiting_tx ?P (p_hash p) = Some (p_transaction p)" if "p \<in> set u" for p
    using ul that by (auto simp: unlocks_to_def)
  have W: "waiting_tx pend h = Some t \<longleftrightarrow> waiting_tx ?P h = Some t \<and> h \<notin> p_hash ` set u" for h t
    using ul by (auto simp: unlocks_to_def restrict_map_def)
  then have W0: "waiting_tx pend h = None" if "waiting_tx ?P h = None \<or> h \<in> p_hash ` set u" for h
    using that by (metis option.exhaust option.distinct(1))
  have req: "hm_get (required_markers pend) m \<noteq> None \<Longrightarrow> hm_get (required_markers ?P) m \<noteq> None \<and> m \<notin> set ms" for m
    using dom by blast
  have "pool_inv ?s"
    using inv pi req W unfolding pool_inv_def by simp blast
  moreover have "queue_wf (q @ u) ?s"
  proof -
    have "distinct (map p_hash (q @ u))"
      using q ul u by (fastforce simp: queue_wf_def unlocks_to_def)
    moreover have "is_ready p \<and> wf_tx (p_transaction p) \<and> ready_txs (ready_transactions s) (p_hash p) = None"
      if "p \<in> set (q @ u)" for p
      using that q u [of p] inv by (auto simp: queue_wf_def pool_inv_def)
    moreover have "waiting_tx pend (p_hash p) = None" if "p \<in> set (q @ u)" for p
      using that q W0 by (auto simp: queue_wf_def)
    ultimately show ?thesis by (simp add: queue_wf_def)
  qed
  moreover have "in_pool (q @ u) ?s h t \<longleftrightarrow> in_pool q s h t" for h t
  proof -
    have "waiting_tx pend h = Some t \<or> (\<exists>p\<in>set u. p_hash p = h \<and> p_transaction p = t) \<longleftrightarrow> waiting_tx ?P h = Some t"
      using W u(2) by (auto simp: image_iff)
    then show ?thesis by (auto simp: in_pool_def)
  qed
  moreover have "hm_get (required_markers pend) m = None" if "m \<in> set ms" for m
    using req that by blast
  moreover have "inflight (q @ u) ?s \<subseteq> inflight q s" for q
    using W u(2) by (auto simp: inflight_def)
  moreover have "waiting_tx pend \<subseteq>\<^sub>m waiting_tx ?P"
    using W by (auto simp: map_le_def)
  ultimately show thesis
    using that mk mark_and_unlock_length [OF mk] u(2) by blast
qed

lemma add_step:
  assumes ord: "hash_order order" and inv: "pool_inv s" and q: "queue_wf (cur # q) s"
    and req: "\<forall>m\<in>set (provides (p_transaction cur)).
      hm_get (required_markers (pending_transactions s)) m = None"
  obtains r rdy where
    "ready_add_transaction order cur (ready_transactions s) = Some (r, rdy)"
    "pool_inv (s\<lparr>ready_transactions := rdy\<rparr>)" "queue_wf q (s\<lparr>ready_transactions := rdy\<rparr>)"
    "\<forall>h t. in_pool q (s\<lparr>ready_transactions := rdy\<rparr>) h t \<longleftrightarrow> in_pool (cur # q) s h t \<and>
      h \<notin> (case r of Inl e \<Rightarrow> {p_hash cur} | Inr rs \<Rightarrow> tx_hash ` set rs)"
    "\<forall>e. r = Inl e \<longrightarrow> e = ReplacementUnderpriced (p_transaction cur) \<and> rdy = ready_transactions s"
proof -
  let ?R = "ready_transactions s" and ?P = "pending_transactions s"
  have cur: "is_ready cur" "wf_tx (p_transaction cur)" "ready_txs ?R (p_hash cur) = None"
    "waiting_tx ?P (p_hash cur) = None"
    using q by (simp_all add: queue_wf_def)
  have dq: "\<forall>p\<in>set q. p_hash p \<noteq> p_hash cur"
    using q unfolding queue_wf_def by (auto simp: image_def)
  have ri: "ready_inv ?R" using inv by (simp add: pool_inv_def)
  obtain r rdy where add: "ready_add_transaction order cur ?R = Some (r, rdy)" and ri': "ready_inv rdy"
    and res: "case r of Inl e \<Rightarrow> rdy = ?R \<and> e = ReplacementUnderpriced (p_transaction cur)
      | Inr rs \<Rightarrow> (\<exists>s1. removes_to ?R rs s1 \<and> ready_txs rdy = (ready_txs s1)(p_hash cur \<mapsto> p_transaction cur))"
    using ready_add_transaction_ok [OF ord ri cur(1,3,2)] by (elim exE conjE)
  let ?s = "s\<lparr>ready_transactions := rdy\<rparr>"
  show thesis
  proof (cases r)
    case (Inl e)
    with res have same: "rdy = ?R" "e = ReplacementUnderpriced (p_transaction cur)" by auto
    have "queue_wf q s" using q by (simp add: queue_wf_def)
    moreover have "in_pool q s h t \<longleftrightarrow> in_pool (cur # q) s h t \<and> h \<noteq> p_hash cur" for h t
      using cur dq by (auto simp: in_pool_def)
    moreover have "?s = s" using same by simp
    ultimately show thesis
      by (intro that [OF add]) (use inv same Inl in simp_all)
  next
    case (Inr rs)
    with res obtain s1 where rm: "removes_to ?R rs s1"
      and R': "ready_txs rdy = (ready_txs s1)(p_hash cur \<mapsto> p_transaction cur)"
      by auto
    have R: "ready_txs rdy h = Some t \<longleftrightarrow>
        h = p_hash cur \<and> t = p_transaction cur \<or> h \<noteq> p_hash cur \<and> ready_txs ?R h = Some t \<and> h \<notin> tx_hash ` set rs" for h t
      using rm by (auto simp: R' removes_to_def restrict_map_def)
    have rs: "h \<in> tx_hash ` set rs \<Longrightarrow> ready_txs ?R h \<noteq> None" for h
      using rm by (auto simp: removes_to_def)
    have R0: "ready_txs rdy h = None" if "ready_txs ?R h = None" "h \<noteq> p_hash cur" for h
      using R [of h] that by (cases "ready_txs rdy h") auto
    have "pool_inv ?s"
    proof -
      have "hm_get (provided_markers rdy) m = None" if m: "hm_get (required_markers ?P) m \<noteq> None" for m
      proof (rule ccontr)
        assume "hm_get (provided_markers rdy) m \<noteq> None"
        then obtain h t where ht: "ready_txs rdy h = Some t" "m \<in> set (provides t)"
          using marks_ok_ready [of "{}" rdy m] ri' by (auto simp: ready_inv_def)
        have "m \<notin> set (provides (p_transaction cur))" using req m by auto
        with ht R have "ready_txs ?R h = Some t" by auto
        with ht(2) marks_ok_provided [of "{}" ?R h t m] ri have "hm_get (provided_markers ?R) m \<noteq> None"
          by (auto simp: ready_inv_def)
        with inv m show False by (auto simp: pool_inv_def)
      qed
      moreover have "ready_txs rdy h = None" if "waiting_tx ?P h = Some t" for h t
      proof (rule R0)
        show "ready_txs ?R h = None" using that inv by (simp add: pool_inv_def)
        show "h \<noteq> p_hash cur" using that cur(4) by auto
      qed
      ultimately show ?thesis
        using inv ri' by (auto simp: pool_inv_def)
    qed
    moreover have "queue_wf q ?s" using q R0 dq by (simp add: queue_wf_def)
    moreover have "in_pool q ?s h t \<longleftrightarrow> in_pool (cur # q) s h t \<and> h \<notin> tx_hash ` set rs" for h t
    proof -
      have "h \<notin> tx_hash ` set rs" if "waiting_tx ?P h = Some t \<or> (\<exists>p\<in>set (cur # q). p_hash p = h)"
      proof -
        have "ready_txs ?R h = None" using that inv q by (auto simp: pool_inv_def queue_wf_def)
        then show ?thesis using rs [of h] by blast
      qed
      then show ?thesis using cur(3) unfolding in_pool_def by (auto simp: R)
    qed
    ultimately show thesis
      by (intro that [OF add]) (use Inr in simp_all)
  qed
qed

text \<open>What a run of the loop adds to its report, and what it leaves of the transactions it had.\<close>

definition loop_post ::
    "bool \<Rightarrow> PendingPoolTransaction list \<Rightarrow> PoolInner \<Rightarrow> ReadyInfo \<Rightarrow> ReadyInfo \<Rightarrow> PoolInner \<Rightarrow> bool" where
  "loop_post new q s info info' s' \<longleftrightarrow>
     (\<exists>ps ds rs. info' = info\<lparr>promoted := promoted info @ ps, discarded := discarded info @ ds,
         removed := removed info @ rs\<rparr> \<and>
       set ps \<union> set ds \<subseteq> inflight (if new then tl q else q) s \<and>
       (\<forall>h t. in_pool [] s' h t \<longleftrightarrow> in_pool q s h t \<and> h \<notin> set ds \<and> h \<notin> tx_hash ` set rs)) \<and>
     waiting_tx (pending_transactions s') \<subseteq>\<^sub>m waiting_tx (pending_transactions s)"

lemma loop_post_step:
  assumes post: "loop_post False q' s' info1 info' s''"
    and info1: "info1 = info\<lparr>promoted := promoted info @ ps, discarded := discarded info @ ds,
         removed := removed info @ rs\<rparr>"
    and step: "\<And>h t. in_pool q' s' h t \<longleftrightarrow> in_pool q s h t \<and> h \<notin> set ds \<union> tx_hash ` set rs"
    and fl: "inflight q' s' \<subseteq> inflight (if new then tl q else q) s"
      "set ps \<union> set ds \<subseteq> inflight (if new then tl q else q) s"
    and W: "waiting_tx (pending_transactions s') \<subseteq>\<^sub>m waiting_tx (pending_transactions s)"
  shows "loop_post new q s info info' s''"
proof -
  from post obtain ps' ds' rs' where "info' = info1\<lparr>promoted := promoted info1 @ ps',
      discarded := discarded info1 @ ds', removed := removed info1 @ rs'\<rparr>"
    and "set ps' \<union> set ds' \<subseteq> inflight q' s'"
    and "\<And>h t. in_pool [] s'' h t \<longleftrightarrow> in_pool q' s' h t \<and> h \<notin> set ds' \<and> h \<notin> tx_hash ` set rs'"
    unfolding loop_post_def by auto
  with info1 step fl have "info' = info\<lparr>promoted := promoted info @ ps @ ps',
      discarded := discarded info @ ds @ ds', removed := removed info @ rs @ rs'\<rparr> \<and>
     set (ps @ ps') \<union> set (ds @ ds') \<subseteq> inflight (if new then tl q else q) s \<and>
     (\<forall>h t. in_pool [] s'' h t \<longleftrightarrow>
        in_pool q s h t \<and> h \<notin> set (ds @ ds') \<and> h \<notin> tx_hash ` set (rs @ rs'))"
    by (intro conjI) auto
  moreover have "waiting_tx (pending_transactions s'') \<subseteq>\<^sub>m waiting_tx (pending_transactions s)"
    using post W map_le_trans unfolding loop_post_def by blast
  ultimately show ?thesis
    unfolding loop_post_def by blast
qed

lemma add_ready_loop_ok:
  assumes ord: "hash_order order"
  shows "pool_inv s \<Longrightarrow> queue_wf q s \<Longrightarrow>
   \<exists>r s'. add_ready_loop order new q info s = Some (r, s') \<and> pool_inv s' \<and>
     (case r of
        Inl e \<Rightarrow> new \<and> q \<noteq> [] \<and> e = ReplacementUnderpriced (p_transaction (hd q))
      | Inr info' \<Rightarrow> loop_post new q s info info' s')"
proof (induction "length q + length (waiting_queue (pending_transactions s))"
    arbitrary: new q info s rule: less_induct)
  case less
  show ?case
  proof (cases q)
    case Nil
    then show ?thesis
      using less.prems by (auto simp: add_ready_loop.simps loop_post_def intro!: exI [of _ "[]"])
  next
    case (Cons cur q')
    obtain u pend where mk: "mark_and_unlock order (provides (p_transaction cur)) (pending_transactions s) = Some (u, pend)"
      and i1: "pool_inv (s\<lparr>pending_transactions := pend\<rparr>)"
      and q1: "queue_wf (cur # q' @ u) (s\<lparr>pending_transactions := pend\<rparr>)"
      and c1: "\<forall>h t. in_pool (cur # q' @ u) (s\<lparr>pending_transactions := pend\<rparr>) h t \<longleftrightarrow> in_pool (cur # q') s h t"
      and req: "\<forall>m\<in>set (provides (p_transaction cur)). hm_get (required_markers pend) m = None"
      and len: "length (waiting_queue pend) + length u \<le> length (waiting_queue (pending_transactions s))"
      and fl: "\<forall>q. inflight (q @ u) (s\<lparr>pending_transactions := pend\<rparr>) \<subseteq> inflight q s"
      and W: "waiting_tx pend \<subseteq>\<^sub>m waiting_tx (pending_transactions s)"
      using mark_step [OF ord less.prems, of "provides (p_transaction cur)"] unfolding Cons append_Cons
      by (smt (verit, best))
    let ?s1 = "s\<lparr>pending_transactions := pend\<rparr>"
    have req': "\<forall>m\<in>set (provides (p_transaction cur)).
        hm_get (required_markers (pending_transactions ?s1)) m = None" using req by simp
    obtain r rdy where add: "ready_add_transaction order cur (ready_transactions ?s1) = Some (r, rdy)"
      and i2: "pool_inv (?s1\<lparr>ready_transactions := rdy\<rparr>)" and q2: "queue_wf (q' @ u) (?s1\<lparr>ready_transactions := rdy\<rparr>)"
      and c2: "\<forall>h t. in_pool (q' @ u) (?s1\<lparr>ready_transactions := rdy\<rparr>) h t \<longleftrightarrow> in_pool (cur # q' @ u) ?s1 h t \<and>
        h \<notin> (case r of Inl e \<Rightarrow> {p_hash cur} | Inr rs \<Rightarrow> tx_hash ` set rs)"
      and err: "\<forall>e. r = Inl e \<longrightarrow> e = ReplacementUnderpriced (p_transaction cur) \<and> rdy = ready_transactions ?s1"
      by (rule add_step [OF ord i1 q1 req'])
    let ?s2 = "\<lparr>ready_transactions = rdy, pending_transactions = pend\<rparr>"
    have s2: "?s1\<lparr>ready_transactions := rdy\<rparr> = ?s2" by (cases s) simp
    have c: "in_pool (q' @ u) ?s2 h t \<longleftrightarrow> in_pool q s h t \<and>
        h \<notin> (case r of Inl e \<Rightarrow> {p_hash cur} | Inr rs \<Rightarrow> tx_hash ` set rs)" for h t
      using c1 c2 s2 Cons by simp
    have fl2: "inflight (q' @ u) ?s2 \<subseteq> inflight (if new then tl q else q) s"
      and cur: "p_hash cur \<in> inflight q s" and W2: "waiting_tx (pending_transactions ?s2) \<subseteq>\<^sub>m waiting_tx (pending_transactions s)"
      using fl W Cons by (auto simp: inflight_def)
    have less2: "length (q' @ u) + length (waiting_queue (pending_transactions ?s2))
        < length q + length (waiting_queue (pending_transactions s))"
      using len Cons by simp
    note IH = less.hyps [OF less2, unfolded s2 [symmetric], OF i2 q2, unfolded s2]
    show ?thesis
    proof (cases r)
      case (Inr rs)
      let ?info = "info\<lparr>promoted := promoted info @ (if new then [] else [p_hash cur]),
        discarded := discarded info @ [], removed := removed info @ rs\<rparr>"
      have eq: "add_ready_loop order new q info s = add_ready_loop order False (q' @ u) ?info ?s2"
        using Cons mk add Inr by (simp add: add_ready_loop.simps)
      have "loop_post new q s info info' s''" if "loop_post False (q' @ u) ?s2 ?info info' s''" for info' s''
        by (rule loop_post_step [OF that refl]) (use c Inr fl2 cur W2 in simp_all)
      with IH [of False ?info] show ?thesis unfolding eq by (force split: sum.splits)
    next
      case (Inl e)
      show ?thesis
      proof (cases new)
        case True
        have "pool_inv ?s2" using i2 unfolding s2 .
        with True Cons mk add Inl err show ?thesis by (auto simp: add_ready_loop.simps)
      next
        case False
        let ?info = "info\<lparr>promoted := promoted info @ [], discarded := discarded info @ [p_hash cur],
          removed := removed info @ []\<rparr>"
        have eq: "add_ready_loop order new q info s = add_ready_loop order False (q' @ u) ?info ?s2"
          using Cons mk add Inl False by (simp add: add_ready_loop.simps)
        have "loop_post new q s info info' s''" if "loop_post False (q' @ u) ?s2 ?info info' s''" for info' s''
          by (rule loop_post_step [OF that refl]) (use c Inl fl2 cur W2 False in simp_all)
        with IH [of False ?info] show ?thesis unfolding eq by (force split: sum.splits)
      qed
    qed
  qed
qed

lemma mark_and_unlock_none:
  "\<forall>m\<in>set ms. hm_get (required_markers s) m = None \<Longrightarrow> mark_and_unlock order ms s = Some ([], s)"
  by (induction ms) auto

lemma collect_unlocks_same: "collect_unlocks tx rs = Inl e \<Longrightarrow> \<exists>r\<in>set rs. provides (r_tx r) = provides tx"
  by (induction rs) (auto simp: r_provides_def split: if_splits sum.splits)

lemma underpriced_provided:
  assumes inv: "ready_inv s" and res: "ready_add_transaction order p s = Some (Inl e, s')"
    and m: "m \<in> set (provides (p_transaction p))"
  shows "hm_get (provided_markers s) m \<noteq> None"
proof -
  obtain s1 where "replaced_transactions order (p_transaction p) s = (Inl e, s1)"
    using res by (auto simp: ready_add_transaction_def next_id_def Let_def
        split: if_splits sum.splits prod.splits bind_splits)
  then obtain hs where "collect_unlocks (p_transaction p) (List.map_filter (hm_get (ready_tx s)) hs) = Inl e"
    by (auto simp: replaced_transactions_def Let_def split: if_splits sum.splits prod.splits)
  then obtain h r where r: "hm_get (ready_tx s) h = Some r" "provides (r_tx r) = provides (p_transaction p)"
    by (auto simp: set_map_filter dest!: collect_unlocks_same)
  from marks_ok_provided [of "{}" s h "r_tx r" m] inv r m show ?thesis
    by (auto simp: ready_inv_def dest: ready_txs_Some)
qed

lemma removed_is_ready: "removes_to s rs s' \<Longrightarrow> h \<in> tx_hash ` set rs \<Longrightarrow> ready_txs s h \<noteq> None"
  by (auto simp: removes_to_def)

lemma ready_removal_inv:
  assumes inv: "pool_inv s" and ri: "ready_inv rdy" and rm: "removes_to (ready_transactions s) rs rdy"
  shows "pool_inv (s\<lparr>ready_transactions := rdy\<rparr>)"
proof -
  have "hm_get (provided_markers rdy) m = None" if "hm_get (required_markers (pending_transactions s)) m \<noteq> None" for m
  proof (rule ccontr)
    assume "hm_get (provided_markers rdy) m \<noteq> None"
    then obtain h t where "ready_txs rdy h = Some t" "m \<in> set (provides t)"
      using marks_ok_ready [of "{}" rdy m] ri by (auto simp: ready_inv_def)
    then have "hm_get (provided_markers (ready_transactions s)) m = Some h"
      using removes_to_Some [OF rm] marks_ok_provided [of "{}" "ready_transactions s"] inv
      by (auto simp: pool_inv_def ready_inv_def)
    with that inv show False by (auto simp: pool_inv_def)
  qed
  with inv ri removes_to_None [OF rm] show ?thesis by (auto simp: pool_inv_def)
qed

text \<open>Outcomes of an addition to the ready half: the pool afterwards holds what it held and the
  new transaction, minus what the report names as removed or discarded.\<close>

definition added_post :: "TxHash \<Rightarrow> PendingPoolTransaction list \<Rightarrow> PoolInner \<Rightarrow> PoolError + AddedTransaction \<Rightarrow> PoolInner \<Rightarrow> bool"
where
  "added_post hash q s r s' \<longleftrightarrow>
     (case r of
        Inl CyclicTransaction \<Rightarrow> (\<forall>h t. in_pool [] s' h t \<longrightarrow> in_pool q s h t)
      | Inl _ \<Rightarrow> s' = s
      | Inr (Pending h) \<Rightarrow> h = hash \<and> (\<forall>h t. in_pool [] s' h t \<longleftrightarrow> in_pool q s h t) \<and>
          ready_transactions s' = ready_transactions s
      | Inr (Ready info) \<Rightarrow> info_hash info = hash \<and>
          ready_txs (ready_transactions s') hash \<noteq> None \<and>
          (\<forall>h t. in_pool [] s' h t \<longleftrightarrow>
             in_pool q s h t \<and> h \<notin> set (discarded info) \<and> h \<notin> tx_hash ` set (removed info)))"

lemma add_ready_loop_old:
  "add_ready_loop order False q info s = Some (r, s') \<Longrightarrow> \<exists>info'. r = Inr info'"
proof (induction order "False" q info s rule: add_ready_loop.induct)
  case (1 order info s)
  then show ?case by (auto simp: add_ready_loop.simps)
next
  case (2 order cur q info s)
  then show ?case
    by (auto simp: add_ready_loop.simps(2) [of _ False cur] split: option.splits prod.splits sum.splits)
qed

lemma add_ready_transaction_ok:
  assumes ord: "hash_order order" and inv: "pool_inv s" and q: "queue_wf [p] s"
  shows "\<exists>r s'. add_ready_transaction order p s = Some (r, s') \<and> pool_inv s' \<and> added_post (p_hash p) [p] s r s'"
proof -
  let ?info = "new_ReadyInfo (p_hash p)"
  obtain r s' where loop: "add_ready_loop order True [p] ?info s = Some (r, s')" and inv': "pool_inv s'"
    and post: "case r of
        Inl e \<Rightarrow> True \<and> [p] \<noteq> [] \<and> e = ReplacementUnderpriced (p_transaction (hd [p]))
      | Inr info' \<Rightarrow> loop_post True [p] s ?info info' s'"
    using add_ready_loop_ok [OF ord inv q, of True ?info] by (elim exE conjE)
  show ?thesis
  proof (cases r)
    case (Inl e)
    obtain s1 where add: "ready_add_transaction order p (ready_transactions s) = Some (Inl e, s1)"
      using loop Inl by (auto simp: add_ready_loop.simps(2) dest!: add_ready_loop_old
          split: option.splits sum.splits prod.splits)
    have "hm_get (provided_markers (ready_transactions s)) m \<noteq> None" if "m \<in> set (provides (p_transaction p))" for m
      using underpriced_provided [OF _ add that] inv by (simp add: pool_inv_def)
    then have "\<forall>m\<in>set (provides (p_transaction p)). hm_get (required_markers (pending_transactions s)) m = None"
      using inv unfolding pool_inv_def by blast
    from mark_and_unlock_none [OF this, of order]
    have "s' = \<lparr>ready_transactions = s1, pending_transactions = pending_transactions s\<rparr>"
      using loop Inl add by (simp add: add_ready_loop.simps)
    moreover have "s1 = ready_transactions s"
      using add ready_add_transaction_ok [OF ord, of "ready_transactions s" p] inv q
      by (auto simp: pool_inv_def queue_wf_def)
    ultimately have "s' = s" by simp
    with loop Inl post inv show ?thesis by (auto simp: add_ready_transaction_def added_post_def)
  next
    case (Inr info)
    then have lp: "loop_post True [p] s ?info info s'" using post by simp
    then obtain ps ds rs where info: "info = ?info\<lparr>promoted := ps, discarded := ds, removed := rs\<rparr>"
      and ds: "set ds \<subseteq> inflight [] s"
      and c: "\<And>h t. in_pool [] s' h t \<longleftrightarrow> in_pool [p] s h t \<and> h \<notin> set ds \<and> h \<notin> tx_hash ` set rs"
      and W: "waiting_tx (pending_transactions s') \<subseteq>\<^sub>m waiting_tx (pending_transactions s)"
      by (auto simp: loop_post_def new_ReadyInfo_def)
    show ?thesis
    proof (cases "list_ex (\<lambda>t. tx_hash t = p_hash p) rs")
      case True
      obtain cs rdy where cl: "remove_with_markers ps None (ready_transactions s') = (cs, rdy)" by fastforce
      have rm: "ready_inv rdy" "removes_to (ready_transactions s') cs rdy"
        using remove_invalid_ok [OF _ cl] inv' by (auto simp: pool_inv_def)
      have "pool_inv (s'\<lparr>ready_transactions := rdy\<rparr>)" by (rule ready_removal_inv [OF inv' rm])
      moreover have "in_pool [p] s h t" if "in_pool [] (s'\<lparr>ready_transactions := rdy\<rparr>) h t" for h t
      proof -
        have "in_pool [] s' h t" using that removes_to_Some [OF rm(2)] by (auto simp: in_pool_def)
        then show ?thesis using c by blast
      qed
      ultimately show ?thesis
        using loop Inr info True cl
        by (auto simp: add_ready_transaction_def clear_transactions_def added_post_def)
    next
      case False
      have nw: "waiting_tx (pending_transactions s) (p_hash p) = None" using q by (simp add: queue_wf_def)
      have "in_pool [] s' (p_hash p) (p_transaction p)"
        using c False ds nw by (auto simp: in_pool_def inflight_def list_ex_iff)
      moreover have "waiting_tx (pending_transactions s') (p_hash p) = None"
        using W nw by (metis domIff map_le_implies_dom_le subset_iff)
      ultimately have "ready_txs (ready_transactions s') (p_hash p) \<noteq> None" by (auto simp: in_pool_def)
      with loop Inr info False c inv' show ?thesis
        by (auto simp: add_ready_transaction_def added_post_def new_ReadyInfo_def)
    qed
  qed
qed

lemma inner_add_transaction_ok:
  assumes ord: "hash_order order" and inv: "pool_inv s" and wf: "wf_tx tx"
  shows "\<exists>r s'. inner_add_transaction order tx s = Some (r, s') \<and> pool_inv s' \<and>
    added_post (tx_hash tx) [\<lparr>p_transaction = tx, missing_markers = []\<rparr>] s r s'"
proof (cases "inner_contains s (tx_hash tx)")
  case True
  then show ?thesis using inv by (simp add: inner_add_transaction_def added_post_def)
next
  case False
  let ?R = "ready_transactions s" and ?P = "pending_transactions s"
  let ?p = "new_PendingPoolTransaction tx (provided_markers ?R)"
  have new: "ready_txs ?R (tx_hash tx) = None" "waiting_tx ?P (tx_hash tx) = None"
    using False by (auto simp: inner_contains_def pending_contains_def ready_contains_def hm_contains_def
        ready_txs_None waiting_tx_def)
  have tx: "p_transaction ?p = tx" by (simp add: new_PendingPoolTransaction_def)
  have miss: "m \<in> set (missing_markers ?p) \<longleftrightarrow> m \<in> set (requires tx) \<and> hm_get (provided_markers ?R) m = None" for m
    by (simp add: new_PendingPoolTransaction_def hm_contains_def)
  show ?thesis
  proof (cases "is_ready ?p")
    case True
    then have p: "?p = \<lparr>p_transaction = tx, missing_markers = []\<rparr>"
      by (simp add: new_PendingPoolTransaction_def is_ready_def)
    have "queue_wf [?p] s" using True new wf tx by (simp add: queue_wf_def)
    from add_ready_transaction_ok [OF ord inv this] True False p tx show ?thesis
      by (simp add: inner_add_transaction_def)
  next
    case nr: False
    obtain r pend where add: "pending_add_transaction ?p ?P = Some (r, pend)"
      using pending_add_transaction_total [OF nr, of ?P] new tx by auto
    then show ?thesis
    proof (cases rule: pending_add_transaction_cases)
      case underpriced
      with add nr False inv show ?thesis
        by (simp add: inner_add_transaction_def added_post_def)
    next
      case added
      have "pending_inv pend"
        using pending_add_transaction_inv [OF _ add] inv miss tx by (auto simp: pool_inv_def)
      moreover have "hm_get (provided_markers ?R) m = None" if "hm_get (required_markers pend) m \<noteq> None" for m
      proof -
        have "m \<in> dom (hm_get (required_markers pend))" using that by auto
        then have "m \<in> dom (hm_get (required_markers ?P)) \<or> m \<in> set (missing_markers ?p)"
          unfolding added(2) insert_waiting_required by simp
        with miss inv show ?thesis by (auto simp: pool_inv_def)
      qed
      ultimately have "pool_inv (s\<lparr>pending_transactions := pend\<rparr>)"
        using inv added(2) new wf tx by (auto simp: pool_inv_def insert_waiting_tx split: if_splits)
      moreover have "in_pool [] (s\<lparr>pending_transactions := pend\<rparr>) h t \<longleftrightarrow>
          in_pool [\<lparr>p_transaction = tx, missing_markers = []\<rparr>] s h t" for h t
        using added(2) tx new by (auto simp: in_pool_def insert_waiting_tx)
      ultimately show ?thesis
        using add added nr False tx by (simp add: inner_add_transaction_def added_post_def Let_def)
    qed
  qed
qed

end
