(* ===== verification/Pool_Safety.thy ===== *)
theory Pool_Safety
  imports Anvil_Pool
begin

text \<open>
  The properties of the whole pool of \<open>Anvil_Pool\<close>: what each call of \<open>Pool\<close> does to the
  transactions the pool holds, and that a pool fed by the RPC layer never panics and always offers
  every ready transaction.
\<close>

section \<open>Pruning and importing\<close>

lemma in_pool_removal:
  assumes inv: "pool_inv s" and q: "queue_wf q s" and rm: "removes_to (ready_transactions s) rs rdy"
  shows "in_pool q (s\<lparr>ready_transactions := rdy\<rparr>) h t \<longleftrightarrow> in_pool q s h t \<and> h \<notin> tx_hash ` set rs"
proof -
  have "h \<notin> tx_hash ` set rs"
    if "waiting_tx (pending_transactions s) h = Some t \<or> (\<exists>p\<in>set q. p_hash p = h)"
  proof -
    have "ready_txs (ready_transactions s) h = None"
      using that inv q by (auto simp: pool_inv_def queue_wf_def)
    then show ?thesis using removed_is_ready [OF rm, of h] by blast
  qed
  moreover have "ready_txs rdy h = Some t \<longleftrightarrow> ready_txs (ready_transactions s) h = Some t \<and> h \<notin> tx_hash ` set rs"
    using rm by (auto simp: removes_to_def restrict_map_def)
  ultimately show ?thesis by (auto simp: in_pool_def)
qed

lemma queue_wf_removal:
  "queue_wf q s \<Longrightarrow> removes_to (ready_transactions s) rs rdy \<Longrightarrow> queue_wf q (s\<lparr>ready_transactions := rdy\<rparr>)"
  by (auto simp: queue_wf_def removes_to_None)

text \<open>After \<open>prune_each\<close>, \<open>q\<close> stands for the transactions already on the list of imports.\<close>

definition prune_post ::
    "TxMarker list \<Rightarrow> PendingPoolTransaction list \<Rightarrow> PoolInner \<Rightarrow> PendingPoolTransaction list \<Rightarrow>
     PoolTransaction list \<Rightarrow> PoolInner \<Rightarrow> bool" where
  "prune_post markers q s imports pruned s' \<longleftrightarrow>
     pool_inv s' \<and> queue_wf (q @ imports) s' \<and>
     (\<forall>h t. in_pool (q @ imports) s' h t \<longleftrightarrow> in_pool q s h t \<and> h \<notin> tx_hash ` set pruned) \<and>
     (\<forall>h t. ready_txs (ready_transactions s) h = Some t \<longrightarrow> set (provides t) \<inter> set markers \<noteq> {} \<longrightarrow>
        h \<in> tx_hash ` set pruned) \<and>
     (\<forall>t\<in>set pruned. ready_txs (ready_transactions s) (tx_hash t) = Some t)"

lemma prune_each_ok:
  assumes ord: "hash_order order"
  shows "pool_inv s \<Longrightarrow> queue_wf q s \<Longrightarrow>
   \<exists>imports pruned s'. prune_each order markers s = Some (imports, pruned, s') \<and>
     prune_post markers q s imports pruned s'"
proof (induction markers arbitrary: q s)
  case Nil
  then show ?case by (auto simp: prune_post_def)
next
  case (Cons m markers)
  obtain u pend where mk: "mark_and_unlock order [m] (pending_transactions s) = Some (u, pend)"
    and i1: "pool_inv (s\<lparr>pending_transactions := pend\<rparr>)"
    and q1: "queue_wf (q @ u) (s\<lparr>pending_transactions := pend\<rparr>)"
    and c1: "\<forall>h t. in_pool (q @ u) (s\<lparr>pending_transactions := pend\<rparr>) h t \<longleftrightarrow> in_pool q s h t"
    by (rule mark_step [OF ord Cons.prems])
  let ?s1 = "s\<lparr>pending_transactions := pend\<rparr>"
  obtain rs rdy where pr: "prune_tags m (ready_transactions s) = Some (rs, rdy)" and ri: "ready_inv rdy"
    and rm: "removes_to (ready_transactions s) rs rdy" and gone: "hm_get (provided_markers rdy) m = None"
    using prune_tags_ok [of "ready_transactions s" m] Cons.prems(1) by (auto simp: pool_inv_def)
  let ?s2 = "\<lparr>ready_transactions = rdy, pending_transactions = pend\<rparr>"
  have s2: "?s1\<lparr>ready_transactions := rdy\<rparr> = ?s2" by simp
  have rm1: "removes_to (ready_transactions ?s1) rs rdy" using rm by simp
  have i2: "pool_inv ?s2" and q2: "queue_wf (q @ u) ?s2"
    using ready_removal_inv [OF i1 ri rm1] queue_wf_removal [OF q1 rm1] unfolding s2 .
  have c2: "in_pool (q @ u) ?s2 h t \<longleftrightarrow> in_pool q s h t \<and> h \<notin> tx_hash ` set rs" for h t
    using in_pool_removal [OF i1 q1 rm1, of h t] c1 unfolding s2 by simp
  obtain im pd s' where rest: "prune_each order markers ?s2 = Some (im, pd, s')"
    and post: "prune_post markers (q @ u) ?s2 im pd s'"
    using Cons.IH [OF i2 q2] by blast
  have first: "h \<in> tx_hash ` set rs" if "ready_txs (ready_transactions s) h = Some t" "m \<in> set (provides t)" for h t
  proof (rule ccontr)
    assume "h \<notin> tx_hash ` set rs"
    then have "ready_txs rdy h = Some t" using rm that by (auto simp: removes_to_def restrict_map_def)
    with that(2) marks_ok_provided [of "{}" rdy h t m] ri gone show False by (simp add: ready_inv_def)
  qed
  have later: "h \<in> tx_hash ` set rs \<or> ready_txs rdy h = Some t" if "ready_txs (ready_transactions s) h = Some t" for h t
    using rm that by (auto simp: removes_to_def restrict_map_def)
  have "prune_post (m # markers) q s (u @ im) (rs @ pd) s'"
    unfolding prune_post_def
  proof (intro conjI allI impI ballI)
    show "pool_inv s'" "queue_wf (q @ u @ im) s'" using post by (auto simp: prune_post_def)
    fix h t
    show "in_pool (q @ u @ im) s' h t \<longleftrightarrow> in_pool q s h t \<and> h \<notin> tx_hash ` set (rs @ pd)"
      using post c2 by (auto simp: prune_post_def)
    show "h \<in> tx_hash ` set (rs @ pd)"
      if t: "ready_txs (ready_transactions s) h = Some t" and m: "set (provides t) \<inter> set (m # markers) \<noteq> {}"
    proof (cases "h \<in> tx_hash ` set rs")
      case True
      then show ?thesis by auto
    next
      case False
      with first [OF t] m have "set (provides t) \<inter> set markers \<noteq> {}" by auto
      with later [OF t] False post have "h \<in> tx_hash ` set pd" by (auto simp: prune_post_def)
      then show ?thesis by auto
    qed
  next
    fix t assume "t \<in> set (rs @ pd)"
    then show "ready_txs (ready_transactions s) (tx_hash t) = Some t"
      using post rm removes_to_Some [OF rm] by (auto simp: prune_post_def removes_to_def)
  qed
  with mk pr rest show ?case by simp
qed

lemma queue_wf_tail:
  assumes q: "queue_wf (p # q) s" and sub: "\<And>h t. in_pool [] s' h t \<Longrightarrow> in_pool [p] s h t"
  shows "queue_wf q s'"
proof -
  have "\<not> in_pool [] s' (p_hash x) t" if "x \<in> set q" for x t
  proof
    assume "in_pool [] s' (p_hash x) t"
    then have "in_pool [p] s (p_hash x) t" by (rule sub)
    moreover have "p_hash x \<noteq> p_hash p" using q that by (auto simp: queue_wf_def image_def)
    ultimately show False using q that by (auto simp: in_pool_def queue_wf_def)
  qed
  then show ?thesis
    using q by (auto simp: queue_wf_def in_pool_def)
qed

lemma added_post_sub:
  "added_post hash q s r s' \<Longrightarrow> in_pool [] s' h t \<Longrightarrow> in_pool q s h t"
  by (auto simp: added_post_def in_pool_def split: sum.splits PoolError.splits AddedTransaction.splits)

lemma import_each_ok:
  assumes ord: "hash_order order"
  shows "pool_inv s \<Longrightarrow> queue_wf q s \<Longrightarrow>
   \<exists>prom failed s'. import_each order q s = Some (prom, failed, s') \<and> pool_inv s' \<and>
     (\<forall>h t. in_pool [] s' h t \<longrightarrow> in_pool q s h t)"
proof (induction q arbitrary: s)
  case Nil
  then show ?case by simp
next
  case (Cons p q)
  have "queue_wf [p] s" using Cons.prems(2) by (simp add: queue_wf_def)
  then obtain r s1 where add: "add_ready_transaction order p s = Some (r, s1)" and i1: "pool_inv s1"
    and post: "added_post (p_hash p) [p] s r s1"
    using add_ready_transaction_ok [OF ord Cons.prems(1)] by blast
  note sub = added_post_sub [OF post]
  obtain prom failed s' where "import_each order q s1 = Some (prom, failed, s')" "pool_inv s'"
    "\<forall>h t. in_pool [] s' h t \<longrightarrow> in_pool q s1 h t"
    using Cons.IH [OF i1 queue_wf_tail [OF Cons.prems(2) sub]] by blast
  moreover from this(3) sub have "in_pool (p # q) s h t" if "in_pool [] s' h t" for h t
    using that by (auto simp: in_pool_def)
  ultimately show ?case
    using add by (auto split: sum.splits)
qed

section \<open>A pool fed by the RPC layer\<close>

text \<open>\<open>n\<close> bounds the ids handed out so far and those the transactions on the way can still take.\<close>

definition rpc_at :: "(TxHash \<Rightarrow> nat) \<Rightarrow> nat \<Rightarrow> PendingPoolTransaction list \<Rightarrow> PoolInner \<Rightarrow> bool" where
  "rpc_at nonce_of n q s \<longleftrightarrow> pool_inv s \<and> queue_wf q s \<and> links_inv nonce_of (ready_transactions s) \<and>
     (\<forall>p\<in>set q. rpc_tx nonce_of (p_transaction p)) \<and>
     (\<forall>h t. waiting_tx (pending_transactions s) h = Some t \<longrightarrow> rpc_tx nonce_of t) \<and>
     unat (ready_id (ready_transactions s)) + length (waiting_queue (pending_transactions s)) + length q \<le> n"

lemma rpc_at_inv: "rpc_at nonce_of n q s \<Longrightarrow> pool_inv s \<and> links_inv nonce_of (ready_transactions s)"
  by (simp add: rpc_at_def)

lemma rpc_at_mono: "rpc_at nonce_of n q s \<Longrightarrow> n \<le> n' \<Longrightarrow> rpc_at nonce_of n' q s"
  by (simp add: rpc_at_def)

lemma rpc_at_drop: "rpc_at nonce_of n q s \<Longrightarrow> rpc_at nonce_of n [] s"
  by (simp add: rpc_at_def queue_wf_def)

lemma rpc_at_mark:
  assumes ord: "hash_order order" and r: "rpc_at nonce_of n q s"
    and mk: "mark_and_unlock order ms (pending_transactions s) = Some (u, pend)"
  shows "rpc_at nonce_of n (q @ u) (s\<lparr>pending_transactions := pend\<rparr>)"
proof -
  have inv: "pool_inv s" "queue_wf q s" using r by (auto simp: rpc_at_def)
  obtain u' pend' where "mark_and_unlock order ms (pending_transactions s) = Some (u', pend')"
    "pool_inv (s\<lparr>pending_transactions := pend'\<rparr>)" "queue_wf (q @ u') (s\<lparr>pending_transactions := pend'\<rparr>)"
    "length (waiting_queue pend') + length u' \<le> length (waiting_queue (pending_transactions s))"
    "waiting_tx pend' \<subseteq>\<^sub>m waiting_tx (pending_transactions s)"
    "\<forall>p\<in>set u'. waiting_tx (pending_transactions s) (p_hash p) = Some (p_transaction p)"
    by (rule mark_step [OF ord inv, of ms])
  moreover from this(1) mk have "u' = u" "pend' = pend" by auto
  ultimately show ?thesis
    using r by (auto simp: rpc_at_def map_le_def dom_def)
qed

lemma rpc_at_removal:
  assumes r: "rpc_at nonce_of n q s" and ri: "ready_inv rdy" and rm: "removes_to (ready_transactions s) rs rdy"
    and l: "links_inv nonce_of rdy" and id: "ready_id rdy = ready_id (ready_transactions s)"
  shows "rpc_at nonce_of n q (s\<lparr>ready_transactions := rdy\<rparr>)"
  using r ready_removal_inv [OF _ ri rm] queue_wf_removal [OF _ rm] l id by (simp add: rpc_at_def)

lemma rpc_at_add:
  assumes ord: "hash_order order" and r: "rpc_at nonce_of n (cur # q) s" and n: "n < 2 ^ 64"
    and req: "\<forall>m\<in>set (provides (p_transaction cur)). hm_get (required_markers (pending_transactions s)) m = None"
    and add: "ready_add_transaction order cur (ready_transactions s) = Some (x, rdy)"
  shows "rpc_at nonce_of n q (s\<lparr>ready_transactions := rdy\<rparr>)"
proof -
  have inv: "pool_inv s" "queue_wf (cur # q) s" using r by (auto simp: rpc_at_def)
  obtain x' rdy' where add': "ready_add_transaction order cur (ready_transactions s) = Some (x', rdy')"
    "pool_inv (s\<lparr>ready_transactions := rdy'\<rparr>)" "queue_wf q (s\<lparr>ready_transactions := rdy'\<rparr>)"
    by (rule add_step [OF ord inv req])
  have "unat (ready_id (ready_transactions s)) + 1 < 2 ^ LENGTH(64)"
    using r n by (simp add: rpc_at_def)
  then have id: "ready_id (ready_transactions s) \<noteq> - 1" by (simp only: unat_Suc_less_iff) simp
  have "links_inv nonce_of rdy \<and> unat (ready_id rdy) \<le> unat (ready_id (ready_transactions s)) + 1"
    using r by (intro links_ready_add [OF ord _ _ _ id add]) (auto simp: rpc_at_def pool_inv_def)
  with add add' r show ?thesis by (auto simp: rpc_at_def)
qed

lemma rpc_loop:
  "hash_order order \<Longrightarrow> n < 2 ^ 64 \<Longrightarrow> rpc_at nonce_of n q s \<Longrightarrow>
   add_ready_loop order new q info s = Some (r, s') \<Longrightarrow> rpc_at nonce_of n [] s'"
proof (induction order new q info s arbitrary: r s' rule: add_ready_loop.induct)
  case (1 order new info s)
  then show ?case by (auto simp: add_ready_loop.simps)
next
  case (2 order new cur q info s)
  note ord = "2.prems"(1) and n = "2.prems"(2) and rpc = "2.prems"(3) and res = "2.prems"(4)
  let ?ms = "provides (p_transaction cur)" and ?P = "pending_transactions s"
  obtain u pend where mk: "mark_and_unlock order ?ms ?P = Some (u, pend)"
    and req: "\<forall>m\<in>set ?ms. hm_get (required_markers pend) m = None"
    using rpc by (auto simp: rpc_at_def intro: mark_step [OF ord, of s "cur # q" ?ms])
  obtain x rdy where add: "ready_add_transaction order cur (ready_transactions s) = Some (x, rdy)"
    using res mk by (auto simp: add_ready_loop.simps(2) split: option.splits)
  let ?s = "\<lparr>ready_transactions = rdy, pending_transactions = pend\<rparr>"
  have "rpc_at nonce_of n (q @ u) ((s\<lparr>pending_transactions := pend\<rparr>)\<lparr>ready_transactions := rdy\<rparr>)"
    using rpc_at_mark [OF ord rpc mk] req add by (intro rpc_at_add [OF ord _ n]) simp_all
  moreover have "(s\<lparr>pending_transactions := pend\<rparr>)\<lparr>ready_transactions := rdy\<rparr> = ?s" by simp
  ultimately have rpc': "rpc_at nonce_of n (q @ u) ?s" by (simp only:)
  show ?case
  proof (cases x)
    case (Inr rs)
    let ?i = "info\<lparr>promoted := promoted info @ (if new then [] else [p_hash cur]), removed := removed info @ rs\<rparr>"
    have "add_ready_loop order False (q @ u) ?i ?s = Some (r, s')"
      using res mk add Inr by (simp add: add_ready_loop.simps(2))
    then show ?thesis
      using "2.IH"(2) [OF mk refl add refl Inr ord n rpc'] by simp
  next
    case (Inl e)
    show ?thesis
    proof (cases new)
      case True
      then have "s' = ?s" using res mk add Inl by (simp add: add_ready_loop.simps(2))
      then show ?thesis using rpc_at_drop [OF rpc'] by simp
    next
      case False
      then have "add_ready_loop order False (q @ u) (info\<lparr>discarded := discarded info @ [p_hash cur]\<rparr>) ?s = Some (r, s')"
        using res mk add Inl by (simp add: add_ready_loop.simps(2))
      then show ?thesis
        using "2.IH"(1) [OF mk refl add refl Inl False ord n rpc'] by simp
    qed
  qed
qed

lemma rpc_remove_ready:
  assumes r: "rpc_at nonce_of n q s" and cl: "remove_with_markers hs None (ready_transactions s) = (cs, rdy)"
  shows "rpc_at nonce_of n q (s\<lparr>ready_transactions := rdy\<rparr>)"
proof -
  have "ready_inv (ready_transactions s)" using r by (simp add: rpc_at_def pool_inv_def)
  note rm = remove_invalid_ok [OF this cl]
  have "links_inv nonce_of rdy" using links_remove [OF _ cl] r by (simp add: rpc_at_def)
  with rpc_at_removal [OF r, of rdy cs] rm show ?thesis by blast
qed

lemma rpc_add_ready:
  assumes ord: "hash_order order" and n: "n < 2 ^ 64" and rpc: "rpc_at nonce_of n [p] s"
  shows "\<exists>r s'. add_ready_transaction order p s = Some (r, s') \<and> rpc_at nonce_of n [] s'"
proof -
  obtain r s' where "add_ready_transaction order p s = Some (r, s')"
    using add_ready_transaction_ok [OF ord] rpc unfolding rpc_at_def by blast
  moreover from this have "rpc_at nonce_of n [] s'"
    unfolding add_ready_transaction_def
  proof (auto split: option.splits prod.splits sum.splits if_splits)
    fix info s1
    assume loop: "add_ready_loop order True [p] (new_ReadyInfo (p_hash p)) s = Some (Inr info, s1)"
    obtain cs rdy where "remove_with_markers (promoted info) None (ready_transactions s1) = (cs, rdy)"
      by fastforce
    with rpc_remove_ready [OF rpc_loop [OF ord n rpc loop]]
    show "rpc_at nonce_of n [] (s1\<lparr>ready_transactions :=
        snd (clear_transactions (promoted info) (ready_transactions s1))\<rparr>)"
      by (simp add: clear_transactions_def)
  qed (auto dest: rpc_loop [OF ord n rpc])
  ultimately show ?thesis by blast
qed

lemma length_hm_insert: "length (hm_insert k v m) \<le> Suc (length m)"
  by (induction m) auto

lemma rpc_inner_add:
  assumes ord: "hash_order order" and n: "Suc n < 2 ^ 64" and rpc: "rpc_at nonce_of n [] s"
    and tx: "rpc_tx nonce_of tx"
  shows "\<exists>r s'. inner_add_transaction order tx s = Some (r, s') \<and> rpc_at nonce_of (Suc n) [] s'"
proof -
  let ?R = "ready_transactions s" and ?P = "pending_transactions s"
  let ?p = "new_PendingPoolTransaction tx (provided_markers ?R)"
  have inv: "pool_inv s" using rpc by (simp add: rpc_at_def)
  obtain r s' where res: "inner_add_transaction order tx s = Some (r, s')" and inv': "pool_inv s'"
    using inner_add_transaction_ok [OF ord inv rpc_tx_wf [OF tx]] by blast
  have ptx: "p_transaction ?p = tx" by (simp add: new_PendingPoolTransaction_def)
  consider (dup) "inner_contains s (tx_hash tx)" | (ready) "\<not> inner_contains s (tx_hash tx)" "is_ready ?p"
    | (wait) "\<not> inner_contains s (tx_hash tx)" "\<not> is_ready ?p" by blast
  then have "rpc_at nonce_of (Suc n) [] s'"
  proof cases
    case dup
    then show ?thesis using res rpc by (auto simp: inner_add_transaction_def rpc_at_def)
  next
    case ready
    then have "queue_wf [?p] s"
      using rpc_tx_wf [OF tx] ptx
      by (auto simp: queue_wf_def inner_contains_def pending_contains_def ready_contains_def hm_contains_def
          ready_txs_None waiting_tx_def)
    then have "rpc_at nonce_of (Suc n) [?p] s" using rpc tx ptx by (simp add: rpc_at_def)
    from rpc_add_ready [OF ord n this] ready res show ?thesis by (auto simp: inner_add_transaction_def Let_def)
  next
    case wait
    obtain x pend where add: "pending_add_transaction ?p ?P = Some (x, pend)" and s': "s' = s\<lparr>pending_transactions := pend\<rparr>"
      using wait res by (auto simp: inner_add_transaction_def Let_def split: option.splits prod.splits sum.splits)
    from add show ?thesis
    proof (cases rule: pending_add_transaction_cases)
      case underpriced
      then show ?thesis using rpc s' by (auto simp: rpc_at_def)
    next
      case added
      have "rpc_tx nonce_of t" if "waiting_tx pend h = Some t" for h t
        using that rpc tx ptx unfolding added(2) insert_waiting_tx by (auto simp: rpc_at_def split: if_splits)
      moreover have "length (waiting_queue pend) \<le> Suc (length (waiting_queue ?P))"
        unfolding added(2) by (simp add: insert_waiting_def length_hm_insert)
      ultimately show ?thesis
        using rpc s' inv' by (auto simp: rpc_at_def queue_wf_def)
    qed
  qed
  with res show ?thesis by blast
qed

lemma rpc_prune_each:
  assumes ord: "hash_order order"
  shows "rpc_at nonce_of n q s \<Longrightarrow> prune_each order ms s = Some (im, pd, s') \<Longrightarrow> rpc_at nonce_of n (q @ im) s'"
proof (induction ms arbitrary: q s im pd)
  case Nil
  then show ?case by simp
next
  case (Cons m ms)
  obtain u pend rs rdy im' pd' where mk: "mark_and_unlock order [m] (pending_transactions s) = Some (u, pend)"
    and pr: "prune_tags m (ready_transactions s) = Some (rs, rdy)" and im: "im = u @ im'"
    and rest: "prune_each order ms \<lparr>ready_transactions = rdy, pending_transactions = pend\<rparr> = Some (im', pd', s')"
    using Cons.prems(2) by (auto split: bind_splits)
  let ?s1 = "s\<lparr>pending_transactions := pend\<rparr>"
  have r1: "rpc_at nonce_of n (q @ u) ?s1" by (rule rpc_at_mark [OF ord Cons.prems(1) mk])
  have ri: "ready_inv (ready_transactions s)" using Cons.prems(1) by (simp add: rpc_at_def pool_inv_def)
  have "links_inv nonce_of rdy" using links_prune_tags [OF _ pr] Cons.prems(1) by (simp add: rpc_at_def)
  then have "rpc_at nonce_of n (q @ u) (?s1\<lparr>ready_transactions := rdy\<rparr>)"
    using prune_tags_ok [OF ri, of m] pr by (intro rpc_at_removal [OF r1]) auto
  moreover have "?s1\<lparr>ready_transactions := rdy\<rparr> = \<lparr>ready_transactions = rdy, pending_transactions = pend\<rparr>"
    by simp
  ultimately show ?case using Cons.IH [OF _ rest, of "q @ u"] im by simp
qed

lemma rpc_add_ready_queued:
  assumes ord: "hash_order order" and n: "n < 2 ^ 64" and rpc: "rpc_at nonce_of n (p # q) s"
  shows "\<exists>r s'. add_ready_transaction order p s = Some (r, s') \<and> rpc_at nonce_of n q s'"
proof -
  have q: "queue_wf (p # q) s" and inv: "pool_inv s" using rpc by (simp_all add: rpc_at_def)
  have r1: "rpc_at nonce_of (n - length q) [p] s" using rpc by (auto simp: rpc_at_def queue_wf_def)
  have n': "n - length q < 2 ^ 64" using n by linarith
  obtain r s' where add: "add_ready_transaction order p s = Some (r, s')"
    and r2: "rpc_at nonce_of (n - length q) [] s'"
    using rpc_add_ready [OF ord n' r1] by blast
  have "queue_wf [p] s" using q by (simp add: queue_wf_def)
  from add_ready_transaction_ok [OF ord inv this] add
  have "added_post (p_hash p) [p] s r s'" by auto
  from queue_wf_tail [OF q added_post_sub [OF this]] have "queue_wf q s'" .
  moreover have "length q \<le> n" using rpc by (simp add: rpc_at_def)
  ultimately have "rpc_at nonce_of n q s'" using r2 rpc by (auto simp: rpc_at_def)
  with add show ?thesis by blast
qed

lemma rpc_import_each:
  assumes ord: "hash_order order" and n: "n < 2 ^ 64"
  shows "rpc_at nonce_of n q s \<Longrightarrow>
    \<exists>prom failed s'. import_each order q s = Some (prom, failed, s') \<and> rpc_at nonce_of n [] s'"
proof (induction q arbitrary: s)
  case Nil
  then show ?case by simp
next
  case (Cons p q)
  obtain r s1 where add: "add_ready_transaction order p s = Some (r, s1)" and "rpc_at nonce_of n q s1"
    using rpc_add_ready_queued [OF ord n Cons.prems] by blast
  from Cons.IH [OF this(2)] add show ?case by (auto split: sum.splits)
qed

lemma rpc_prune_markers:
  assumes ord: "hash_order order" and n: "n < 2 ^ 64" and rpc: "rpc_at nonce_of n [] s"
  shows "\<exists>r s'. inner_prune_markers order ms s = Some (r, s') \<and> rpc_at nonce_of n [] s'"
proof -
  obtain im pd s1 where "prune_each order ms s = Some (im, pd, s1)"
    using prune_each_ok [OF ord, of s "[]" ms] rpc by (auto simp: rpc_at_def)
  moreover from rpc_prune_each [OF ord rpc this] have "rpc_at nonce_of n im s1" by simp
  ultimately show ?thesis
    using rpc_import_each [OF ord n, of nonce_of im s1] by (auto simp: inner_prune_markers_def)
qed

lemma pending_remove_length:
  "length (waiting_queue (snd (pending_remove hs s))) \<le> length (waiting_queue s)"
proof (induction hs s rule: pending_remove.induct)
  case (2 h hs s)
  show ?case
  proof (cases "hm_get (waiting_queue s) h")
    case None
    with 2 show ?thesis by simp
  next
    case (Some tx)
    have "length (waiting_queue (remove_waiting h tx s)) \<le> length (waiting_queue s)"
      using length_hm_remove [of "waiting_queue s" h] Some by (simp add: remove_waiting_def unqueue_def)
    with 2 Some show ?thesis by (auto split: prod.splits)
  qed
qed simp

section \<open>Removing\<close>

lemma remove_both_ok:
  assumes inv: "pool_inv s" and res: "remove_both hs s = (rs, s')"
  shows "pool_inv s' \<and> (\<forall>h t. in_pool [] s' h t \<longleftrightarrow> in_pool [] s h t \<and> h \<notin> tx_hash ` set rs) \<and>
    (\<forall>h\<in>set hs. \<not> inner_contains s' h) \<and>
    waiting_tx (pending_transactions s') \<subseteq>\<^sub>m waiting_tx (pending_transactions s)"
proof (cases "hs = []")
  case True
  with assms show ?thesis by (simp add: remove_both_def)
next
  case False
  let ?P = "pending_transactions s"
  obtain cs rdy where cl: "remove_with_markers hs None (ready_transactions s) = (cs, rdy)" by fastforce
  obtain ps pend where pr: "pending_remove hs ?P = (ps, pend)" by fastforce
  have s': "s' = \<lparr>ready_transactions = rdy, pending_transactions = pend\<rparr>" and rs: "rs = cs @ ps"
    using res False cl pr by (auto simp: remove_both_def)
  have rm: "ready_inv rdy" "removes_to (ready_transactions s) cs rdy" "\<forall>h\<in>set hs. ready_txs rdy h = None"
    using remove_invalid_ok [OF _ cl] inv by (auto simp: pool_inv_def)
  have pd: "pending_inv pend" "waiting_tx pend = waiting_tx ?P |` (- set hs)"
    "set ps = ran (waiting_tx ?P |` set hs)"
    "dom (hm_get (required_markers pend)) \<subseteq> dom (hm_get (required_markers ?P))"
    using pending_remove_ok [OF _ pr] inv by (auto simp: pool_inv_def)
  have i1: "pool_inv (s\<lparr>ready_transactions := rdy\<rparr>)" by (rule ready_removal_inv [OF inv rm(1,2)])
  have "pool_inv s'"
    using i1 pd(1,4) unfolding pool_inv_def s' by (auto simp: pd(2) restrict_map_def split: if_splits)
  moreover have "in_pool [] s' h t \<longleftrightarrow> in_pool [] s h t \<and> h \<notin> tx_hash ` set rs" for h t
  proof -
    have qok: "queue_ok ?P" using inv by (simp add: pool_inv_def pending_inv_def)
    have hash: "waiting_tx ?P h = Some t \<Longrightarrow> tx_hash t = h" for h t
      using queue_ok_waiting [OF qok] by (auto simp: waiting_tx_def)
    have ps: "x \<in> tx_hash ` set ps \<longleftrightarrow> x \<in> set hs \<and> waiting_tx ?P x \<noteq> None" for x
      using hash by (auto simp: pd(3) ran_def restrict_map_def image_iff split: if_splits)
    have "waiting_tx pend h = Some t \<longleftrightarrow> waiting_tx ?P h = Some t \<and> h \<notin> tx_hash ` set ps"
      by (auto simp: ps pd(2) restrict_map_def)
    moreover have "ready_txs rdy h = Some t \<Longrightarrow> h \<notin> tx_hash ` set ps"
      using ps [of h] i1 by (auto simp: pool_inv_def)
    moreover have "waiting_tx ?P h = Some t \<Longrightarrow> h \<notin> tx_hash ` set cs"
      using removed_is_ready [OF rm(2), of h] inv by (auto simp: pool_inv_def)
    moreover have "ready_txs rdy h = Some t \<longleftrightarrow> ready_txs (ready_transactions s) h = Some t \<and> h \<notin> tx_hash ` set cs"
      using rm(2) by (auto simp: removes_to_def restrict_map_def)
    moreover have "ready_txs (ready_transactions s) h = Some t \<Longrightarrow> h \<notin> tx_hash ` set ps"
      using ps [of h] inv by (auto simp: pool_inv_def)
    ultimately show ?thesis unfolding in_pool_def s' rs by auto
  qed
  moreover have "\<not> inner_contains s' h" if "h \<in> set hs" for h
  proof -
    have "waiting_tx pend h = None" using that pd(2) by (simp add: restrict_map_def)
    then show ?thesis
      using that rm(3) by (simp add: inner_contains_def pending_contains_def ready_contains_def
          hm_contains_def s' ready_txs_None waiting_tx_def)
  qed
  moreover have "waiting_tx (pending_transactions s') \<subseteq>\<^sub>m waiting_tx ?P"
    using pd(2) by (auto simp: s' map_le_def restrict_map_def split: if_splits)
  ultimately show ?thesis by blast
qed

section \<open>Listeners\<close>

definition delivered :: "('l \<Rightarrow> TxHash \<Rightarrow> SendOutcome \<times> 'l) \<Rightarrow> TxHash \<Rightarrow> 'l \<Rightarrow> 'l option" where
  "delivered try_send h l = (case try_send l h of (Disconnected, _) \<Rightarrow> None | (_, l') \<Rightarrow> Some l')"

lemma take_swap_remove: "n < length xs \<Longrightarrow> take n (swap_remove n xs) = take n xs"
  by (simp add: swap_remove_def butlast_conv_take)

lemma mset_drop_swap_remove:
  assumes "n < length xs"
  shows "mset (drop n (swap_remove n xs)) = mset (drop (Suc n) xs)"
proof -
  have "mset (take n xs) + mset (drop n (swap_remove n xs)) = mset (swap_remove n xs)"
    by (metis append_take_drop_id assms mset_append take_swap_remove)
  also have "\<dots> = mset xs - {#xs ! n#}" by (rule mset_swap_remove [OF assms])
  also have "mset xs = mset (take n xs) + ({#xs ! n#} + mset (drop (Suc n) xs))"
    by (metis append_take_drop_id assms Cons_nth_drop_Suc mset.simps(2) mset_append add_mset_add_single
        add.commute)
  finally show ?thesis by simp
qed

lemma notify_loop_ok:
  "n \<le> length ls \<Longrightarrow> \<exists>ls'. notify_loop try_send h n ls = Some ls' \<and>
     mset ls' = mset (drop n ls) + mset (List.map_filter (delivered try_send h) (take n ls))"
proof (induction n arbitrary: ls)
  case 0
  then show ?case by (simp add: List.map_filter_def)
next
  case (Suc n)
  then have n: "n < length ls" by simp
  obtain out l where out: "try_send (ls ! n) h = (out, l)" by fastforce
  let ?rest = "swap_remove n ls"
  let ?ls = "case out of Sent \<Rightarrow> ?rest @ [l] | Full \<Rightarrow> ?rest @ [l] | Disconnected \<Rightarrow> ?rest"
  have len: "n \<le> length ?rest" using n by (simp add: swap_remove_def)
  have tk: "take n ?ls = take n ls" and dr: "mset (drop n ?ls) = mset (drop (Suc n) ls) +
      (case delivered try_send h (ls ! n) of None \<Rightarrow> {#} | Some l \<Rightarrow> {#l#})"
    using len out take_swap_remove [OF n] mset_drop_swap_remove [OF n]
    by (auto simp: delivered_def split: SendOutcome.splits)
  have "n \<le> length ?ls" using len by (simp split: SendOutcome.splits)
  from Suc.IH [OF this] obtain ls' where ls': "notify_loop try_send h n ?ls = Some ls'"
    "mset ls' = mset (drop n ?ls) + mset (List.map_filter (delivered try_send h) (take n ?ls))" by blast
  have "take (Suc n) ls = take n ls @ [ls ! n]" using n by (rule take_Suc_conv_app_nth)
  then have "mset (List.map_filter (delivered try_send h) (take (Suc n) ls)) =
      mset (List.map_filter (delivered try_send h) (take n ls)) +
      (case delivered try_send h (ls ! n) of None \<Rightarrow> {#} | Some l \<Rightarrow> {#l#})"
    by (simp add: List.map_filter_def split: option.splits)
  with ls' tk dr n out show ?case by (simp add: Let_def)
qed

text \<open>Notifying the listeners never panics and reaches each of them exactly once: afterwards
  the pool has the senders that took the hash or had a full buffer, and has lost exactly those whose
  receiver is gone.\<close>

theorem notify_listener_once:
  "\<exists>ls. notify_listener try_send h pool = Some (pool\<lparr>transaction_listener := ls\<rparr>) \<and>
     mset ls = mset (List.map_filter (delivered try_send h) (transaction_listener pool))"
  using notify_loop_ok [of "length (transaction_listener pool)" "transaction_listener pool" try_send h]
  by (auto simp: notify_listener_def)

lemma notify_all_total: "\<exists>pool'. notify_all try_send hs pool = Some pool' \<and> inner pool' = inner pool"
proof (induction hs arbitrary: pool)
  case (Cons h hs)
  obtain ls where "notify_listener try_send h pool = Some (pool\<lparr>transaction_listener := ls\<rparr>)"
    using notify_loop_ok [of "length (transaction_listener pool)" "transaction_listener pool" try_send h]
    by (auto simp: notify_listener_def)
  with Cons.IH [of "pool\<lparr>transaction_listener := ls\<rparr>"] show ?case by auto
qed simp

section \<open>The calls of a pool\<close>

datatype 'l pool_call =
    AddTransaction PoolTransaction
  | OnMinedBlock MinedBlockOutcome
  | RemoveInvalid "TxHash list"
  | RemoveByAddress Address
  | DropTransaction TxHash
  | Clear
  | AddReadyListener 'l

fun pool_step ::
    "('l \<Rightarrow> TxHash \<Rightarrow> SendOutcome \<times> 'l) \<Rightarrow> (TxHash list \<Rightarrow> TxHash list) \<Rightarrow> 'l pool_call \<Rightarrow> 'l Pool \<Rightarrow>
     (unit \<times> 'l Pool) option" where
  "pool_step try_send order (AddTransaction tx) pool =
     map_option (\<lambda>(_, p). ((), p)) (pool_add_transaction try_send order tx pool)"
| "pool_step try_send order (OnMinedBlock outcome) pool =
     map_option (\<lambda>(_, p). ((), p)) (on_mined_block order outcome pool)"
| "pool_step try_send order (RemoveInvalid hs) pool = Some ((), snd (remove_invalid hs pool))"
| "pool_step try_send order (RemoveByAddress a) pool =
     map_option (\<lambda>(_, p). ((), p)) (remove_transactions_by_address order a pool)"
| "pool_step try_send order (DropTransaction h) pool = Some ((), snd (drop_transaction h pool))"
| "pool_step try_send order Clear pool = Some ((), pool_clear pool)"
| "pool_step try_send order (AddReadyListener l) pool = Some ((), add_ready_listener l pool)"

definition rpc_call :: "(TxHash list \<Rightarrow> TxHash list) \<Rightarrow> (TxHash \<Rightarrow> nat) \<Rightarrow> 'l pool_call \<Rightarrow> bool" where
  "rpc_call order nonce_of c \<longleftrightarrow> hash_order order \<and>
     (case c of AddTransaction tx \<Rightarrow> rpc_tx nonce_of tx | _ \<Rightarrow> True)"

definition rpc_pool :: "(TxHash \<Rightarrow> nat) \<Rightarrow> nat \<Rightarrow> 'l Pool \<Rightarrow> bool" where
  "rpc_pool nonce_of n pool = rpc_at nonce_of n [] (inner pool)"

lemma rpc_remove_both:
  assumes rpc: "rpc_at nonce_of n [] s"
  shows "rpc_at nonce_of n [] (snd (remove_both hs s))"
proof (cases "hs = []")
  case True
  with rpc show ?thesis by (simp add: remove_both_def)
next
  case False
  let ?P = "pending_transactions s"
  obtain cs rdy where cl: "remove_with_markers hs None (ready_transactions s) = (cs, rdy)" by fastforce
  obtain ps pend where pr: "pending_remove hs ?P = (ps, pend)" by fastforce
  have eq: "remove_both hs s = (cs @ ps, \<lparr>ready_transactions = rdy, pending_transactions = pend\<rparr>)"
    using False cl pr by (simp add: remove_both_def)
  have "pool_inv \<lparr>ready_transactions = rdy, pending_transactions = pend\<rparr>"
    using remove_both_ok [OF _ eq] rpc by (simp add: rpc_at_def)
  moreover have "waiting_tx pend = waiting_tx ?P |` (- set hs)"
    using pending_remove_ok [OF _ pr] rpc by (simp add: rpc_at_def pool_inv_def)
  moreover have "length (waiting_queue pend) \<le> length (waiting_queue ?P)"
    using pending_remove_length [of hs ?P] pr by simp
  ultimately show ?thesis
    using rpc_remove_ready [OF rpc cl] rpc eq
    by (auto simp: rpc_at_def queue_wf_def restrict_map_def split: if_splits)
qed

lemma rpc_drain:
  assumes "rpc_at nonce_of n q s"
  shows "\<exists>txs. drain (get_transactions (ready_transactions s)) = Some txs \<and>
    set txs = ran (ready_txs (ready_transactions s))"
  using drain_complete [of nonce_of] assms by (simp add: rpc_at_def)

lemma rpc_pool_step:
  assumes rpc: "rpc_pool nonce_of n pool" and c: "rpc_call order nonce_of c" and n: "n < 2 ^ 64 - 1"
  shows "\<exists>x pool'. pool_step try_send order c pool = Some (x, pool') \<and> rpc_pool nonce_of (Suc n) pool'"
proof -
  have ord: "hash_order order" and n': "n < 2 ^ 64" "Suc n < 2 ^ 64" using c n by (auto simp: rpc_call_def)
  have r: "rpc_at nonce_of n [] (inner pool)" using rpc by (simp add: rpc_pool_def)
  have keep: "rpc_at nonce_of (Suc n) [] s" if "rpc_at nonce_of n [] s" for s
    using rpc_at_mono [OF that] by simp
  show ?thesis
  proof (cases c)
    case (AddTransaction tx)
    then have "rpc_tx nonce_of tx" using c by (simp add: rpc_call_def)
    from rpc_inner_add [OF ord n'(2) r this] obtain res s where add: "inner_add_transaction order tx (inner pool) = Some (res, s)"
      and r': "rpc_at nonce_of (Suc n) [] s" by blast
    have "\<exists>x pool'. pool_add_transaction try_send order tx pool = Some (x, pool') \<and> inner pool' = s"
      using add notify_all_total [of try_send _ "pool\<lparr>inner := s\<rparr>"]
      by (auto simp: pool_add_transaction_def Let_def simp del: notify_all.simps
          split: sum.splits AddedTransaction.splits) (metis bind.bind_lunit)
    with AddTransaction r' show ?thesis by (auto simp: rpc_pool_def)
  next
    case (OnMinedBlock outcome)
    let ?s = "snd (remove_both (map tx_hash (mined_invalid outcome)) (inner pool))"
    obtain res s where "inner_prune_markers order (concat (map provides (mined_included outcome))) ?s = Some (res, s)"
      and "rpc_at nonce_of n [] s"
      using rpc_prune_markers [OF ord n'(1) rpc_remove_both [OF r]] by blast
    with OnMinedBlock keep show ?thesis
      by (auto simp: on_mined_block_def remove_invalid_def inner_remove_invalid_def prune_markers_def rpc_pool_def
          split: prod.splits)
  next
    case (RemoveInvalid hs)
    then show ?thesis
      using keep [OF rpc_remove_both [OF r]]
      by (auto simp: remove_invalid_def inner_remove_invalid_def rpc_pool_def split: prod.splits) (metis snd_conv)
  next
    case (RemoveByAddress a)
    obtain txs where "drain (get_transactions (ready_transactions (inner pool))) = Some txs"
      using rpc_drain [OF r] by blast
    with RemoveByAddress keep [OF rpc_remove_both [OF r]] show ?thesis
      by (auto simp: remove_transactions_by_address_def inner_remove_by_address_def transactions_by_sender_def
          rpc_pool_def split: prod.splits) (metis snd_conv)
  next
    case (DropTransaction h)
    obtain cs rdy where "remove_with_markers [h] None (ready_transactions (inner pool)) = (cs, rdy)" by fastforce
    with keep [OF rpc_remove_ready [OF r this]] DropTransaction show ?thesis
      by (auto simp: drop_transaction_def rpc_pool_def)
  next
    case Clear
    have "rpc_at nonce_of n [] (inner_clear (inner pool))"
      using r pool_inv_clear links_clear
      by (auto simp: rpc_at_def inner_clear_def queue_wf_def pending_clear_def waiting_tx_def ready_clear_def)
    with Clear keep show ?thesis by (auto simp: pool_clear_def rpc_pool_def)
  next
    case (AddReadyListener l)
    then show ?thesis using keep [OF r] by (auto simp: add_ready_listener_def rpc_pool_def)
  qed
qed

interpretation rpc_machine: counted_machine "pool_step try_send order" "rpc_pool nonce_of"
    "rpc_call order nonce_of" "2 ^ 64 - 1" for try_send order nonce_of
  by unfold_locales (rule rpc_pool_step)

lemma rpc_pool_empty: "rpc_pool nonce_of 0 empty_pool"
  using pool_inv_empty links_empty
  by (simp add: rpc_pool_def empty_pool_def rpc_at_def empty_inner_def queue_wf_def empty_pending_def
      waiting_tx_def empty_ready_def)

section \<open>What the calls promise\<close>

text \<open>A transaction and a listener for the concrete runs below.\<close>

definition sample_tx :: "TxHash \<Rightarrow> u128 \<Rightarrow> TxMarker list \<Rightarrow> TxMarker list \<Rightarrow> PoolTransaction" where
  "sample_tx h price req prov =
     \<lparr>pending_transaction = \<lparr>transaction = legacy_tx 0 price, sender = 7, pending_hash = h\<rparr>,
      requires = req, provides = prov, priority = price\<rparr>"

definition always_sent :: "unit \<Rightarrow> TxHash \<Rightarrow> SendOutcome \<times> unit" where
  "always_sent l h = (Sent, l)"

text \<open>C1. A pool that is only fed by the RPC layer never panics: whatever calls are made to it (fewer
  than \<open>2 ^ 64\<close> of them), each returns, and the two halves of the pool agree afterwards.\<close>

theorem rpc_pool_safe:
  assumes "list_all (rpc_call order nonce_of) calls" and "length calls < 2 ^ 64"
  shows "\<exists>xs pool. run (pool_step try_send order) calls empty_pool = Some (xs, pool) \<and> pool_inv (inner pool)"
  using rpc_machine.run_counted [OF rpc_pool_empty assms(1)] assms(2)
  by (auto simp: rpc_pool_def rpc_at_def) force

theorem rpc_pool_safe_witness:
  "\<exists>xs pool. run (pool_step always_sent insertion_order)
      [AddReadyListener (), AddTransaction (api_pool_transaction Fees 0
         \<lparr>transaction = legacy_tx 3 5, sender = 7, pending_hash = 1\<rparr>), RemoveByAddress 7, Clear]
      empty_pool = Some (xs, pool) \<and> pool_inv (inner pool)"
proof -
  have "rpc_tx (\<lambda>_. 3) (api_pool_transaction Fees 0 \<lparr>transaction = legacy_tx 3 5, sender = 7, pending_hash = 1\<rparr>)"
    by (rule rpc_tx_api) simp
  then show ?thesis
    by (intro rpc_pool_safe [where nonce_of = "\<lambda>_. 3"])
      (simp_all add: rpc_call_def insertion.hash_order_axioms)
qed

text \<open>C5. Such a pool offers everything it has: the iterator over its ready transactions comes to an
  end, and what it has yielded by then are exactly the ready transactions.\<close>

theorem rpc_pool_offers_all:
  assumes "list_all (rpc_call order nonce_of) calls" and "length calls < 2 ^ 64"
    and "run (pool_step try_send order) calls empty_pool = Some (xs, pool)"
  shows "\<exists>txs. drain (get_transactions (ready_transactions (inner pool))) = Some txs \<and>
    set txs = ran (ready_txs (ready_transactions (inner pool)))"
proof -
  have "0 + length calls \<le> 2 ^ 64 - 1" using assms(2) by simp
  from rpc_machine.run_counted [OF rpc_pool_empty assms(1) this, where try_send = try_send] assms(3)
  have "rpc_pool nonce_of (length calls) pool" by simp
  then show ?thesis unfolding rpc_pool_def by (rule rpc_drain)
qed

theorem rpc_pool_offers_all_witness:
  "\<exists>xs pool txs. run (pool_step always_sent reverse_order)
      [AddTransaction (api_pool_transaction Fees 0 \<lparr>transaction = legacy_tx 1 5, sender = 7, pending_hash = 1\<rparr>),
       AddTransaction (api_pool_transaction Fees 0 \<lparr>transaction = legacy_tx 0 9, sender = 7, pending_hash = 2\<rparr>)]
      empty_pool = Some (xs, pool) \<and>
     drain (get_transactions (ready_transactions (inner pool))) = Some txs \<and>
     set txs = ran (ready_txs (ready_transactions (inner pool)))"
proof -
  let ?nonce = "\<lambda>h :: TxHash. if h = 1 then 1 else 0 :: nat"
  let ?calls = "[AddTransaction (api_pool_transaction Fees 0 \<lparr>transaction = legacy_tx 1 5, sender = 7, pending_hash = 1\<rparr>),
       AddTransaction (api_pool_transaction Fees 0 \<lparr>transaction = legacy_tx 0 9, sender = 7, pending_hash = 2\<rparr>)]"
  have "rpc_tx ?nonce (api_pool_transaction Fees 0 \<lparr>transaction = legacy_tx 1 5, sender = 7, pending_hash = 1\<rparr>)"
    "rpc_tx ?nonce (api_pool_transaction Fees 0 \<lparr>transaction = legacy_tx 0 9, sender = 7, pending_hash = 2\<rparr>)"
    by (rule rpc_tx_api; simp)+
  then have calls: "list_all (rpc_call reverse_order ?nonce) ?calls"
    by (simp add: rpc_call_def reversed.hash_order_axioms)
  from rpc_machine.run_counted [OF rpc_pool_empty this, where try_send = always_sent]
  obtain xs pool where "run (pool_step always_sent reverse_order) ?calls empty_pool = Some (xs, pool)" by auto
  with rpc_pool_offers_all [OF calls _ this] show ?thesis by auto
qed

text \<open>C13. A transaction that is refused because it is in the pool already, or because it pays too
  little to replace another one, leaves the pool exactly as it was.\<close>

theorem refused_leaves_pool:
  assumes "hash_order order" and "pool_inv (inner pool)" and "wf_tx tx" and "err \<noteq> CyclicTransaction"
    and res: "pool_add_transaction try_send order tx pool = Some (Inl err, pool')"
  shows "pool' = pool"
proof -
  obtain s where add: "inner_add_transaction order tx (inner pool) = Some (Inl err, s)"
    and pool': "pool' = pool\<lparr>inner := s\<rparr>"
    using res by (auto simp: pool_add_transaction_def Let_def simp del: notify_all.simps
        split: bind_splits sum.splits AddedTransaction.splits)
  have "s = inner pool"
    using inner_add_transaction_ok [OF assms(1-3)] add assms(4)
    by (auto simp: added_post_def split: PoolError.splits)
  with pool' show ?thesis by simp
qed

lemma wf_sample: "distinct prov \<Longrightarrow> set req \<inter> set prov = {} \<Longrightarrow> wf_tx (sample_tx h p req prov)"
  by (simp add: wf_tx_def sample_tx_def)

lemma pool_inv_sample:
  "inner_add_transaction insertion_order (sample_tx h p req prov) s = Some (r, s') \<Longrightarrow>
   distinct prov \<Longrightarrow> set req \<inter> set prov = {} \<Longrightarrow> pool_inv s \<Longrightarrow> pool_inv s'"
  using inner_add_transaction_ok [OF insertion.hash_order_axioms _ wf_sample, of s prov req h p] by auto

theorem refused_leaves_pool_witness:
  "\<exists>s s'. inner_add_transaction insertion_order (sample_tx 1 9 [] [[1]]) empty_inner = Some s \<and>
     pool_add_transaction always_sent insertion_order (sample_tx 2 9 [] [[1]])
       \<lparr>inner = snd s, transaction_listener = [()]\<rparr> =
     Some (Inl (ReplacementUnderpriced (sample_tx 2 9 [] [[1]])), s') \<and>
     s' = \<lparr>inner = snd s, transaction_listener = [()]\<rparr>"
proof -
  let ?a = "inner_add_transaction insertion_order (sample_tx 1 9 [] [[1]]) empty_inner"
  let ?pool = "\<lparr>inner = snd (the ?a), transaction_listener = [()]\<rparr>"
  have a: "?a \<noteq> None" by code_simp
  then have inv: "pool_inv (inner ?pool)"
    using pool_inv_sample [OF _ _ _ pool_inv_empty] by fastforce
  have "fst (the (pool_add_transaction always_sent insertion_order (sample_tx 2 9 [] [[1]]) ?pool)) =
      Inl (ReplacementUnderpriced (sample_tx 2 9 [] [[1]])) \<and>
    pool_add_transaction always_sent insertion_order (sample_tx 2 9 [] [[1]]) ?pool \<noteq> None"
    by code_simp
  then obtain s' where res: "pool_add_transaction always_sent insertion_order (sample_tx 2 9 [] [[1]]) ?pool =
      Some (Inl (ReplacementUnderpriced (sample_tx 2 9 [] [[1]])), s')"
    by (metis (no_types, lifting) option.exhaust_sel prod.collapse)
  have "s' = ?pool"
    by (rule refused_leaves_pool [OF insertion.hash_order_axioms inv wf_sample _ res]) simp_all
  with res a show ?thesis by (intro exI [of _ "the ?a"] exI [of _ s']) auto
qed

text \<open>C9. No transaction is lost or made up when one is added: afterwards the pool holds what it
  held and the new transaction, minus exactly those the report lists as removed or discarded; a
  transaction reported as ready is among the ready ones.\<close>

theorem added_conserves:
  assumes "hash_order order" and "pool_inv (inner pool)" and "wf_tx tx"
    and res: "pool_add_transaction try_send order tx pool = Some (Inr added, pool')"
  shows "case added of
      Pending h' \<Rightarrow> h' = tx_hash tx \<and>
        (\<forall>h t. in_pool [] (inner pool') h t = (in_pool [] (inner pool) h t \<or> h = tx_hash tx \<and> t = tx))
    | Ready info \<Rightarrow> ready_txs (ready_transactions (inner pool')) (tx_hash tx) \<noteq> None \<and>
        (\<forall>h t. in_pool [] (inner pool') h t =
           ((in_pool [] (inner pool) h t \<or> h = tx_hash tx \<and> t = tx) \<and>
            h \<notin> set (discarded info) \<and> h \<notin> tx_hash ` set (removed info)))"
proof -
  obtain s where add: "inner_add_transaction order tx (inner pool) = Some (Inr added, s)"
    and pool': "inner pool' = s"
    using res notify_all_total [of try_send _ "pool\<lparr>inner := _\<rparr>"]
    by (auto simp: pool_add_transaction_def Let_def simp del: notify_all.simps
        split: bind_splits sum.splits AddedTransaction.splits) (metis Pool.select_convs(1) Pool.surjective
        Pool.update_convs(1) option.inject)+
  have "added_post (tx_hash tx) [\<lparr>p_transaction = tx, missing_markers = []\<rparr>] (inner pool) (Inr added) s"
    using inner_add_transaction_ok [OF assms(1-3)] add by auto
  moreover have "in_pool [\<lparr>p_transaction = tx, missing_markers = []\<rparr>] (inner pool) h t \<longleftrightarrow>
      in_pool [] (inner pool) h t \<or> h = tx_hash tx \<and> t = tx" for h t
    by (auto simp: in_pool_def)
  ultimately show ?thesis
    using pool' by (auto simp: added_post_def split: AddedTransaction.splits)
qed

theorem added_conserves_witness:
  "\<exists>s pool'. inner_add_transaction insertion_order (sample_tx 1 5 [[1]] [[2]]) empty_inner = Some s \<and>
     pool_add_transaction always_sent insertion_order (sample_tx 2 9 [] [[1]])
       \<lparr>inner = snd s, transaction_listener = [()]\<rparr> =
     Some (Inr (Ready \<lparr>info_hash = 2, promoted = [1], discarded = [], removed = []\<rparr>), pool') \<and>
     in_pool [] (inner pool') 1 (sample_tx 1 5 [[1]] [[2]]) \<and>
     in_pool [] (inner pool') 2 (sample_tx 2 9 [] [[1]])"
proof -
  let ?a = "inner_add_transaction insertion_order (sample_tx 1 5 [[1]] [[2]]) empty_inner"
  let ?pool = "\<lparr>inner = snd (the ?a), transaction_listener = [()]\<rparr>"
  let ?b = "pool_add_transaction always_sent insertion_order (sample_tx 2 9 [] [[1]]) ?pool"
  let ?info = "\<lparr>info_hash = 2, promoted = [1], discarded = [], removed = []\<rparr>"
  have a: "?a \<noteq> None" by code_simp
  then have inv: "pool_inv (inner ?pool)"
    using pool_inv_sample [OF _ _ _ pool_inv_empty] by fastforce
  have "?b \<noteq> None \<and> fst (the ?b) = Inr (Ready ?info)" by code_simp
  then obtain pool' where res: "?b = Some (Inr (Ready ?info), pool')"
    by (metis (no_types, lifting) option.exhaust_sel prod.collapse)
  have "hm_get (waiting_queue (pending_transactions (inner ?pool))) 1 =
      Some \<lparr>p_transaction = sample_tx 1 5 [[1]] [[2]], missing_markers = [[1]]\<rparr>"
    by code_simp
  then have "in_pool [] (inner ?pool) 1 (sample_tx 1 5 [[1]] [[2]])"
    by (simp add: in_pool_def waiting_tx_def)
  moreover have "tx_hash (sample_tx 2 9 [] [[1]]) = 2" by (simp add: sample_tx_def tx_hash_def)
  ultimately have "in_pool [] (inner pool') 1 (sample_tx 1 5 [[1]] [[2]])"
    "in_pool [] (inner pool') 2 (sample_tx 2 9 [] [[1]])"
    using added_conserves [OF insertion.hash_order_axioms inv wf_sample res] by simp_all
  with res a show ?thesis by (intro exI [of _ "the ?a"] exI [of _ pool']) auto
qed

text \<open>C21. A mined block clears the pool of what it used: no transaction that was ready and provides
  a marker of an included transaction, and none reported invalid, is left in the pool; and the
  block brings no transaction into the pool.\<close>

theorem mined_block_prunes:
  assumes ord: "hash_order order" and inv: "pool_inv (inner pool)"
    and res: "on_mined_block order outcome pool = Some (r, pool')"
  shows "(\<forall>h t. in_pool [] (inner pool') h t \<longrightarrow> in_pool [] (inner pool) h t) \<and>
    (\<forall>h t inc. ready_txs (ready_transactions (inner pool)) h = Some t \<and> inc \<in> set (mined_included outcome) \<and>
       set (provides t) \<inter> set (provides inc) \<noteq> {} \<longrightarrow> \<not> inner_contains (inner pool') h) \<and>
    (\<forall>t\<in>set (mined_invalid outcome). \<not> inner_contains (inner pool') (tx_hash t))"
proof -
  let ?hs = "map tx_hash (mined_invalid outcome)" and ?ms = "concat (map provides (mined_included outcome))"
  obtain rs s1 where rb: "remove_both ?hs (inner pool) = (rs, s1)" by fastforce
  note rm = remove_both_ok [OF inv rb]
  then have i1: "pool_inv s1" by simp
  have "queue_wf [] s1" by (simp add: queue_wf_def)
  from prune_each_ok [OF ord i1 this, of ?ms] obtain im pd s2
    where pe: "prune_each order ?ms s1 = Some (im, pd, s2)" and post: "prune_post ?ms [] s1 im pd s2" by blast
  have "pool_inv s2" "queue_wf im s2" using post by (simp_all add: prune_post_def)
  from import_each_ok [OF ord this] obtain prom failed s3
    where ie: "import_each order im s2 = Some (prom, failed, s3)"
      and sub: "\<And>h t. in_pool [] s3 h t \<Longrightarrow> in_pool im s2 h t" by blast
  have s3: "inner pool' = s3"
    using res rb pe ie by (auto simp: on_mined_block_def remove_invalid_def inner_remove_invalid_def
        prune_markers_def inner_prune_markers_def)
  have held: "in_pool [] s3 h t \<Longrightarrow> in_pool [] s1 h t \<and> h \<notin> tx_hash ` set pd" for h t
    using sub [of h t] post by (simp add: prune_post_def)
  have contains: "inner_contains s h \<longleftrightarrow> (\<exists>t. in_pool [] s h t)" for s h
    by (auto simp: inner_contains_def pending_contains_def ready_contains_def hm_contains_def in_pool_def
        ready_txs_def txs_of_def waiting_tx_def)
  have pruned: "h \<in> tx_hash ` set pd \<or> ready_txs (ready_transactions s1) h = None"
    if t: "ready_txs (ready_transactions (inner pool)) h = Some t" and "inc \<in> set (mined_included outcome)"
      "set (provides t) \<inter> set (provides inc) \<noteq> {}" for h t inc
  proof (cases "ready_txs (ready_transactions s1) h")
    case (Some t')
    with rm have "in_pool [] (inner pool) h t'" by (auto simp: in_pool_def)
    with t inv have "t' = t" by (auto simp: in_pool_def pool_inv_def)
    moreover have "set (provides t) \<inter> set ?ms \<noteq> {}" using that by auto
    ultimately show ?thesis using Some post unfolding prune_post_def by blast
  qed simp
  show ?thesis
  proof (intro conjI allI impI ballI)
    fix h t assume "in_pool [] (inner pool') h t"
    then show "in_pool [] (inner pool) h t" using held rm s3 by blast
  next
    fix h t inc
    assume a: "ready_txs (ready_transactions (inner pool)) h = Some t \<and> inc \<in> set (mined_included outcome) \<and>
       set (provides t) \<inter> set (provides inc) \<noteq> {}"
    have "waiting_tx (pending_transactions (inner pool)) h = None"
      using a inv by (cases "waiting_tx (pending_transactions (inner pool)) h") (auto simp: pool_inv_def)
    then have "waiting_tx (pending_transactions s1) h = None"
      using rm map_le_implies_dom_le [of "waiting_tx (pending_transactions s1)"] by blast
    then have "h \<in> tx_hash ` set pd \<or> (\<forall>x. \<not> in_pool [] s1 h x)"
      using pruned [of h t inc] a by (auto simp: in_pool_def)
    with held show "\<not> inner_contains (inner pool') h" unfolding contains s3 by blast
  next
    fix t assume "t \<in> set (mined_invalid outcome)"
    then have "\<not> inner_contains s1 (tx_hash t)" using rm by simp
    with held show "\<not> inner_contains (inner pool') (tx_hash t)" unfolding contains s3 by blast
  qed
qed

theorem mined_block_prunes_witness:
  "\<exists>s r pool'. inner_add_transaction insertion_order (sample_tx 1 5 [] [[1]]) empty_inner = Some s \<and>
     on_mined_block insertion_order
       \<lparr>mined_block_number = 1, mined_included = [sample_tx 1 5 [] [[1]]], mined_invalid = [sample_tx 2 5 [] [[3]]]\<rparr>
       \<lparr>inner = snd s, transaction_listener = [()]\<rparr> = Some (r, pool') \<and>
     \<not> inner_contains (inner pool') 1 \<and> \<not> inner_contains (inner pool') 2"
proof -
  let ?tx = "sample_tx 1 5 [] [[1]]"
  let ?a = "inner_add_transaction insertion_order ?tx empty_inner"
  let ?pool = "\<lparr>inner = snd (the ?a), transaction_listener = [()]\<rparr>"
  let ?o = "\<lparr>mined_block_number = 1, mined_included = [?tx], mined_invalid = [sample_tx 2 5 [] [[3]]]\<rparr>"
  have a: "?a \<noteq> None" by code_simp
  then have inv: "pool_inv (inner ?pool)"
    using pool_inv_sample [OF _ _ _ pool_inv_empty] by fastforce
  have "on_mined_block insertion_order ?o ?pool \<noteq> None" by code_simp
  then obtain r pool' where res: "on_mined_block insertion_order ?o ?pool = Some (r, pool')" by auto
  have "map_option r_tx (hm_get (ready_tx (ready_transactions (inner ?pool))) 1) = Some ?tx" by code_simp
  then have "ready_txs (ready_transactions (inner ?pool)) 1 = Some ?tx" by (simp add: ready_txs_def txs_of_def)
  moreover have "tx_hash (sample_tx 2 5 [] [[3]]) = 2" and "set (provides ?tx) \<inter> set (provides ?tx) \<noteq> {}"
    by (simp_all add: sample_tx_def tx_hash_def)
  ultimately have "\<not> inner_contains (inner pool') 1 \<and> \<not> inner_contains (inner pool') 2"
    using mined_block_prunes [OF insertion.hash_order_axioms inv res] by force
  with res a show ?thesis by (intro exI [of _ "the ?a"] exI [of _ r] exI [of _ pool']) auto
qed

section \<open>Replacing and dropping\<close>

lemma distinct_single: "distinct xs \<Longrightarrow> set xs = {x} \<Longrightarrow> xs = [x]"
proof (cases xs)
  case (Cons y ys)
  assume "distinct xs" "set xs = {x}"
  with Cons have "y = x" "set ys \<subseteq> {x}" "x \<notin> set ys" by auto
  then have "set ys = {}" by (metis empty_iff insertI1 subset_singletonD)
  with Cons \<open>y = x\<close> show ?thesis by simp
qed simp

lemma replaced_same_markers:
  assumes ord: "hash_order order" and inv: "ready_inv s" and r: "hm_get (ready_tx s) h = Some r"
    and same: "provides tx = provides (r_tx r)" "provides tx \<noteq> []"
    and price: "tx_gas_price (r_tx r) < tx_gas_price tx"
  shows "replaced_transactions order tx s =
    (Inr ([r_tx r], unlocks r), remove_entry (Some (hs_from (provides tx))) h r s)"
proof -
  have marks: "marks_ok {} s" using inv by (simp add: ready_inv_def)
  have prov: "hm_get (provided_markers s) m = Some h" if "m \<in> set (provides tx)" for m
    using marks_ok_provided [OF marks ready_txs_Some [OF r]] that same(1) by simp
  have "hs_from (List.map_filter (hm_get (provided_markers s)) (provides tx)) = [h]"
  proof -
    let ?xs = "List.map_filter (hm_get (provided_markers s)) (provides tx)"
    have "set ?xs = {h}" using prov hd_in_set [OF same(2)] by (auto simp: set_map_filter)
    then have "set (hs_from ?xs) = {h}" by simp
    then show ?thesis by (intro distinct_single) simp_all
  qed
  then have hs: "order (hs_from (List.map_filter (hm_get (provided_markers s)) (provides tx))) = [h]"
    by (simp add: order_single [OF ord])
  have inval: "invalidated (Some (hs_from (provides tx))) (r_tx r) = []"
    using same(1) by (simp add: invalidated_def filter_empty_conv)
  show ?thesis
    using hs r inval price
    by (simp add: replaced_transactions_def Let_def List.map_filter_def remove_with_markers_def
        r_gas_price_def not_le split: prod.splits)
qed

text \<open>C27. A transaction that provides the same markers as a ready one and pays a higher gas price
  takes its place: the old transaction is the only one removed, nothing else is promoted or
  discarded, and what the old one had to unlock is now unlocked by the new one.\<close>

theorem replacement_takes_place:
  assumes ord: "hash_order order" and inv: "pool_inv s" and wf: "wf_tx tx"
    and new: "\<not> inner_contains s (tx_hash tx)"
    and r: "hm_get (ready_tx (ready_transactions s)) h = Some r"
    and same: "provides tx = provides (r_tx r)" "provides tx \<noteq> []"
    and price: "tx_gas_price (r_tx r) < tx_gas_price tx"
    and req: "set (requires tx) \<subseteq> dom (hm_get (provided_markers (ready_transactions s)))"
  shows "\<exists>s' r'. inner_add_transaction order tx s =
      Some (Inr (Ready \<lparr>info_hash = tx_hash tx, promoted = [], discarded = [], removed = [r_tx r]\<rparr>), s') \<and>
    hm_get (ready_tx (ready_transactions s')) (tx_hash tx) = Some r' \<and> r_tx r' = tx \<and> unlocks r' = unlocks r \<and>
    hm_get (ready_tx (ready_transactions s')) h = None \<and>
    pending_transactions s' = pending_transactions s"
proof -
  let ?R = "ready_transactions s" and ?P = "pending_transactions s"
  let ?p = "new_PendingPoolTransaction tx (provided_markers ?R)"
  let ?f = "Some (hs_from (provides tx))"
  let ?R1 = "remove_entry ?f h r ?R"
  have ri: "ready_inv ?R" using inv by (simp add: pool_inv_def)
  have marks: "marks_ok {} ?R" using ri by (simp add: ready_inv_def)
  note t = ready_txs_Some [OF r]
  have prov: "hm_get (provided_markers ?R) m = Some h" if "m \<in> set (provides tx)" for m
    using marks_ok_provided [OF marks t] that same(1) by simp
  have p: "?p = \<lparr>p_transaction = tx, missing_markers = []\<rparr>"
    using req by (auto simp: new_PendingPoolTransaction_def hm_contains_def hs_from_def filter_empty_conv
        subset_iff dom_def)
  have q: "queue_wf [?p] s"
    using new wf p by (auto simp: queue_wf_def is_ready_def inner_contains_def pending_contains_def
        ready_contains_def hm_contains_def ready_txs_None waiting_tx_def)
  have mk: "mark_and_unlock order (provides tx) ?P = Some ([], ?P)"
    by (rule mark_and_unlock_none) (use inv prov in \<open>auto simp: pool_inv_def\<close>)
  note rep = replaced_same_markers [OF ord ri r same price]
  obtain x rdy where add: "ready_add_transaction order ?p ?R = Some (x, rdy)" and ri': "ready_inv rdy"
    using ready_add_transaction_ok [OF ord ri, of ?p] q by (auto simp: queue_wf_def)
  have nc: "\<not> hm_contains (ready_tx ?R) (tx_hash tx)"
    using new by (simp add: inner_contains_def ready_contains_def)
  obtain indep offset ready where link: "link_requires (tx_hash tx) (provided_markers ?R1) (requires tx) (ready_tx ?R1) =
      Some (indep, offset, ready)"
    using add p nc rep
    by (cases "link_requires (tx_hash tx) (provided_markers ?R1) (requires tx) (ready_tx ?R1)")
      (auto simp: ready_add_transaction_def next_id_def is_ready_def Let_def)
  have x: "x = Inr [r_tx r]" and rdy: "ready_tx rdy = hm_insert (tx_hash tx)
      \<lparr>r_transaction = \<lparr>ref_transaction = tx, ref_id = ready_id ?R1\<rparr>, unlocks = unlocks r, requires_offset = offset\<rparr> ready"
    using add p nc rep link by (auto simp: ready_add_transaction_def next_id_def is_ready_def Let_def)
  have "h \<noteq> tx_hash tx" using nc r by (auto simp: hm_contains_def)
  moreover have "txs_of ready h = None"
    using txs_link_requires [OF link] ready_txs_remove_entry [of ?f h r ?R] by (simp add: ready_txs_def)
  ultimately have gone: "hm_get (ready_tx rdy) h = None"
    using rdy by (simp add: txs_of_def cont_simps)
  have th: "tx_hash (r_tx r) \<noteq> tx_hash tx" using \<open>h \<noteq> tx_hash tx\<close> marks_ok_tx [OF marks t] by simp
  have "inner_add_transaction order tx s =
      Some (Inr (Ready \<lparr>info_hash = tx_hash tx, promoted = [], discarded = [], removed = [r_tx r]\<rparr>),
        \<lparr>ready_transactions = rdy, pending_transactions = ?P\<rparr>)"
    using new p mk add x th
    by (simp add: inner_add_transaction_def Let_def is_ready_def add_ready_transaction_def
        add_ready_loop.simps new_ReadyInfo_def)
  then show ?thesis using rdy gone by (auto simp: cont_simps)
qed

theorem replacement_takes_place_witness:
  "\<exists>s s' r'. inner_add_transaction insertion_order (sample_tx 1 5 [] [[1]]) empty_inner = Some s \<and>
     inner_add_transaction insertion_order (sample_tx 2 6 [] [[1]]) (snd s) =
       Some (Inr (Ready \<lparr>info_hash = 2, promoted = [], discarded = [], removed = [sample_tx 1 5 [] [[1]]]\<rparr>), s') \<and>
     hm_get (ready_tx (ready_transactions s')) 2 = Some r' \<and> r_tx r' = sample_tx 2 6 [] [[1]]"
proof -
  let ?old = "sample_tx 1 5 [] [[1]]" and ?new = "sample_tx 2 6 [] [[1]]"
  let ?a = "inner_add_transaction insertion_order ?old empty_inner"
  let ?s = "snd (the ?a)"
  let ?r = "the (hm_get (ready_tx (ready_transactions ?s)) 1)"
  have a: "?a \<noteq> None" by code_simp
  then have inv: "pool_inv ?s" using pool_inv_sample [OF _ _ _ pool_inv_empty] by fastforce
  have new: "\<not> inner_contains ?s (tx_hash ?new)" by code_simp
  have "hm_get (ready_tx (ready_transactions ?s)) 1 \<noteq> None \<and> r_tx ?r = ?old" by code_simp
  then have r: "hm_get (ready_tx (ready_transactions ?s)) 1 = Some ?r" and old: "r_tx ?r = ?old" by auto
  have h: "tx_hash ?new = 2" by (simp add: sample_tx_def tx_hash_def)
  have "\<exists>s' r'. inner_add_transaction insertion_order ?new ?s =
      Some (Inr (Ready \<lparr>info_hash = tx_hash ?new, promoted = [], discarded = [], removed = [r_tx ?r]\<rparr>), s') \<and>
    hm_get (ready_tx (ready_transactions s')) (tx_hash ?new) = Some r' \<and> r_tx r' = ?new \<and> unlocks r' = unlocks ?r \<and>
    hm_get (ready_tx (ready_transactions s')) 1 = None \<and>
    pending_transactions s' = pending_transactions ?s"
    by (rule replacement_takes_place [OF insertion.hash_order_axioms inv wf_sample new r])
      (simp_all add: old, simp_all add: sample_tx_def tx_gas_price_def)
  with old h a show ?thesis by (intro exI [of _ "the ?a"]) auto
qed

text \<open>Dropping a transaction returns it exactly when it was ready, takes it out of the ready
  transactions and leaves the waiting ones alone; every other transaction that leaves the pool was
  ready, too, and the pool stays consistent.\<close>

theorem drop_transaction_exact:
  assumes inv: "pool_inv (inner pool)" and res: "drop_transaction h pool = (d, pool')"
  shows "d = ready_txs (ready_transactions (inner pool)) h \<and>
    ready_txs (ready_transactions (inner pool')) h = None \<and>
    ready_txs (ready_transactions (inner pool')) \<subseteq>\<^sub>m ready_txs (ready_transactions (inner pool)) \<and>
    pending_transactions (inner pool') = pending_transactions (inner pool) \<and> pool_inv (inner pool')"
proof -
  let ?R = "ready_transactions (inner pool)"
  obtain rs rdy where rm: "remove_with_markers [h] None ?R = (rs, rdy)" by fastforce
  have d: "d = find (\<lambda>t. tx_hash t = h) rs"
    and pool': "inner pool' = (inner pool)\<lparr>ready_transactions := rdy\<rparr>"
    using res rm by (auto simp: drop_transaction_def)
  have ri: "ready_inv rdy" "removes_to ?R rs rdy" "ready_txs rdy h = None"
    using remove_invalid_ok [OF _ rm] inv by (auto simp: pool_inv_def)
  have R': "ready_txs rdy = ready_txs ?R |` (- tx_hash ` set rs)" using ri(2) by (simp add: removes_to_def)
  have "d = ready_txs ?R h"
  proof (cases d)
    case None
    then have "h \<notin> tx_hash ` set rs" unfolding d by (auto simp: find_None_iff)
    with ri(3) have "ready_txs ?R h = None" unfolding R' by (simp add: restrict_map_def)
    with None show ?thesis by simp
  next
    case (Some t)
    then have "t \<in> set rs" "tx_hash t = h" unfolding d by (auto simp: find_Some_iff)
    with ri(2) Some show ?thesis by (auto simp: removes_to_def)
  qed
  moreover have "ready_txs rdy \<subseteq>\<^sub>m ready_txs ?R"
    unfolding R' by (auto simp: map_le_def restrict_map_def split: if_splits)
  ultimately show ?thesis
    using pool' ri ready_removal_inv [OF inv ri(1,2)] by simp
qed

theorem drop_transaction_exact_witness:
  "\<exists>s pool'. inner_add_transaction insertion_order (sample_tx 1 5 [] [[1]]) empty_inner = Some s \<and>
     drop_transaction 1 \<lparr>inner = snd s, transaction_listener = [()]\<rparr> = (Some (sample_tx 1 5 [] [[1]]), pool') \<and>
     ready_txs (ready_transactions (inner pool')) 1 = None"
proof -
  let ?a = "inner_add_transaction insertion_order (sample_tx 1 5 [] [[1]]) empty_inner"
  let ?pool = "\<lparr>inner = snd (the ?a), transaction_listener = [()]\<rparr>"
  have a: "?a \<noteq> None" by code_simp
  then have inv: "pool_inv (inner ?pool)" using pool_inv_sample [OF _ _ _ pool_inv_empty] by fastforce
  have "map_option r_tx (hm_get (ready_tx (ready_transactions (inner ?pool))) 1) = Some (sample_tx 1 5 [] [[1]])"
    by code_simp
  then have t: "ready_txs (ready_transactions (inner ?pool)) 1 = Some (sample_tx 1 5 [] [[1]])"
    by (simp add: ready_txs_def txs_of_def)
  obtain d pool' where res: "drop_transaction 1 ?pool = (d, pool')" by fastforce
  from drop_transaction_exact [OF inv res] t have "d = Some (sample_tx 1 5 [] [[1]])"
    "ready_txs (ready_transactions (inner pool')) 1 = None" by auto
  with res a show ?thesis by (intro exI [of _ "the ?a"] exI [of _ pool']) auto
qed

lemma remove_loop_keeps:
  "entries_ok nonce_of (ready_tx s) \<Longrightarrow> \<forall>h\<in>set hs. nonce_of h0 < nonce_of h \<Longrightarrow>
   remove_loop f hs s = (rs, s') \<Longrightarrow> hm_get (ready_tx s') h0 = hm_get (ready_tx s) h0"
proof (induction f hs s arbitrary: rs rule: remove_loop.induct)
  case (1 f s)
  then show ?case by simp
next
  case (2 f h hs s)
  show ?case
  proof (cases "hm_get (ready_tx s) h")
    case None
    with "2.IH"(1) "2.prems" show ?thesis by simp
  next
    case (Some r)
    let ?hs = "(if invalidated f (r_tx r) \<noteq> [] then rev (unlocks r) else []) @ hs"
    let ?s = "remove_entry f h r s"
    obtain rs' where loop: "remove_loop f ?hs ?s = (rs', s')"
      using "2.prems"(3) Some by (auto simp: Let_def split: prod.splits)
    have eq: "ready_tx ?s = hm_remove h (ready_tx s)" by (rule ready_remove_entry [OF "2.prems"(1)])
    have "\<forall>x\<in>set ?hs. nonce_of h0 < nonce_of x"
      using "2.prems"(2) entries_ok_link [OF "2.prems"(1) Some] by fastforce
    with "2.IH"(2) [OF Some refl] loop entries_ok_remove [OF "2.prems"(1)] eq
    have "hm_get (ready_tx s') h0 = hm_get (ready_tx ?s) h0" by simp
    moreover have "h0 \<noteq> h" using "2.prems"(2) by auto
    ultimately show ?thesis by (simp add: eq cont_simps)
  qed
qed

text \<open>Dropping a transaction leaves the one that unlocks it untouched, its list of unlocked
  transactions included: the dropped hash stays on that list, although the removal has a step that
  is meant to take it off.\<close>

theorem drop_leaves_stale_link:
  assumes rpc: "rpc_pool nonce_of n pool"
    and r0: "hm_get (ready_tx (ready_transactions (inner pool))) h0 = Some r0" and h: "h \<in> set (unlocks r0)"
  shows "hm_get (ready_tx (ready_transactions (inner (snd (drop_transaction h pool))))) h0 = Some r0 \<and>
    ready_txs (ready_transactions (inner (snd (drop_transaction h pool)))) h = None"
proof -
  let ?R = "ready_transactions (inner pool)"
  obtain rs rdy where rm: "remove_with_markers [h] None ?R = (rs, rdy)" by fastforce
  have inv: "ready_inv ?R" and ok: "entries_ok nonce_of (ready_tx ?R)"
    using rpc by (auto simp: rpc_pool_def rpc_at_def pool_inv_def links_at_def)
  have "hm_get (ready_tx rdy) h0 = hm_get (ready_tx ?R) h0"
    using rm entries_ok_link [OF ok r0 h] unfolding remove_with_markers_def
    by (intro remove_loop_keeps [OF ok, of "rev [h]"]) auto
  with remove_invalid_ok [OF inv rm] rm r0 show ?thesis by (simp add: drop_transaction_def)
qed

definition sample_rpc :: "u64 \<Rightarrow> TxHash \<Rightarrow> PoolTransaction" where
  "sample_rpc n h = api_pool_transaction Fees 0 \<lparr>transaction = legacy_tx n 5, sender = 7, pending_hash = h\<rparr>"

theorem drop_leaves_stale_link_witness:
  "\<exists>xs pool r0. run (pool_step always_sent insertion_order)
      [AddTransaction (sample_rpc 0 1), AddTransaction (sample_rpc 1 2)] empty_pool = Some (xs, pool) \<and>
     2 \<in> set (unlocks r0) \<and>
     hm_get (ready_tx (ready_transactions (inner (snd (drop_transaction 2 pool))))) 1 = Some r0 \<and>
     ready_txs (ready_transactions (inner (snd (drop_transaction 2 pool)))) 2 = None"
proof -
  let ?nonce = "\<lambda>h :: TxHash. if h = 1 then 0 else 1 :: nat"
  let ?calls = "[AddTransaction (sample_rpc 0 1), AddTransaction (sample_rpc 1 2)]"
  let ?run = "run (pool_step always_sent insertion_order) ?calls empty_pool"
  let ?pool = "snd (the ?run)"
  have "rpc_tx ?nonce (sample_rpc 0 1)" "rpc_tx ?nonce (sample_rpc 1 2)"
    unfolding sample_rpc_def by (rule rpc_tx_api; simp)+
  then have "list_all (rpc_call insertion_order ?nonce) ?calls"
    by (simp add: rpc_call_def insertion.hash_order_axioms)
  from rpc_machine.run_counted [OF rpc_pool_empty this, where try_send = always_sent]
  obtain xs where run: "?run = Some (xs, ?pool)" and rpc: "rpc_pool ?nonce (length ?calls) ?pool"
    by auto
  let ?r0 = "the (hm_get (ready_tx (ready_transactions (inner ?pool))) 1)"
  have "hm_get (ready_tx (ready_transactions (inner ?pool))) 1 \<noteq> None \<and> unlocks ?r0 = [2]" by code_simp
  then have "hm_get (ready_tx (ready_transactions (inner ?pool))) 1 = Some ?r0" "2 \<in> set (unlocks ?r0)" by auto
  with drop_leaves_stale_link [OF rpc this] run show ?thesis by blast
qed

end
