(* ===== verification/Anvil_Miner.thy ===== *)
theory Anvil_Miner
  imports Anvil_Reach Pool_Safety
begin

text \<open>
  The miner, which picks the transactions of the next block (\<open>crates/anvil/src/eth/miner.rs\<close>), and the
  service that drives a node (\<open>crates/anvil/src/service.rs\<close>): it polls the producer of blocks and the miner in
  turn, hands the transactions to the backend and prunes the pool by what was mined.

  Futures are polled by the runtime, so what a poll finds is an argument: whether the interval has
  ticked, and whether the task that mines has finished. The effect of a mining task on the backend is
  taken at the moment it is seen to have finished. The lemmas show that a miner offers the best ready
  transactions, that every turn of the service keeps the pool and the chain sound, and that a full batch
  is queued again for as long as it is not mined.
\<close>

section \<open>The miner\<close>

datatype 'a Poll = PollReady 'a | PollPending

text \<open>\<open>take\<close> on the iterator of the pool, which asks for no more than it returns.\<close>

fun iter_take :: "nat \<Rightarrow> TransactionsIterator \<Rightarrow> PoolTransaction list" where
  "iter_take 0 it = []"
| "iter_take (Suc n) it = (case iter_next it of None \<Rightarrow> [] | Some (tx, it') \<Rightarrow> tx # iter_take n it')"

record ReadyTransactionMiner =
  max_transactions :: nat
  has_pending_txs :: "bool option"
  rx :: "TxHash list"

definition ready_miner_poll ::
    "'l Pool \<Rightarrow> ReadyTransactionMiner \<Rightarrow> PoolTransaction list Poll \<times> ReadyTransactionMiner" where
  "ready_miner_poll pool m =
     (let m1 = foldl (\<lambda>m _. m\<lparr>has_pending_txs := Some True\<rparr>) (m\<lparr>rx := []\<rparr>) (rx m)
      in if has_pending_txs m1 = Some False then (PollPending, m1)
         else let txs = iter_take (max_transactions m1) (get_transactions (ready_transactions (Anvil_Pool.inner pool)));
                  m2 = m1\<lparr>has_pending_txs := Some (max_transactions m1 \<le> length txs)\<rparr>
              in if txs = [] then (PollPending, m2) else (PollReady txs, m2))"

definition fixed_miner_poll :: "bool \<Rightarrow> 'l Pool \<Rightarrow> PoolTransaction list Poll option" where
  "fixed_miner_poll tick pool =
     (if tick then map_option PollReady (drain (get_transactions (ready_transactions (Anvil_Pool.inner pool))))
      else Some PollPending)"

datatype MiningMode = NoMining | Auto ReadyTransactionMiner | FixedBlockTime | Mixed ReadyTransactionMiner

definition push_unique :: "PoolTransaction list \<Rightarrow> PoolTransaction \<Rightarrow> PoolTransaction list" where
  "push_unique txs tx = (if \<exists>t\<in>set txs. tx_hash t = tx_hash tx then txs else txs @ [tx])"

definition mode_poll :: "bool \<Rightarrow> 'l Pool \<Rightarrow> MiningMode \<Rightarrow> (PoolTransaction list Poll \<times> MiningMode) option" where
  "mode_poll tick pool mode =
     (case mode of
        NoMining \<Rightarrow> Some (PollPending, mode)
      | Auto m \<Rightarrow> (let (r, m') = ready_miner_poll pool m in Some (r, Auto m'))
      | FixedBlockTime \<Rightarrow> map_option (\<lambda>r. (r, mode)) (fixed_miner_poll tick pool)
      | Mixed m \<Rightarrow>
          (let (auto_txs, m') = ready_miner_poll pool m
           in do {
             fixed_txs \<leftarrow> fixed_miner_poll tick pool;
             Some (case (auto_txs, fixed_txs) of
                 (PollReady a, PollReady f) \<Rightarrow> PollReady (foldl push_unique a f)
               | (PollReady a, PollPending) \<Rightarrow> PollReady a
               | (PollPending, f) \<Rightarrow> f, Mixed m')
           }))"

record Miner =
  miner_mode :: MiningMode
  force_transactions :: "PoolTransaction list option"

definition miner_poll :: "bool \<Rightarrow> 'l Pool \<Rightarrow> Miner \<Rightarrow> (PoolTransaction list Poll \<times> Miner) option" where
  "miner_poll tick pool m =
     do {
       (r, mode) \<leftarrow> mode_poll tick pool (miner_mode m);
       Some (case r of
           PollPending \<Rightarrow> (PollPending, m\<lparr>miner_mode := mode\<rparr>)
         | PollReady next_txs \<Rightarrow>
             (case force_transactions m of
                Some forced \<Rightarrow> (PollReady (forced @ next_txs), m\<lparr>miner_mode := mode, force_transactions := None\<rparr>)
              | None \<Rightarrow> (PollReady next_txs, m\<lparr>miner_mode := mode\<rparr>)))
     }"

section \<open>The service\<close>

record ('c, 'n, 'f) BlockProducer =
  idle_backend :: "('c, 'n, 'f) Backend option"
  block_mining :: "(PoolTransaction list \<times> ('c, 'n, 'f) Backend) option"
  queued :: "PoolTransaction list list"

text \<open>What one turn of the loop finds: whether the mining task has finished and whether the interval
  has ticked; and the random number and the time of the block if one is finished.\<close>

record turn =
  finished :: bool
  ticked :: bool
  turn_random :: B256
  turn_now :: u64

definition producer_poll ::
    "('c, 'n, 'd, 'r, 'b, 'e) node_params \<Rightarrow> turn \<Rightarrow> ('c, 'n, 'f) BlockProducer \<Rightarrow>
     (MinedBlockOutcome Poll \<times> ('c, 'n, 'f) BlockProducer) option" where
  "producer_poll np t p =
     (let p1 = (case (queued p, idle_backend p) of
            (txs # rest, Some b) \<Rightarrow> p\<lparr>queued := rest, idle_backend := None, block_mining := Some (txs, b)\<rparr>
          | _ \<Rightarrow> p)
      in case block_mining p1 of
           None \<Rightarrow> Some (PollPending, p1)
         | Some (txs, b) \<Rightarrow>
             (if finished t
              then do {
                (outcome, b') \<leftarrow> do_mine_block np (turn_random t) (turn_now t) txs b;
                Some (PollReady outcome, p1\<lparr>block_mining := None, idle_backend := Some b'\<rparr>)
              }
              else Some (PollPending, p1)))"

record ('c, 'n, 'f, 'l) NodeService =
  sv_pool :: "'l Pool"
  block_producer :: "('c, 'n, 'f) BlockProducer"
  sv_miner :: Miner

text \<open>One turn of the loop, and whether the loop goes on. A mined block sends the loop back to
  the producer, a new batch to its start.\<close>

definition service_turn ::
    "('c, 'n, 'd, 'r, 'b, 'e) node_params \<Rightarrow> (TxHash list \<Rightarrow> TxHash list) \<Rightarrow> turn \<Rightarrow> ('c, 'n, 'f, 'l) NodeService \<Rightarrow>
     (bool \<times> ('c, 'n, 'f, 'l) NodeService) option" where
  "service_turn np order t sv =
     do {
       (mined, p) \<leftarrow> producer_poll np t (block_producer sv);
       case mined of
         PollReady outcome \<Rightarrow>
           do {
             (_, pool') \<leftarrow> on_mined_block order outcome (sv_pool sv);
             Some (True, sv\<lparr>block_producer := p, sv_pool := pool'\<rparr>)
           }
       | PollPending \<Rightarrow>
           do {
             (batch, m) \<leftarrow> miner_poll (ticked t) (sv_pool sv) (sv_miner sv);
             Some (case batch of
                 PollReady txs \<Rightarrow> (True, sv\<lparr>block_producer := p\<lparr>queued := queued p @ [txs]\<rparr>, sv_miner := m\<rparr>)
               | PollPending \<Rightarrow> (False, sv\<lparr>block_producer := p, sv_miner := m\<rparr>))
           }
     }"

text \<open>The turns of one poll, as far as they are given: \<open>False\<close> when the poll has come to its end.\<close>

fun service_loop ::
    "('c, 'n, 'd, 'r, 'b, 'e) node_params \<Rightarrow> (TxHash list \<Rightarrow> TxHash list) \<Rightarrow> turn list \<Rightarrow> ('c, 'n, 'f, 'l) NodeService \<Rightarrow>
     (bool \<times> ('c, 'n, 'f, 'l) NodeService) option" where
  "service_loop np order [] sv = Some (True, sv)"
| "service_loop np order (t # ts) sv =
     do {
       (go, sv') \<leftarrow> service_turn np order t sv;
       if go then service_loop np order ts sv' else Some (False, sv')
     }"

section \<open>What a miner offers\<close>

lemma iter_take_yields: "yields it txs \<Longrightarrow> iter_take n it = take n txs"
proof (induction arbitrary: n rule: yields.induct)
  case (stop it)
  then show ?case by (cases n) simp_all
next
  case (step it tx it' txs)
  then show ?case by (cases n) simp_all
qed

lemma iter_take_drain: "drain it = Some txs \<Longrightarrow> iter_take n it = take n txs"
  by (rule iter_take_yields [OF drain_yields])

lemma push_unique_hashes: "tx_hash ` set (push_unique a tx) = insert (tx_hash tx) (tx_hash ` set a)"
  by (auto simp: push_unique_def) (metis imageI)

lemma push_all:
  "\<exists>zs. foldl push_unique a f = a @ zs \<and> set zs \<subseteq> set f \<and> tx_hash ` set (a @ zs) = tx_hash ` (set a \<union> set f)"
proof (induction f rule: rev_induct)
  case (snoc tx f)
  then obtain zs where zs: "foldl push_unique a f = a @ zs" "set zs \<subseteq> set f"
    "tx_hash ` set (a @ zs) = tx_hash ` (set a \<union> set f)" by blast
  obtain ws where ws: "push_unique (a @ zs) tx = a @ ws" "set ws \<subseteq> insert tx (set zs)"
    by (cases "\<exists>t\<in>set (a @ zs). tx_hash t = tx_hash tx") (auto simp: push_unique_def)
  have "tx_hash ` set (a @ ws) = insert (tx_hash tx) (tx_hash ` (set a \<union> set f))"
    using push_unique_hashes [of "a @ zs" tx] unfolding ws(1) zs(3) .
  with zs(1,2) ws show ?case by (intro exI [of _ ws]) auto
qed simp

lemma notified: "foldl (\<lambda>m _. m\<lparr>has_pending_txs := Some True\<rparr>) (m\<lparr>rx := []\<rparr>) hs =
    (if hs = [] then m\<lparr>rx := []\<rparr> else m\<lparr>rx := [], has_pending_txs := Some True\<rparr>)"
  by (induction hs arbitrary: m rule: rev_induct) simp_all

lemma ready_miner_poll_eq:
  assumes "drain (get_transactions (ready_transactions (Anvil_Pool.inner pool))) = Some txs"
  shows "ready_miner_poll pool m =
    (let h = (if rx m = [] then has_pending_txs m else Some True)
     in if h = Some False then (PollPending, m\<lparr>rx := [], has_pending_txs := h\<rparr>)
        else if take (max_transactions m) txs = []
        then (PollPending, m\<lparr>rx := [], has_pending_txs := Some (max_transactions m \<le> 0)\<rparr>)
        else (PollReady (take (max_transactions m) txs),
              m\<lparr>rx := [], has_pending_txs := Some (max_transactions m \<le> length txs)\<rparr>))"
  unfolding ready_miner_poll_def notified iter_take_drain [OF assms]
  by (cases "rx m = []"; cases "max_transactions m = 0"; cases "txs = []") (simp_all add: Let_def)

text \<open>A pool with one ready transaction.\<close>

definition sample_pool :: "unit Pool option" where
  "sample_pool = map_option snd (run (pool_step always_sent insertion_order) [AddTransaction (sample_rpc 0 1)] empty_pool)"

lemma sample_rpc_ok: "rpc_call insertion_order (\<lambda>_. 0) (AddTransaction (sample_rpc 0 1) :: unit pool_call)"
proof -
  have "rpc_tx (\<lambda>_. 0) (sample_rpc 0 1)" unfolding sample_rpc_def by (rule rpc_tx_api) simp
  then show ?thesis by (simp add: rpc_call_def insertion.hash_order_axioms)
qed

lemma sample_pool_parts:
  obtains pool tx where "sample_pool = Some pool" "rpc_pool (\<lambda>_. 0) 1 pool"
    "drain (get_transactions (ready_transactions (Anvil_Pool.inner pool))) = Some [tx]"
proof -
  have "map_option (\<lambda>p. length (iter_take 2 (get_transactions (ready_transactions (Anvil_Pool.inner p))))) sample_pool = Some 1"
    by code_simp
  then obtain pool where pool: "sample_pool = Some pool"
    and one: "length (iter_take 2 (get_transactions (ready_transactions (Anvil_Pool.inner pool)))) = 1" by auto
  have rpc: "rpc_pool (\<lambda>_. 0) 1 pool"
    using pool rpc_pool_step [OF rpc_pool_empty sample_rpc_ok, of always_sent]
    by (auto simp: sample_pool_def simp del: pool_step.simps split: option.splits)
  then obtain txs where d: "drain (get_transactions (ready_transactions (Anvil_Pool.inner pool))) = Some txs"
    using rpc_drain unfolding rpc_pool_def by blast
  with one have "length txs = 1" by (simp add: iter_take_drain min_def split: if_splits)
  then obtain tx where "txs = [tx]" by (auto simp: length_Suc_conv)
  with pool rpc d that show ?thesis by blast
qed



section \<open>A full batch is queued again\<close>

text \<open>C20. While a block is being mined the service does not wait: if the pool holds at least as many ready
  transactions as the automatic miner puts into a block, every turn queues the same batch
  again, and the loop goes on.\<close>

theorem full_batch_queued_again:
  assumes "block_mining (block_producer sv) = Some job" and "idle_backend (block_producer sv) = None"
    and "sv_miner sv = \<lparr>miner_mode = Auto \<lparr>max_transactions = k, has_pending_txs = Some True, rx = []\<rparr>, force_transactions = None\<rparr>"
    and "drain (get_transactions (ready_transactions (Anvil_Pool.inner (sv_pool sv)))) = Some txs"
    and "0 < k" and "k \<le> length txs" and "\<not> finished t"
  shows "service_loop np order (replicate n t) sv =
    Some (True, sv\<lparr>block_producer := (block_producer sv)\<lparr>queued := queued (block_producer sv) @ replicate n (take k txs)\<rparr>\<rparr>)"
  using assms
proof (induction n arbitrary: sv)
  case (Suc n)
  let ?m = "\<lparr>max_transactions = k, has_pending_txs = Some True, rx = []\<rparr>"
  let ?sv = "sv\<lparr>block_producer := (block_producer sv)\<lparr>queued := queued (block_producer sv) @ [take k txs]\<rparr>\<rparr>"
  obtain js b where job: "job = (js, b)" by (cases job)
  have "ready_miner_poll (sv_pool sv) ?m = (PollReady (take k txs), ?m)"
    using Suc.prems(5,6) unfolding ready_miner_poll_eq [OF Suc.prems(4)] by (auto simp: Let_def)
  then have poll: "miner_poll (ticked t) (sv_pool sv) (sv_miner sv) = Some (PollReady (take k txs), sv_miner sv)"
    by (simp add: Suc.prems(3) miner_poll_def mode_poll_def)
  have "producer_poll np t (block_producer sv) = Some (PollPending, block_producer sv)"
    using Suc.prems(1,2,7) by (simp add: producer_poll_def job Let_def split: list.splits)
  then have "service_turn np order t sv = Some (True, ?sv)"
    by (simp add: service_turn_def poll)
  moreover have "service_loop np order (replicate n t) ?sv = Some (True, ?sv\<lparr>block_producer :=
      (block_producer ?sv)\<lparr>queued := queued (block_producer ?sv) @ replicate n (take k txs)\<rparr>\<rparr>)"
    by (rule Suc.IH) (use Suc.prems in simp_all)
  ultimately show ?case by (simp add: replicate_append_same)
qed simp

theorem full_batch_queued_again_witness:
  "\<exists>(sv :: (nat, unit, unit, unit) NodeService) sv' tx. queued (block_producer sv) = [] \<and>
     service_loop sample_node insertion_order
       (replicate 3 \<lparr>finished = False, ticked = False, turn_random = 0, turn_now = 0\<rparr>) sv = Some (True, sv') \<and>
     queued (block_producer sv') = [[tx], [tx], [tx]]"
proof -
  obtain pool tx where d: "drain (get_transactions (ready_transactions (Anvil_Pool.inner pool))) = Some [tx]"
    and p: "sample_pool = Some pool" by (rule sample_pool_parts)
  obtain b0 where "sample_start = Some (Inr b0)" by (rule sample_backends)
  let ?sv = "\<lparr>sv_pool = pool, block_producer = \<lparr>idle_backend = None, block_mining = Some ([tx], b0), queued = []\<rparr>,
    sv_miner = \<lparr>miner_mode = Auto \<lparr>max_transactions = 1, has_pending_txs = Some True, rx = []\<rparr>, force_transactions = None\<rparr>\<rparr>"
  let ?t = "\<lparr>finished = False, ticked = False, turn_random = 0, turn_now = 0\<rparr>"
  have "service_loop sample_node insertion_order (replicate 3 ?t) ?sv =
    Some (True, ?sv\<lparr>block_producer := (block_producer ?sv)\<lparr>queued := queued (block_producer ?sv) @ replicate 3 (take 1 [tx])\<rparr>\<rparr>)"
    by (rule full_batch_queued_again) (use d in simp_all)
  moreover have "queued (block_producer ?sv) = []" "queued (block_producer ?sv) @ replicate 3 (take 1 [tx]) = [[tx], [tx], [tx]]"
    by (simp_all add: numeral_3_eq_3)
  ultimately show ?thesis by (intro exI conjI) (assumption | simp)+
qed

section \<open>Pool and chain together\<close>

text \<open>Calls on the pool come in between the turns of the service.\<close>

datatype 'l node_event = PoolCall "'l pool_call" | Turn turn

definition node_step ::
    "('c, 'n, 'd, 'r, 'b, 'e) node_params \<Rightarrow> ('l \<Rightarrow> TxHash \<Rightarrow> SendOutcome \<times> 'l) \<Rightarrow> (TxHash list \<Rightarrow> TxHash list) \<Rightarrow>
     'l node_event \<Rightarrow> ('c, 'n, 'f, 'l) NodeService \<Rightarrow> (bool option \<times> ('c, 'n, 'f, 'l) NodeService) option" where
  "node_step np try_send order e sv =
     (case e of
        PoolCall c \<Rightarrow> map_option (\<lambda>(_, p). (None, sv\<lparr>sv_pool := p\<rparr>)) (pool_step try_send order c (sv_pool sv))
      | Turn t \<Rightarrow> map_option (\<lambda>(go, sv'). (Some go, sv')) (service_turn np order t sv))"

definition event_ok :: "(TxHash list \<Rightarrow> TxHash list) \<Rightarrow> (TxHash \<Rightarrow> nat) \<Rightarrow> 'l node_event \<Rightarrow> bool" where
  "event_ok order nonce_of e = (case e of PoolCall c \<Rightarrow> rpc_call order nonce_of c | Turn _ \<Rightarrow> True)"

text \<open>\<open>NodeService::new\<close>, for a node without filters and fee history.\<close>

definition new_NodeService :: "('c, 'n, 'f) Backend \<Rightarrow> Miner \<Rightarrow> ('c, 'n, 'f, 'l) NodeService" where
  "new_NodeService b m =
     \<lparr>sv_pool = empty_pool, block_producer = \<lparr>idle_backend = Some b, block_mining = None, queued = []\<rparr>, sv_miner = m\<rparr>"

text \<open>The backend is with the producer or with the one task that mines.\<close>

definition held_backend :: "('c, 'n, 'f) BlockProducer \<Rightarrow> ('c, 'n, 'f) Backend \<Rightarrow> bool" where
  "held_backend p b \<longleftrightarrow>
     (idle_backend p = Some b \<and> block_mining p = None) \<or> (idle_backend p = None \<and> (\<exists>txs. block_mining p = Some (txs, b)))"

definition node_sound ::
    "('c, 'n, 'd, 'r, 'b, 'e) node_params \<Rightarrow> (TxHash \<Rightarrow> nat) \<Rightarrow> nat \<Rightarrow> ('c, 'n, 'f, 'l) NodeService \<Rightarrow> bool" where
  "node_sound np nonce_of n sv \<longleftrightarrow>
     rpc_pool nonce_of n (sv_pool sv) \<and> (\<exists>b. held_backend (block_producer sv) b \<and> reachable_backend np b)"

lemma rpc_pool_mono: "rpc_pool nonce_of n pool \<Longrightarrow> rpc_pool nonce_of (Suc n) pool"
  unfolding rpc_pool_def using rpc_at_mono by simp

lemma producer_poll_held:
  assumes held: "held_backend p b" and reach: "reachable_backend np b" and arb: "\<And>i. \<not> np_arbitrum np i"
    and run: "producer_poll np t p = Some (r, p')"
  shows "\<exists>b'. held_backend p' b' \<and> reachable_backend np b'"
proof -
  define p1 where "p1 = (case (queued p, idle_backend p) of
      (txs # rest, Some b) \<Rightarrow> p\<lparr>queued := rest, idle_backend := None, block_mining := Some (txs, b)\<rparr> | _ \<Rightarrow> p)"
  have held1: "held_backend p1 b"
    using held by (auto simp: p1_def held_backend_def split: list.splits)
  from run consider "p' = p1" | txs b0 out b' where "block_mining p1 = Some (txs, b0)"
      "do_mine_block np (turn_random t) (turn_now t) txs b0 = Some (out, b')"
      "p' = p1\<lparr>block_mining := None, idle_backend := Some b'\<rparr>"
    unfolding producer_poll_def p1_def [symmetric] Let_def by (auto split: option.splits if_splits bind_splits)
  then show ?thesis
  proof cases
    case 1
    with held1 reach show ?thesis by blast
  next
    case (2 txs b0 out b')
    then have "b0 = b" using held1 by (auto simp: held_backend_def)
    with reach 2(2) arb have "reachable_backend np b'" by (blast intro: reachable_backend.step backend_step.mine)
    with 2(3) show ?thesis by (auto simp: held_backend_def)
  qed
qed

lemma held_queued [simp]: "held_backend (p\<lparr>queued := q\<rparr>) b = held_backend p b"
  by (simp add: held_backend_def)

lemma turn_sound:
  assumes sound: "node_sound np nonce_of n sv" and n: "n < 2 ^ 64 - 1" and ord: "hash_order order"
    and arb: "\<And>i. \<not> np_arbitrum np i" and run: "service_turn np order t sv = Some (go, sv')"
  shows "node_sound np nonce_of (Suc n) sv'"
proof -
  from run obtain r p where poll: "producer_poll np t (block_producer sv) = Some (r, p)"
    by (auto simp: service_turn_def split: bind_splits)
  obtain b' where b': "held_backend p b'" "reachable_backend np b'"
    using sound producer_poll_held [OF _ _ arb poll] by (auto simp: node_sound_def)
  have pool: "rpc_pool nonce_of n (sv_pool sv)" using sound by (simp add: node_sound_def)
  show ?thesis
  proof (cases r)
    case (PollReady out)
    with run poll obtain x pool' where m: "on_mined_block order out (sv_pool sv) = Some (x, pool')"
      and sv': "sv' = sv\<lparr>block_producer := p, sv_pool := pool'\<rparr>"
      by (auto simp: service_turn_def split: bind_splits)
    have "rpc_pool nonce_of (Suc n) pool'"
      using rpc_pool_step [OF pool _ n, of order "OnMinedBlock out" "\<lambda>l _. (Sent, l)"] ord m by (auto simp: rpc_call_def)
    with b' sv' show ?thesis by (auto simp: node_sound_def)
  next
    case PollPending
    with run poll have "sv_pool sv' = sv_pool sv" "held_backend (block_producer sv') b'"
      using b'(1) by (auto simp: service_turn_def split: bind_splits Poll.splits)
    with b'(2) rpc_pool_mono [OF pool] show ?thesis by (auto simp: node_sound_def)
  qed
qed

lemma node_step_sound:
  assumes "node_sound np nonce_of n sv" and "n < 2 ^ 64 - 1" and "hash_order order" and "\<And>i. \<not> np_arbitrum np i"
    and "event_ok order nonce_of e" and "node_step np try_send order e sv = Some (x, sv')"
  shows "node_sound np nonce_of (Suc n) sv'"
proof (cases e)
  case (PoolCall c)
  then have "rpc_call order nonce_of c" using assms(5) by (simp add: event_ok_def)
  with rpc_pool_step [OF _ this assms(2), of "sv_pool sv" try_send] assms(1,6) PoolCall show ?thesis
    by (auto simp: node_sound_def node_step_def)
next
  case (Turn t)
  with assms show ?thesis by (auto simp: node_step_def intro: turn_sound)
qed

lemma node_run_sound:
  assumes "hash_order order" and "\<And>i. \<not> np_arbitrum np i"
  shows "run (node_step np try_send order) es sv = Some (xs, sv') \<Longrightarrow> node_sound np nonce_of n sv \<Longrightarrow>
    list_all (event_ok order nonce_of) es \<Longrightarrow> n + length es < 2 ^ 64 \<Longrightarrow> node_sound np nonce_of (n + length es) sv'"
proof (induction es arbitrary: n sv xs)
  case (Cons e es)
  from Cons.prems(1) obtain x sv1 ys where e: "node_step np try_send order e sv = Some (x, sv1)"
    and r: "run (node_step np try_send order) es sv1 = Some (ys, sv')" by (auto split: option.splits)
  have "node_sound np nonce_of (Suc n) sv1"
    by (rule node_step_sound [OF Cons.prems(2) _ assms _ e]) (use Cons.prems in simp_all)
  from Cons.IH [OF r this] Cons.prems show ?case by simp
qed simp

text \<open>C2. A node stays sound as a whole. It starts at its genesis with an empty pool; transactions come in
  and are dropped by calls, and in between the service polls the miner, mines and prunes, in any order and
  with any timing of its tasks. Then the pool keeps its invariant and can offer all it has ready, and
  the backend, be it idle or mining, is in a reachable state, so that its chain is linked. (The node is not an
  Arbitrum chain.)\<close>

theorem node_stays_sound:
  assumes "with_genesis np now db env gc fees prune max_persisted keeper automine tmp_root cache_path slots = Some (Inr b)"
    and "be_number (env_block env) = 0" and "hash_order order" and "\<And>i. \<not> np_arbitrum np i"
    and "list_all (event_ok order nonce_of) es" and "length es < 2 ^ 64"
    and "run (node_step np try_send order) es (new_NodeService b m) = Some (xs, sv)"
  shows "pool_inv (Anvil_Pool.inner (sv_pool sv)) \<and>
    (\<exists>txs. drain (get_transactions (ready_transactions (Anvil_Pool.inner (sv_pool sv)))) = Some txs \<and>
       set txs = ran (ready_txs (ready_transactions (Anvil_Pool.inner (sv_pool sv))))) \<and>
    (\<exists>b'. held_backend (block_producer sv) b' \<and> reachable_backend np b')"
proof -
  have "reachable_backend np b" using assms(1,2) by (rule reachable_backend.genesis)
  then have "node_sound np nonce_of 0 (new_NodeService b m)"
    by (auto simp: node_sound_def new_NodeService_def held_backend_def intro: rpc_pool_empty)
  from node_run_sound [OF assms(3,4,7) this assms(5)] assms(6)
  have "node_sound np nonce_of (length es) sv" by simp
  then have r: "rpc_at nonce_of (length es) [] (Anvil_Pool.inner (sv_pool sv))"
    and b: "\<exists>b'. held_backend (block_producer sv) b' \<and> reachable_backend np b'" by (simp_all add: node_sound_def rpc_pool_def)
  from r have "pool_inv (Anvil_Pool.inner (sv_pool sv))" by (simp add: rpc_at_def)
  with rpc_drain [OF r] b show ?thesis by blast
qed

theorem node_stays_sound_witness:
  "\<exists>b xs sv tx. sample_start = Some (Inr b) \<and>
     run (node_step sample_node always_sent insertion_order)
       [PoolCall (AddTransaction (sample_rpc 0 1)), Turn \<lparr>finished = False, ticked = False, turn_random = 9, turn_now = 101\<rparr>]
       (new_NodeService b \<lparr>miner_mode = Auto \<lparr>max_transactions = 1000, has_pending_txs = None, rx = []\<rparr>, force_transactions = None\<rparr>)
       = Some (xs, sv) \<and>
     queued (block_producer sv) = [[tx]] \<and> pool_inv (Anvil_Pool.inner (sv_pool sv)) \<and>
     (\<exists>b'. held_backend (block_producer sv) b' \<and> reachable_backend sample_node b')"
proof -
  let ?t = "\<lparr>finished = False, ticked = False, turn_random = 9, turn_now = 101\<rparr>"
  let ?es = "[PoolCall (AddTransaction (sample_rpc 0 1)), Turn ?t] :: unit node_event list"
  let ?m = "\<lparr>miner_mode = Auto \<lparr>max_transactions = 1000, has_pending_txs = None, rx = []\<rparr>, force_transactions = None\<rparr>"
  obtain b where start: "sample_start = Some (Inr b)" by (rule sample_backends)
  obtain pool tx where p: "sample_pool = Some pool"
    and d: "drain (get_transactions (ready_transactions (Anvil_Pool.inner pool))) = Some [tx]" by (rule sample_pool_parts)
  then have "\<exists>x. pool_step always_sent insertion_order (AddTransaction (sample_rpc 0 1)) empty_pool = Some (x, pool)"
    by (auto simp: sample_pool_def simp del: pool_step.simps split: option.splits)
  then have add: "node_step sample_node always_sent insertion_order (PoolCall (AddTransaction (sample_rpc 0 1))) (new_NodeService b ?m) =
      Some (None, (new_NodeService b ?m)\<lparr>sv_pool := pool\<rparr>)"
    by (auto simp: node_step_def new_NodeService_def simp del: pool_step.simps)
  obtain sv where turn: "service_turn sample_node insertion_order ?t ((new_NodeService b ?m)\<lparr>sv_pool := pool\<rparr>) = Some (True, sv)"
    and q: "queued (block_producer sv) = [[tx]]"
    by (simp add: service_turn_def producer_poll_def miner_poll_def mode_poll_def ready_miner_poll_eq [OF d] new_NodeService_def)
  have run: "run (node_step sample_node always_sent insertion_order) ?es (new_NodeService b ?m) = Some ([None, Some True], sv)"
    using turn by (simp add: add) (simp add: node_step_def)
  have ok: "list_all (event_ok insertion_order (\<lambda>_. 0)) ?es" using sample_rpc_ok by (simp add: event_ok_def)
  have arb: "\<not> np_arbitrum sample_node i" for i by (simp add: sample_node_def)
  have "length ?es < 2 ^ 64" "be_number (env_block (sample_env\<lparr>env_block := sample_block_env\<lparr>be_number := 0\<rparr>\<rparr>)) = 0" by simp_all
  from node_stays_sound [OF start [unfolded sample_start_def] this(2) insertion.hash_order_axioms arb ok this(1) run]
  have "pool_inv (Anvil_Pool.inner (sv_pool sv)) \<and> (\<exists>b'. held_backend (block_producer sv) b' \<and> reachable_backend sample_node b')"
    by blast
  with start run q show ?thesis by blast
qed

end
