(* ===== verification/Cov_Hits.thy ===== *)
theory Cov_Hits
  imports Foundry_Prelude
begin

text \<open>
  Hit counters: the hit maps of \<open>crates/evm/coverage/src/lib.rs\<close> and the collector of \<open>inspector.rs\<close>
  that fills them while code runs. The interpreter's bytecode and its hash belong to other crates
  and are parameters. The lemmas show that merging adds the counters and that a run of the
  collector counts every executed instruction once, never following its pointer before it is set.
\<close>

section \<open>Hit maps\<close>

record HitMap =
  bytecode :: Bytes
  hit_counts :: "(u32, u32) hmap"

definition new_HitMap :: "Bytes \<Rightarrow> HitMap" where
  "new_HitMap code = \<lparr>bytecode = code, hit_counts = []\<rparr>"

definition count_at :: "(u32, u32) hmap \<Rightarrow> u32 \<Rightarrow> u32" where
  "count_at m pc = (case hm_get m pc of None \<Rightarrow> 0 | Some n \<Rightarrow> n)"

definition hitmap_get :: "HitMap \<Rightarrow> u32 \<Rightarrow> u32 option" where
  "hitmap_get m pc = (let n = count_at (hit_counts m) pc in if n = 0 then None else Some n)"

text \<open>\<open>None\<close>: the counter overflows.\<close>

definition hitmap_hits :: "u32 \<Rightarrow> u32 \<Rightarrow> HitMap \<Rightarrow> HitMap option" where
  "hitmap_hits pc n m = do {
     total \<leftarrow> checked_add (count_at (hit_counts m) pc) n;
     Some (m\<lparr>hit_counts := hm_insert pc total (hit_counts m)\<rparr>)
   }"

definition hitmap_hit :: "u32 \<Rightarrow> HitMap \<Rightarrow> HitMap option" where
  "hitmap_hit pc m = hitmap_hits pc 1 m"

fun hits_all :: "(u32 \<times> u32) list \<Rightarrow> HitMap \<Rightarrow> HitMap option" where
  "hits_all [] m = Some m"
| "hits_all ((pc, n) # es) m = do { m' \<leftarrow> hitmap_hits pc n m; hits_all es m' }"

definition hitmap_merge ::
    "((u32 \<times> u32) list \<Rightarrow> (u32 \<times> u32) list) \<Rightarrow> HitMap \<Rightarrow> HitMap \<Rightarrow> HitMap option" where
  "hitmap_merge order m other = hits_all (order (hit_counts other)) m"

definition hitmap_len :: "HitMap \<Rightarrow> nat" where
  "hitmap_len m = length (hit_counts m)"

type_synonym HitMaps = "(B256, HitMap) hmap"

fun hitmaps_merge_loop ::
    "((u32 \<times> u32) list \<Rightarrow> (u32 \<times> u32) list) \<Rightarrow> (B256 \<times> HitMap) list \<Rightarrow> HitMaps \<Rightarrow> HitMaps option" where
  "hitmaps_merge_loop order [] ms = Some ms"
| "hitmaps_merge_loop order ((code_hash, other) # others) ms =
     (case hm_get ms code_hash of
        None \<Rightarrow> hitmaps_merge_loop order others (hm_insert code_hash other ms)
      | Some e \<Rightarrow> do {
          e' \<leftarrow> hitmap_merge order e other;
          hitmaps_merge_loop order others (hm_insert code_hash e' ms)
        })"

definition hitmaps_merge ::
    "((u32 \<times> u32) list \<Rightarrow> (u32 \<times> u32) list) \<Rightarrow> ((B256 \<times> HitMap) list \<Rightarrow> (B256 \<times> HitMap) list) \<Rightarrow>
     HitMaps \<Rightarrow> HitMaps \<Rightarrow> HitMaps option" where
  "hitmaps_merge order morder ms other = hitmaps_merge_loop order (morder other) ms"

definition hitmaps_merge_opt ::
    "((u32 \<times> u32) list \<Rightarrow> (u32 \<times> u32) list) \<Rightarrow> ((B256 \<times> HitMap) list \<Rightarrow> (B256 \<times> HitMap) list) \<Rightarrow>
     HitMaps option \<Rightarrow> HitMaps option \<Rightarrow> HitMaps option option" where
  "hitmaps_merge_opt order morder a b =
     (case (a, b) of
        (_, None) \<Rightarrow> Some a
      | (None, Some b) \<Rightarrow> Some (Some b)
      | (Some a, Some b) \<Rightarrow> map_option Some (hitmaps_merge order morder a b))"

section \<open>Collecting\<close>

text \<open>What the collector reads of the interpreter. A missing hash is code in the EOF format.\<close>

record 'code Interpreter =
  contract_hash :: "B256 option"
  contract_bytecode :: 'code
  program_counter :: nat

text \<open>\<open>current_map\<close> is a pointer into \<open>maps\<close>; it is kept as the key of the entry it points to, \<open>None\<close>
  the dangling pointer of a new collector. Following a dangling pointer is undefined: \<open>None\<close>.\<close>

record CoverageCollector =
  current_map :: "B256 option"
  current_hash :: B256
  maps :: HitMaps

definition new_collector :: CoverageCollector where
  "new_collector = \<lparr>current_map = None, current_hash = 0, maps = []\<rparr>"

definition get_or_insert_contract_hash :: "('code \<Rightarrow> B256) \<Rightarrow> 'code Interpreter \<Rightarrow> (B256 \<times> 'code Interpreter) option" where
  "get_or_insert_contract_hash hash_slow ip =
     (case contract_hash ip of
        None \<Rightarrow> None
      | Some h \<Rightarrow>
          (let h' = (if h = 0 then hash_slow (contract_bytecode ip) else h)
           in Some (h', ip\<lparr>contract_hash := Some h'\<rparr>)))"

definition insert_map :: "('code \<Rightarrow> Bytes) \<Rightarrow> 'code Interpreter \<Rightarrow> CoverageCollector \<Rightarrow> CoverageCollector option" where
  "insert_map original_bytes ip c =
     (case contract_hash ip of
        None \<Rightarrow> None
      | Some h \<Rightarrow>
          Some (c\<lparr>current_hash := h, current_map := Some h,
            maps := (case hm_get (maps c) h of
               None \<Rightarrow> hm_insert h (new_HitMap (original_bytes (contract_bytecode ip))) (maps c)
             | Some _ \<Rightarrow> maps c)\<rparr>))"

definition initialize_interp ::
    "('code \<Rightarrow> B256) \<Rightarrow> ('code \<Rightarrow> Bytes) \<Rightarrow> 'code Interpreter \<Rightarrow> CoverageCollector \<Rightarrow>
     ('code Interpreter \<times> CoverageCollector) option" where
  "initialize_interp hash_slow original_bytes ip c = do {
     (h, ip') \<leftarrow> get_or_insert_contract_hash hash_slow ip;
     c' \<leftarrow> insert_map original_bytes ip' c;
     Some (ip', c')
   }"

definition get_or_insert_map ::
    "('code \<Rightarrow> B256) \<Rightarrow> ('code \<Rightarrow> Bytes) \<Rightarrow> 'code Interpreter \<Rightarrow> CoverageCollector \<Rightarrow>
     ('code Interpreter \<times> CoverageCollector) option" where
  "get_or_insert_map hash_slow original_bytes ip c = do {
     (h, ip') \<leftarrow> get_or_insert_contract_hash hash_slow ip;
     c' \<leftarrow> (if current_hash c \<noteq> h then insert_map original_bytes ip' c else Some c);
     Some (ip', c')
   }"

definition collector_step ::
    "('code \<Rightarrow> B256) \<Rightarrow> ('code \<Rightarrow> Bytes) \<Rightarrow> 'code Interpreter \<Rightarrow> CoverageCollector \<Rightarrow>
     ('code Interpreter \<times> CoverageCollector) option" where
  "collector_step hash_slow original_bytes ip c = do {
     (ip', c') \<leftarrow> get_or_insert_map hash_slow original_bytes ip c;
     h \<leftarrow> current_map c';
     m \<leftarrow> hm_get (maps c') h;
     m' \<leftarrow> hitmap_hit (word_of_nat (program_counter ip)) m;
     Some (ip', c'\<lparr>maps := hm_insert h m' (maps c')\<rparr>)
   }"

definition finish :: "CoverageCollector \<Rightarrow> HitMaps" where
  "finish c = maps c"

section \<open>Counting\<close>

definition hits_at :: "HitMaps \<Rightarrow> B256 \<Rightarrow> u32 \<Rightarrow> nat" where
  "hits_at ms h pc = (case hm_get ms h of None \<Rightarrow> 0 | Some m \<Rightarrow> unat (count_at (hit_counts m) pc))"

lemma unat_checked_add:
  "checked_add a b = Some c \<Longrightarrow> unat c = unat a + unat (b :: 'a::len word)"
  by (auto simp: arith_simps unat_add_no_wrap)

lemma count_at_insert [cont_simps]: "count_at (hm_insert k v m) x = (if x = k then v else count_at m x)"
  by (simp add: count_at_def cont_simps)

lemma hitmap_hits_count:
  assumes "hitmap_hits pc n m = Some m'"
  shows "unat (count_at (hit_counts m') x) = unat (count_at (hit_counts m) x) + (if x = pc then unat n else 0)"
proof -
  from assms obtain t where t: "checked_add (count_at (hit_counts m) pc) n = Some t"
    and m': "m' = m\<lparr>hit_counts := hm_insert pc t (hit_counts m)\<rparr>"
    by (auto simp: hitmap_hits_def bind_eq_Some_conv)
  show ?thesis unfolding m' using unat_checked_add [OF t] by (simp add: count_at_insert)
qed

lemma hits_all_count:
  "hits_all es m = Some m' \<Longrightarrow>
   unat (count_at (hit_counts m') x) =
     unat (count_at (hit_counts m) x) + (\<Sum>(pc, n)\<leftarrow>es. if x = pc then unat n else 0)"
proof (induction es arbitrary: m)
  case (Cons e es)
  obtain pc n where e: "e = (pc, n)" by (cases e)
  with Cons.prems obtain m1 where "hitmap_hits pc n m = Some m1" "hits_all es m1 = Some m'"
    by (auto simp: bind_eq_Some_conv)
  with hitmap_hits_count [of pc n m m1 x] Cons.IH [of m1] e show ?case by simp
qed simp

lemma count_at_absent: "x \<notin> fst ` set es \<Longrightarrow> count_at es x = 0"
  by (simp add: count_at_def map_of_eq_None_iff [THEN iffD2])

lemma sum_alist_count:
  "distinct (map fst es) \<Longrightarrow> (\<Sum>(pc, n)\<leftarrow>es. if x = pc then unat n else 0) = unat (count_at es x)"
proof (induction es)
  case (Cons e es)
  obtain pc n where e: "e = (pc, n)" by (cases e)
  have "count_at (e # es) x = (if x = pc then n else count_at es x)"
    by (simp add: e count_at_def)
  with Cons e show ?case by (cases "x = pc") (simp_all add: count_at_absent)
qed (simp add: count_at_def)

lemma sum_list_order: "hash_order order \<Longrightarrow> (\<Sum>x\<leftarrow>order xs. f x) = (\<Sum>x\<leftarrow>xs. f x :: nat)"
proof -
  assume "hash_order order"
  then have "mset (map f (order xs)) = mset (map f xs)"
    unfolding mset_map by (rule hash_order.mset_order [THEN arg_cong])
  then have "sum_mset (mset (map f (order xs))) = sum_mset (mset (map f xs))" by (rule arg_cong)
  then show ?thesis unfolding sum_mset_sum_list .
qed

lemma hitmap_merge_count:
  assumes "hash_order order" and "distinct (map fst (hit_counts other))"
    and "hitmap_merge order m other = Some m'"
  shows "unat (count_at (hit_counts m') x) = unat (count_at (hit_counts m) x) + unat (count_at (hit_counts other) x)"
proof -
  have "unat (count_at (hit_counts m') x) =
      unat (count_at (hit_counts m) x) + (\<Sum>(pc, n)\<leftarrow>order (hit_counts other). if x = pc then unat n else 0)"
    using hits_all_count [of "order (hit_counts other)" m m' x] assms(3) by (simp add: hitmap_merge_def)
  then show ?thesis
    unfolding sum_list_order [OF assms(1)] sum_alist_count [OF assms(2)] .
qed

text \<open>A hash map holds each key once.\<close>

definition hitmaps_ok :: "HitMaps \<Rightarrow> bool" where
  "hitmaps_ok ms = (distinct (hm_keys ms) \<and> list_all (\<lambda>(h, m). distinct (hm_keys (hit_counts m))) ms)"

lemma hits_at_insert:
  "hits_at (hm_insert h m ms) h' pc = (if h' = h then unat (count_at (hit_counts m) pc) else hits_at ms h' pc)"
  by (simp add: hits_at_def cont_simps)

lemma hits_at_Cons:
  "hits_at ((h, m) # ms) h' pc = (if h' = h then unat (count_at (hit_counts m) pc) else hits_at ms h' pc)"
  by (simp add: hits_at_def)

lemma hits_at_absent: "h \<notin> fst ` set ms \<Longrightarrow> hits_at ms h pc = 0"
  by (simp add: hits_at_def map_of_eq_None_iff [THEN iffD2])

lemma hitmaps_merge_loop_count:
  assumes "hash_order order"
  shows "hitmaps_merge_loop order others ms = Some ms' \<Longrightarrow> hitmaps_ok others \<Longrightarrow>
    hits_at ms' h pc = hits_at ms h pc + hits_at others h pc"
proof (induction others arbitrary: ms)
  case Nil
  then show ?case by (simp add: hits_at_def)
next
  case (Cons e others)
  obtain k other where e: "e = (k, other)" by (cases e)
  from Cons.prems e have ok: "hitmaps_ok others" "k \<notin> fst ` set others" "distinct (map fst (hit_counts other))"
    by (auto simp: hitmaps_ok_def)
  show ?case
  proof (cases "hm_get ms k")
    case None
    with Cons.prems e have "hitmaps_merge_loop order others (hm_insert k other ms) = Some ms'" by simp
    from Cons.IH [OF this ok(1)] None ok(2) e show ?thesis
      by (auto simp: hits_at_insert hits_at_Cons hits_at_absent) (simp add: hits_at_def)
  next
    case (Some m)
    with Cons.prems e obtain m' where m': "hitmap_merge order m other = Some m'"
      and "hitmaps_merge_loop order others (hm_insert k m' ms) = Some ms'"
      by (auto simp: bind_eq_Some_conv)
    from Cons.IH [OF this(2) ok(1)] hitmap_merge_count [OF assms ok(3) m'] Some ok(2) e show ?thesis
      by (auto simp: hits_at_insert hits_at_Cons hits_at_absent) (simp add: hits_at_def)
  qed
qed

lemma list_all_order: "hash_order order \<Longrightarrow> list_all p (order xs) = list_all p xs"
  by (simp add: list_all_iff hash_order.set_order)

lemma distinct_keys_order: "hash_order order \<Longrightarrow> distinct (map fst (order xs)) = distinct (map fst xs)"
  by (metis hash_order.mset_order mset_eq_imp_distinct_iff mset_map)

lemma map_of_order:
  assumes "hash_order order" and "distinct (map fst xs)"
  shows "map_of (order xs) = map_of xs"
  by (rule map_of_inject_set [THEN iffD2])
    (use assms in \<open>simp_all add: distinct_keys_order hash_order.set_order\<close>)

lemma hitmap_hits_total:
  "unat (count_at (hit_counts m) pc) + unat n < 2 ^ 32 \<Longrightarrow> \<exists>m'. hitmap_hits pc n m = Some m'"
  by (simp add: hitmap_hits_def checked_add_def)

lemma hits_all_total:
  "\<forall>x. unat (count_at (hit_counts m) x) + (\<Sum>(pc, n)\<leftarrow>es. if x = pc then unat n else 0) < 2 ^ 32 \<Longrightarrow>
   \<exists>m'. hits_all es m = Some m'"
proof (induction es arbitrary: m)
  case (Cons e es)
  obtain pc n where e: "e = (pc, n)" by (cases e)
  have "unat (count_at (hit_counts m) pc) + unat n < 2 ^ 32"
    using Cons.prems [rule_format, of pc] e by simp
  then obtain m1 where m1: "hitmap_hits pc n m = Some m1" using hitmap_hits_total by blast
  have "\<forall>x. unat (count_at (hit_counts m1) x) + (\<Sum>(pc, n)\<leftarrow>es. if x = pc then unat n else 0) < 2 ^ 32"
    using Cons.prems e hitmap_hits_count [OF m1] by (simp add: add.assoc)
  from Cons.IH [OF this] m1 e show ?case by simp
qed simp

lemma hitmap_merge_total:
  assumes "hash_order order" and "distinct (map fst (hit_counts other))"
    and "\<forall>x. unat (count_at (hit_counts m) x) + unat (count_at (hit_counts other) x) < 2 ^ 32"
  shows "\<exists>m'. hitmap_merge order m other = Some m'"
  unfolding hitmap_merge_def
  by (rule hits_all_total) (unfold sum_list_order [OF assms(1)] sum_alist_count [OF assms(2)], rule assms(3))

lemma hitmaps_merge_loop_total:
  assumes "hash_order order"
  shows "hitmaps_ok others \<Longrightarrow> \<forall>h pc. hits_at ms h pc + hits_at others h pc < 2 ^ 32 \<Longrightarrow>
    \<exists>ms'. hitmaps_merge_loop order others ms = Some ms'"
proof (induction others arbitrary: ms)
  case (Cons e others)
  obtain k other where e: "e = (k, other)" by (cases e)
  from Cons.prems(1) e have ok: "hitmaps_ok others" "k \<notin> fst ` set others" "distinct (map fst (hit_counts other))"
    by (auto simp: hitmaps_ok_def)
  have sum: "hits_at ms h pc + (if h = k then unat (count_at (hit_counts other) pc) else hits_at others h pc) < 2 ^ 32"
    for h pc
    using Cons.prems(2) [rule_format, of h pc] unfolding e hits_at_Cons .
  show ?case
  proof (cases "hm_get ms k")
    case None
    have "\<forall>h pc. hits_at (hm_insert k other ms) h pc + hits_at others h pc < 2 ^ 32"
    proof (intro allI)
      fix h pc
      from sum [of h pc] ok(2) show "hits_at (hm_insert k other ms) h pc + hits_at others h pc < 2 ^ 32"
        by (cases "h = k") (simp_all add: hits_at_insert hits_at_absent)
    qed
    from Cons.IH [OF ok(1) this] None e show ?thesis by simp
  next
    case (Some m)
    have "hits_at ms k pc = unat (count_at (hit_counts m) pc)" for pc
      using Some by (simp add: hits_at_def)
    with sum [of k] have "\<forall>x. unat (count_at (hit_counts m) x) + unat (count_at (hit_counts other) x) < 2 ^ 32"
      by simp
    then obtain m' where m': "hitmap_merge order m other = Some m'"
      using hitmap_merge_total [OF assms ok(3)] by blast
    have "\<forall>h pc. hits_at (hm_insert k m' ms) h pc + hits_at others h pc < 2 ^ 32"
    proof (intro allI)
      fix h pc
      from sum [of h pc] ok(2) hitmap_merge_count [OF assms ok(3) m', of pc] Some
      show "hits_at (hm_insert k m' ms) h pc + hits_at others h pc < 2 ^ 32"
        by (cases "h = k") (simp_all add: hits_at_insert hits_at_absent, simp add: hits_at_def)
    qed
    from Cons.IH [OF ok(1) this] Some m' e show ?thesis by simp
  qed
qed simp

lemma hits_at_bound: "hits_at ms h pc < 2 ^ 32"
proof -
  have "unat w < 2 ^ 32" for w :: u32 using unsigned_less [of w] by simp
  then show ?thesis by (simp add: hits_at_def split: option.split)
qed

lemma hitmaps_merge_order:
  assumes "hash_order morder" and "hitmaps_ok other"
  shows "hitmaps_ok (morder other)" and "hits_at (morder other) h pc = hits_at other h pc"
  using assms by (simp_all add: hitmaps_ok_def list_all_order distinct_keys_order hits_at_def map_of_order)

text \<open>Merging two collections of hit maps adds their counters: when it returns, every program
  counter of every contract has the sum of its two counts, whatever the iteration orders of the hash
  maps, and it overflows exactly when one of those sums does not fit 32 bits.\<close>

theorem hitmaps_merge_adds:
  assumes "hash_order order" and "hash_order morder" and "hitmaps_ok other"
  shows "(\<exists>ms'. hitmaps_merge order morder ms other = Some ms' \<and>
            (\<forall>h pc. hits_at ms' h pc = hits_at ms h pc + hits_at other h pc)) \<or>
         (hitmaps_merge order morder ms other = None \<and>
            (\<exists>h pc. 2 ^ 32 \<le> hits_at ms h pc + hits_at other h pc))"
proof (cases "hitmaps_merge order morder ms other")
  case None
  then have "\<not> (\<forall>h pc. hits_at ms h pc + hits_at (morder other) h pc < 2 ^ 32)"
    using hitmaps_merge_loop_total [OF assms(1) hitmaps_merge_order(1) [OF assms(2,3)], of ms]
    unfolding hitmaps_merge_def by auto
  with None show ?thesis by (simp add: not_less hitmaps_merge_order(2) [OF assms(2,3)])
next
  case (Some ms')
  then have "hits_at ms' h pc = hits_at ms h pc + hits_at other h pc" for h pc
    using hitmaps_merge_loop_count [OF assms(1) _ hitmaps_merge_order(1) [OF assms(2,3)], of ms ms' h pc]
    by (simp add: hitmaps_merge_def hitmaps_merge_order(2) [OF assms(2,3)])
  with Some show ?thesis by simp
qed

definition sample_maps :: HitMaps where
  "sample_maps = [(7, \<lparr>bytecode = [], hit_counts = [(0, 3), (2, 5)]\<rparr>), (9, \<lparr>bytecode = [], hit_counts = [(4, 1)]\<rparr>)]"

theorem hitmaps_merge_adds_witness:
  "\<exists>ms'. hitmaps_merge insertion_order reverse_order sample_maps sample_maps = Some ms' \<and>
     (\<forall>h pc. hits_at ms' h pc = hits_at sample_maps h pc + hits_at sample_maps h pc)"
proof -
  have ok: "hitmaps_ok sample_maps" by code_simp
  have ne: "hitmaps_merge insertion_order reverse_order sample_maps sample_maps \<noteq> None" by code_simp
  from hitmaps_merge_adds [OF insertion.hash_order_axioms reversed.hash_order_axioms ok, of sample_maps]
  show ?thesis
  proof (rule disjE)
    assume "hitmaps_merge insertion_order reverse_order sample_maps sample_maps = None \<and>
      (\<exists>h pc. 2 ^ 32 \<le> hits_at sample_maps h pc + hits_at sample_maps h pc)"
    from ne conjunct1 [OF this] show ?thesis by (rule notE)
  qed
qed

section \<open>Runs of the collector\<close>

text \<open>The calls the interpreter makes, and the hash under which a contract's hits are counted.\<close>

datatype 'code collector_call = InitializeInterp "'code Interpreter" | Step "'code Interpreter"

definition collector_on ::
    "('code \<Rightarrow> B256) \<Rightarrow> ('code \<Rightarrow> Bytes) \<Rightarrow> 'code collector_call \<Rightarrow> CoverageCollector \<Rightarrow>
     ('code Interpreter \<times> CoverageCollector) option" where
  "collector_on hash_slow original_bytes e c =
     (case e of
        InitializeInterp ip \<Rightarrow> initialize_interp hash_slow original_bytes ip c
      | Step ip \<Rightarrow> collector_step hash_slow original_bytes ip c)"

definition code_key :: "('code \<Rightarrow> B256) \<Rightarrow> 'code Interpreter \<Rightarrow> B256 option" where
  "code_key hash_slow ip = map_option (\<lambda>h. if h = 0 then hash_slow (contract_bytecode ip) else h) (contract_hash ip)"

definition counted :: "('code \<Rightarrow> B256) \<Rightarrow> B256 \<Rightarrow> u32 \<Rightarrow> 'code collector_call \<Rightarrow> bool" where
  "counted hash_slow h pc e =
     (case e of
        InitializeInterp ip \<Rightarrow> False
      | Step ip \<Rightarrow> code_key hash_slow ip = Some h \<and> word_of_nat (program_counter ip) = pc)"

definition supported :: "('code \<Rightarrow> B256) \<Rightarrow> 'code collector_call \<Rightarrow> bool" where
  "supported hash_slow e =
     (case (case e of InitializeInterp ip \<Rightarrow> code_key hash_slow ip | Step ip \<Rightarrow> code_key hash_slow ip) of
        None \<Rightarrow> False | Some h \<Rightarrow> h \<noteq> 0)"

text \<open>The pointer is the entry of the current hash, once there is one.\<close>

definition collector_ok :: "CoverageCollector \<Rightarrow> bool" where
  "collector_ok c = (current_hash c \<noteq> 0 \<longrightarrow>
     current_map c = Some (current_hash c) \<and> hm_contains (maps c) (current_hash c))"

lemma get_or_insert_contract_hash_key:
  "code_key hash_slow ip = Some h \<Longrightarrow>
   get_or_insert_contract_hash hash_slow ip = Some (h, ip\<lparr>contract_hash := Some h\<rparr>)"
  by (auto simp: code_key_def get_or_insert_contract_hash_def Let_def)

lemma insert_map_ok:
  assumes "h \<noteq> 0"
  shows "\<exists>c'. insert_map ob (ip\<lparr>contract_hash := Some h\<rparr>) c = Some c' \<and> collector_ok c' \<and>
    current_hash c' = h \<and> (\<forall>k pc. hits_at (maps c') k pc = hits_at (maps c) k pc)"
  using assms
  by (cases "hm_get (maps c) h")
    (auto simp: insert_map_def collector_ok_def cont_simps hits_at_def new_HitMap_def count_at_def)

lemma initialize_interp_ok:
  assumes "code_key hash_slow ip = Some h" and "h \<noteq> 0"
  shows "\<exists>ip' c'. initialize_interp hash_slow ob ip c = Some (ip', c') \<and> collector_ok c' \<and>
    (\<forall>k pc. hits_at (maps c') k pc = hits_at (maps c) k pc)"
proof -
  obtain c' where "insert_map ob (ip\<lparr>contract_hash := Some h\<rparr>) c = Some c'" "collector_ok c'"
    "\<forall>k pc. hits_at (maps c') k pc = hits_at (maps c) k pc"
    using insert_map_ok [OF assms(2), of ob ip c] by (elim exE conjE)
  then show ?thesis
    by (simp add: initialize_interp_def get_or_insert_contract_hash_key [OF assms(1)])
qed

lemma get_or_insert_map_ok:
  assumes "collector_ok c" and "code_key hash_slow ip = Some h" and "h \<noteq> 0"
  shows "\<exists>ip' c'. get_or_insert_map hash_slow ob ip c = Some (ip', c') \<and> collector_ok c' \<and>
    current_hash c' = h \<and> (\<forall>k pc. hits_at (maps c') k pc = hits_at (maps c) k pc)"
proof (cases "current_hash c = h")
  case True
  with assms show ?thesis
    by (simp add: get_or_insert_map_def get_or_insert_contract_hash_key)
next
  case False
  obtain c' where "insert_map ob (ip\<lparr>contract_hash := Some h\<rparr>) c = Some c'" "collector_ok c'"
    "current_hash c' = h" "\<forall>k pc. hits_at (maps c') k pc = hits_at (maps c) k pc"
    using insert_map_ok [OF assms(3), of ob ip c] by (elim exE conjE)
  with False show ?thesis
    by (simp add: get_or_insert_map_def get_or_insert_contract_hash_key [OF assms(2)])
qed

lemma collector_step_ok:
  assumes "collector_ok c" and "code_key hash_slow ip = Some h" and "h \<noteq> 0"
    and "hits_at (maps c) h (word_of_nat (program_counter ip)) + 1 < 2 ^ 32"
  shows "\<exists>ip' c'. collector_step hash_slow ob ip c = Some (ip', c') \<and> collector_ok c' \<and>
    (\<forall>k pc. hits_at (maps c') k pc = hits_at (maps c) k pc +
       (if k = h \<and> pc = word_of_nat (program_counter ip) then 1 else 0))"
proof -
  let ?pc = "word_of_nat (program_counter ip) :: u32"
  obtain ip' c' where g: "get_or_insert_map hash_slow ob ip c = Some (ip', c')" and ok: "collector_ok c'"
    and h: "current_hash c' = h" and same: "\<forall>k pc. hits_at (maps c') k pc = hits_at (maps c) k pc"
    using get_or_insert_map_ok [OF assms(1-3), of ob] by (elim exE conjE)
  from ok h assms(3) obtain m where cur: "current_map c' = Some h" and m: "hm_get (maps c') h = Some m"
    by (auto simp: collector_ok_def hm_contains_def)
  have at: "hits_at (maps c') h pc = unat (count_at (hit_counts m) pc)" for pc
    using m by (simp add: hits_at_def)
  with assms(4) same have "unat (count_at (hit_counts m) ?pc) + unat (1 :: u32) < 2 ^ 32" by simp
  then obtain m' where m': "hitmap_hits ?pc 1 m = Some m'" using hitmap_hits_total by blast
  let ?c = "c'\<lparr>maps := hm_insert h m' (maps c')\<rparr>"
  have "collector_step hash_slow ob ip c = Some (ip', ?c)"
    using m' by (simp add: collector_step_def g cur m hitmap_hit_def)
  moreover have "collector_ok ?c"
    using ok by (simp add: collector_ok_def cont_simps)
  moreover have "hits_at (maps ?c) k pc = hits_at (maps c) k pc + (if k = h \<and> pc = ?pc then 1 else 0)" for k pc
    using hitmap_hits_count [OF m', of pc] at [of pc] same by (simp add: hits_at_insert)
  ultimately show ?thesis by (intro exI conjI allI)
qed

lemma collector_on_ok:
  assumes "collector_ok c" and "supported hash_slow e" and "\<forall>h pc. hits_at (maps c) h pc + 1 < 2 ^ 32"
  shows "\<exists>ip c'. collector_on hash_slow ob e c = Some (ip, c') \<and> collector_ok c' \<and>
    (\<forall>h pc. hits_at (maps c') h pc = hits_at (maps c) h pc + (if counted hash_slow h pc e then 1 else 0))"
proof (cases e)
  case (InitializeInterp ip)
  with assms(2) obtain h where "code_key hash_slow ip = Some h" "h \<noteq> 0"
    by (auto simp: supported_def split: option.splits)
  from initialize_interp_ok [OF this, of ob c] InitializeInterp show ?thesis
    by (simp add: collector_on_def counted_def)
next
  case (Step ip)
  with assms(2) obtain h where h: "code_key hash_slow ip = Some h" "h \<noteq> 0"
    by (auto simp: supported_def split: option.splits)
  have "counted hash_slow k pc e \<longleftrightarrow> k = h \<and> pc = word_of_nat (program_counter ip)" for k pc
    using Step h by (auto simp: counted_def)
  with collector_step_ok [OF assms(1) h, of ob] assms(3) Step show ?thesis
    by (simp add: collector_on_def)
qed

lemma collector_run:
  "collector_ok c \<Longrightarrow> list_all (supported hash_slow) es \<Longrightarrow> \<forall>h pc. hits_at (maps c) h pc + length es < 2 ^ 32 \<Longrightarrow>
   \<exists>ips c'. run (collector_on hash_slow ob) es c = Some (ips, c') \<and>
     (\<forall>h pc. hits_at (maps c') h pc = hits_at (maps c) h pc + length (filter (counted hash_slow h pc) es))"
proof (induction es arbitrary: c)
  case (Cons e es)
  have room: "hits_at (maps c) h pc + 1 < 2 ^ 32 - length es" for h pc
    using Cons.prems(3) [rule_format, of h pc] unfolding list.size by linarith
  then have "\<forall>h pc. hits_at (maps c) h pc + 1 < 2 ^ 32"
    by (meson diff_le_self less_le_trans)
  then obtain ip c1 where c1: "collector_on hash_slow ob e c = Some (ip, c1)" "collector_ok c1"
    and at: "\<forall>h pc. hits_at (maps c1) h pc = hits_at (maps c) h pc + (if counted hash_slow h pc e then 1 else 0)"
    using collector_on_ok [of c hash_slow e ob] Cons.prems(1,2) by auto
  have "\<forall>h pc. hits_at (maps c1) h pc + length es < 2 ^ 32"
  proof (intro allI)
    fix h pc
    have "hits_at (maps c1) h pc \<le> hits_at (maps c) h pc + 1" by (simp add: at)
    with room [of h pc] show "hits_at (maps c1) h pc + length es < 2 ^ 32" by linarith
  qed
  with Cons.IH [OF c1(2)] Cons.prems(2) obtain ips c' where
    "run (collector_on hash_slow ob) es c1 = Some (ips, c')"
    "\<forall>h pc. hits_at (maps c') h pc = hits_at (maps c1) h pc + length (filter (counted hash_slow h pc) es)"
    by auto
  with c1 at show ?case by simp
qed simp

text \<open>C28. A run of the collector from its initial state, over any sequence of interpreter starts
  and steps that is shorter than the range of a counter and whose contracts have a non-zero code hash,
  never follows the dangling pointer and never panics, and the hit maps it hands out count, for every
  contract and program counter, exactly the steps executed there.\<close>

theorem collector_counts:
  assumes "list_all (supported hash_slow) es" and "length es < 2 ^ 32"
  shows "\<exists>ips c. run (collector_on hash_slow original_bytes) es new_collector = Some (ips, c) \<and>
    (\<forall>h pc. hits_at (finish c) h pc = length (filter (counted hash_slow h pc) es))"
  using collector_run [of new_collector hash_slow es original_bytes] assms
  by (simp add: new_collector_def collector_ok_def hits_at_def finish_def)

text \<open>Two contracts, the second one in creation: its hash is computed from its code.\<close>

definition sample_calls :: "Bytes collector_call list" where
  "sample_calls =
     (let a = \<lambda>pc. \<lparr>contract_hash = Some 17, contract_bytecode = [1, 2], program_counter = pc\<rparr>;
          b = \<lambda>pc. \<lparr>contract_hash = Some 0, contract_bytecode = [3], program_counter = pc\<rparr>
      in [InitializeInterp (a 0), Step (a 0), Step (a 1), InitializeInterp (b 0), Step (b 0), Step (a 1)])"

theorem collector_counts_witness:
  "\<exists>ips c. run (collector_on (\<lambda>code. word_of_nat (length code) + 4) id) sample_calls new_collector = Some (ips, c) \<and>
     hits_at (finish c) 17 1 = 2 \<and> hits_at (finish c) 5 0 = 1 \<and> hits_at (finish c) 17 7 = 0"
proof -
  let ?hash = "\<lambda>code :: Bytes. word_of_nat (length code) + 4 :: B256"
  have ok: "list_all (supported ?hash) sample_calls" by code_simp
  have len: "length sample_calls < 2 ^ 32" by (simp add: sample_calls_def Let_def)
  have at17: "length (filter (counted ?hash 17 1) sample_calls) = 2"
    and at5: "length (filter (counted ?hash 5 0) sample_calls) = 1"
    and none: "length (filter (counted ?hash 17 7) sample_calls) = 0" by code_simp+
  obtain ips c where c: "run (collector_on ?hash id) sample_calls new_collector = Some (ips, c)"
    and at: "\<forall>h pc. hits_at (finish c) h pc = length (filter (counted ?hash h pc) sample_calls)"
    using collector_counts [OF ok len, of id] by (elim exE conjE)
  note at = at [rule_format]
  from c trans [OF at at17] trans [OF at at5] trans [OF at none] show ?thesis by (intro exI conjI)
qed

end
