(* ===== verification/Cov_Report.thy ===== *)
theory Cov_Report
  imports Cov_Hits "HOL-Library.Product_Lexorder" "HOL-Library.Option_ord"
begin

text \<open>
  Coverage items, their summaries and the coverage report of \<open>crates/evm/coverage/src/lib.rs\<close>, and the
  index of items by source that \<open>SourceAnalysis::new\<close> builds (\<open>analysis.rs\<close>). Compiler versions, paths
  and source maps belong to other crates and are type parameters. The lemmas show that the index
  hands out exactly the items of a source under the ids by which \<open>get\<close> finds them, that a hit map
  adds to each item the hits of its anchors, and that summaries add up.
\<close>

section \<open>Items and summaries\<close>

record 'v ContractId =
  version :: 'v
  cid_source_id :: nat
  cid_contract_name :: string

record ItemAnchor =
  instruction :: u32
  item_id :: u32

datatype CoverageItemKind =
    Line
  | Statement
  | Branch (branch_id: u32) (path_id: u32) (is_first_opcode: bool)
  | Function (fn_name: string)

record SourceLocation =
  source_id :: nat
  contract_name :: string
  loc_bytes :: "u32 \<times> u32"
  loc_lines :: "u32 \<times> u32"

record CoverageItem =
  kind :: CoverageItemKind
  loc :: SourceLocation
  hits :: u32

definition location_len :: "SourceLocation \<Rightarrow> u32" where
  "location_len l = (case loc_bytes l of (start, stop) \<Rightarrow> saturating_sub stop start)"

definition location_is_empty :: "SourceLocation \<Rightarrow> bool" where
  "location_is_empty l = (location_len l = 0)"

record CoverageSummary =
  line_count :: nat
  line_hits :: nat
  statement_count :: nat
  statement_hits :: nat
  branch_count :: nat
  branch_hits :: nat
  function_count :: nat
  function_hits :: nat

definition new_CoverageSummary :: CoverageSummary where
  "new_CoverageSummary = \<lparr>line_count = 0, line_hits = 0, statement_count = 0, statement_hits = 0,
     branch_count = 0, branch_hits = 0, function_count = 0, function_hits = 0\<rparr>"

definition add_item :: "CoverageItem \<Rightarrow> CoverageSummary \<Rightarrow> CoverageSummary" where
  "add_item i s =
     (case kind i of
        Line \<Rightarrow>
          (let s = s\<lparr>line_count := line_count s + 1\<rparr>
           in if hits i > 0 then s\<lparr>line_hits := line_hits s + 1\<rparr> else s)
      | Statement \<Rightarrow>
          (let s = s\<lparr>statement_count := statement_count s + 1\<rparr>
           in if hits i > 0 then s\<lparr>statement_hits := statement_hits s + 1\<rparr> else s)
      | Branch _ _ _ \<Rightarrow>
          (let s = s\<lparr>branch_count := branch_count s + 1\<rparr>
           in if hits i > 0 then s\<lparr>branch_hits := branch_hits s + 1\<rparr> else s)
      | Function _ \<Rightarrow>
          (let s = s\<lparr>function_count := function_count s + 1\<rparr>
           in if hits i > 0 then s\<lparr>function_hits := function_hits s + 1\<rparr> else s))"

definition add_items :: "CoverageItem list \<Rightarrow> CoverageSummary \<Rightarrow> CoverageSummary" where
  "add_items is s = fold add_item is s"

definition from_items :: "CoverageItem list \<Rightarrow> CoverageSummary" where
  "from_items is = add_items is new_CoverageSummary"

definition summary_merge :: "CoverageSummary \<Rightarrow> CoverageSummary \<Rightarrow> CoverageSummary" where
  "summary_merge s other = s\<lparr>
     line_count := line_count s + line_count other,
     line_hits := line_hits s + line_hits other,
     statement_count := statement_count s + statement_count other,
     statement_hits := statement_hits s + statement_hits other,
     branch_count := branch_count s + branch_count other,
     branch_hits := branch_hits s + branch_hits other,
     function_count := function_count s + function_count other,
     function_hits := function_hits s + function_hits other\<rparr>"

section \<open>The items of the sources\<close>

record SourceAnalysis =
  all_items :: "CoverageItem list"
  source_index :: "(u32 \<times> u32) list"

text \<open>\<open>sourced_items\<close> are the items of each contract with the id of its source, as the visitors of
  the syntax trees return them. The loop reads and writes \<open>map[idx]\<close>, which panics out of range.\<close>

definition sort_sourced :: "(nat \<times> CoverageItem list) list \<Rightarrow> (nat \<times> CoverageItem list) list" where
  "sort_sourced = sort_key (\<lambda>(i, is). (i, map_option (\<lambda>i. fst (loc_bytes (loc i))) (case is of [] \<Rightarrow> None | i # _ \<Rightarrow> Some i)))"

fun index_items ::
    "(nat \<times> CoverageItem list) list \<Rightarrow> CoverageItem list \<Rightarrow> (u32 \<times> u32) list \<Rightarrow> SourceAnalysis option" where
  "index_items [] all m = Some \<lparr>all_items = all, source_index = m\<rparr>"
| "index_items ((idx, is) # rest) all m =
     (if idx < length m
      then do {
        let (start, n) = m ! idx;
        let start = (if start = - 1 then word_of_nat (length all) else start);
        n \<leftarrow> checked_add n (word_of_nat (length is));
        index_items rest (all @ is) (m[idx := (start, n)])
      }
      else None)"

definition new_SourceAnalysis :: "(nat \<times> CoverageItem list) list \<Rightarrow> SourceAnalysis option" where
  "new_SourceAnalysis sourced =
     (let sorted_items = sort_sourced sourced
      in if sorted_items = [] then Some \<lparr>all_items = [], source_index = []\<rparr>
         else index_items sorted_items [] (replicate (fst (last sorted_items) + 1) (- 1, 0)))"

definition items_for_source :: "SourceAnalysis \<Rightarrow> u32 \<Rightarrow> (u32 \<times> CoverageItem list) option" where
  "items_for_source a sid =
     (let (offset, len) = (if unat sid < length (source_index a) then source_index a ! unat sid else (0, 0));
          offset = (if offset = - 1 then 0 else offset)
      in if unat offset + unat len \<le> length (all_items a)
         then Some (offset, take (unat len) (drop (unat offset) (all_items a)))
         else None)"

definition items_for_source_enumerated :: "SourceAnalysis \<Rightarrow> u32 \<Rightarrow> (u32 \<times> CoverageItem) list option" where
  "items_for_source_enumerated a sid =
     (case items_for_source a sid of
        None \<Rightarrow> None
      | Some (base_id, is) \<Rightarrow>
          those (map (\<lambda>(idx, i). map_option (\<lambda>k. (k, i)) (checked_add base_id (word_of_nat idx))) (enumerate 0 is)))"

definition analysis_get :: "SourceAnalysis \<Rightarrow> u32 \<Rightarrow> CoverageItem option" where
  "analysis_get a k = (if unat k < length (all_items a) then Some (all_items a ! unat k) else None)"

section \<open>The report\<close>

record ('v, 'p, 'm) CoverageReport =
  source_paths :: "('v \<times> nat, 'p) hmap"
  source_paths_to_ids :: "('v \<times> 'p, nat) hmap"
  analyses :: "('v, SourceAnalysis) hmap"
  anchors :: "('v ContractId, ItemAnchor list \<times> ItemAnchor list) hmap"
  bytecode_hits :: "('v ContractId, HitMap) hmap"
  source_maps :: "('v ContractId, 'm \<times> 'm) hmap"

definition new_CoverageReport :: "('v, 'p, 'm) CoverageReport" where
  "new_CoverageReport = \<lparr>source_paths = [], source_paths_to_ids = [], analyses = [], anchors = [],
     bytecode_hits = [], source_maps = []\<rparr>"

definition add_source :: "'v \<Rightarrow> nat \<Rightarrow> 'p \<Rightarrow> ('v, 'p, 'm) CoverageReport \<Rightarrow> ('v, 'p, 'm) CoverageReport" where
  "add_source v sid path r = r\<lparr>
     source_paths := hm_insert (v, sid) path (source_paths r),
     source_paths_to_ids := hm_insert (v, path) sid (source_paths_to_ids r)\<rparr>"

definition get_source_id :: "('v, 'p, 'm) CoverageReport \<Rightarrow> 'v \<Rightarrow> 'p \<Rightarrow> nat option" where
  "get_source_id r v path = hm_get (source_paths_to_ids r) (v, path)"

definition add_source_maps ::
    "('v ContractId \<times> ('m \<times> 'm)) list \<Rightarrow> ('v, 'p, 'm) CoverageReport \<Rightarrow> ('v, 'p, 'm) CoverageReport" where
  "add_source_maps ms r = r\<lparr>source_maps := fold (\<lambda>(k, v). hm_insert k v) ms (source_maps r)\<rparr>"

definition add_analysis :: "'v \<Rightarrow> SourceAnalysis \<Rightarrow> ('v, 'p, 'm) CoverageReport \<Rightarrow> ('v, 'p, 'm) CoverageReport" where
  "add_analysis v a r = r\<lparr>analyses := hm_insert v a (analyses r)\<rparr>"

definition add_anchors ::
    "('v ContractId \<times> (ItemAnchor list \<times> ItemAnchor list)) list \<Rightarrow> ('v, 'p, 'm) CoverageReport \<Rightarrow>
     ('v, 'p, 'm) CoverageReport" where
  "add_anchors as r = r\<lparr>anchors := fold (\<lambda>(k, v). hm_insert k v) as (anchors r)\<rparr>"

text \<open>The items of all analyses with their path; the order of the versions is that of the hash map.
  A \<open>BTreeMap\<close> hands out its entries by key.\<close>

definition located_items ::
    "(('v \<times> SourceAnalysis) list \<Rightarrow> ('v \<times> SourceAnalysis) list) \<Rightarrow> ('v, 'p, 'm) CoverageReport \<Rightarrow> ('p \<times> CoverageItem) list" where
  "located_items order r =
     concat (map (\<lambda>(v, a). List.map_filter
       (\<lambda>i. map_option (\<lambda>path. (path, i)) (hm_get (source_paths r) (v, source_id (loc i)))) (all_items a))
       (order (analyses r)))"

definition by_file ::
    "(('v \<times> SourceAnalysis) list \<Rightarrow> ('v \<times> SourceAnalysis) list) \<Rightarrow> (CoverageItem \<Rightarrow> 't \<Rightarrow> 't) \<Rightarrow> 't \<Rightarrow>
     ('v, 'p::linorder, 'm) CoverageReport \<Rightarrow> ('p \<times> 't) list" where
  "by_file order f dflt r =
     sort_key fst (fold (\<lambda>(path, i) m. hm_insert path (f i (case hm_get m path of None \<Rightarrow> dflt | Some t \<Rightarrow> t)) m)
       (located_items order r) [])"

definition summary_by_file ::
    "(('v \<times> SourceAnalysis) list \<Rightarrow> ('v \<times> SourceAnalysis) list) \<Rightarrow> ('v, 'p::linorder, 'm) CoverageReport \<Rightarrow>
     ('p \<times> CoverageSummary) list" where
  "summary_by_file order r = by_file order add_item new_CoverageSummary r"

definition items_by_file ::
    "(('v \<times> SourceAnalysis) list \<Rightarrow> ('v \<times> SourceAnalysis) list) \<Rightarrow> ('v, 'p::linorder, 'm) CoverageReport \<Rightarrow>
     ('p \<times> CoverageItem list) list" where
  "items_by_file order r = by_file order (\<lambda>i is. is @ [i]) [] r"

text \<open>One anchor of \<open>add_hit_map\<close>: \<open>None\<close> when it refers to an item that does not exist, or the
  counter of the item overflows.\<close>

definition add_anchor_hits ::
    "'v \<Rightarrow> HitMap \<Rightarrow> ItemAnchor \<Rightarrow> ('v, SourceAnalysis) hmap \<Rightarrow> ('v, SourceAnalysis) hmap option" where
  "add_anchor_hits v hm anchor as =
     (case hitmap_get hm (instruction anchor) of
        None \<Rightarrow> Some as
      | Some n \<Rightarrow> do {
          a \<leftarrow> hm_get as v;
          i \<leftarrow> analysis_get a (item_id anchor);
          total \<leftarrow> checked_add (hits i) n;
          Some (hm_insert v (a\<lparr>all_items := (all_items a)[unat (item_id anchor) := i\<lparr>hits := total\<rparr>]\<rparr>) as)
        })"

fun add_anchors_hits ::
    "'v \<Rightarrow> HitMap \<Rightarrow> ItemAnchor list \<Rightarrow> ('v, SourceAnalysis) hmap \<Rightarrow> ('v, SourceAnalysis) hmap option" where
  "add_anchors_hits v hm [] as = Some as"
| "add_anchors_hits v hm (anchor # rest) as = do {
     as' \<leftarrow> add_anchor_hits v hm anchor as;
     add_anchors_hits v hm rest as'
   }"

definition add_hit_map ::
    "((u32 \<times> u32) list \<Rightarrow> (u32 \<times> u32) list) \<Rightarrow> 'v ContractId \<Rightarrow> HitMap \<Rightarrow> bool \<Rightarrow>
     ('v, 'p, 'm) CoverageReport \<Rightarrow> ('v, 'p, 'm) CoverageReport option" where
  "add_hit_map order cid hm is_deployed_code r = do {
     merged \<leftarrow> (case hm_get (bytecode_hits r) cid of None \<Rightarrow> Some hm | Some m \<Rightarrow> hitmap_merge order m hm);
     let r = r\<lparr>bytecode_hits := hm_insert cid merged (bytecode_hits r)\<rparr>;
     case hm_get (anchors r) cid of
       None \<Rightarrow> Some r
     | Some as \<Rightarrow> do {
         items \<leftarrow> add_anchors_hits (version cid) hm (if is_deployed_code then snd as else fst as) (analyses r);
         Some (r\<lparr>analyses := items\<rparr>)
       }
   }"

definition retain_sources :: "('p \<Rightarrow> bool) \<Rightarrow> ('v, 'p, 'm) CoverageReport \<Rightarrow> ('v, 'p, 'm) CoverageReport" where
  "retain_sources predicate r = r\<lparr>analyses :=
     filter (\<lambda>(v, a). all_items a \<noteq> [])
       (map (\<lambda>(v, a). (v, a\<lparr>all_items := filter (\<lambda>i.
          case hm_get (source_paths r) (v, source_id (loc i)) of None \<Rightarrow> False | Some path \<Rightarrow> predicate path) (all_items a)\<rparr>))
         (analyses r))\<rparr>"

section \<open>The index finds the items of a source\<close>

definition items_below :: "nat \<Rightarrow> (nat \<times> CoverageItem list) list \<Rightarrow> CoverageItem list" where
  "items_below i ps = concat (map snd (filter (\<lambda>p. fst p < i) ps))"

definition items_of :: "nat \<Rightarrow> (nat \<times> CoverageItem list) list \<Rightarrow> CoverageItem list" where
  "items_of i ps = concat (map snd (filter (\<lambda>p. fst p = i) ps))"

definition items_above :: "nat \<Rightarrow> (nat \<times> CoverageItem list) list \<Rightarrow> CoverageItem list" where
  "items_above i ps = concat (map snd (filter (\<lambda>p. i < fst p) ps))"

lemma items_Cons:
  "items_below i (p # ps) = (if fst p < i then snd p else []) @ items_below i ps"
  "items_of i (p # ps) = (if fst p = i then snd p else []) @ items_of i ps"
  "items_above i (p # ps) = (if i < fst p then snd p else []) @ items_above i ps"
  by (simp_all add: items_below_def items_of_def items_above_def)

lemma concat_sorted_split:
  "sorted (map fst ps) \<Longrightarrow> concat (map snd ps) = items_below i ps @ items_of i ps @ items_above i ps"
proof (induction ps)
  case (Cons p ps)
  have empty: "items_below i ps = []" if "i \<le> fst p"
    using Cons.prems that by (auto simp: items_below_def)
  have empty': "items_of i ps = []" if "i < fst p"
    using Cons.prems that by (auto simp: items_of_def)
  consider "fst p < i" | "fst p = i" | "i < fst p" by linarith
  then show ?case
    by cases (use Cons empty empty' in \<open>simp_all add: items_Cons\<close>)
qed (simp add: items_below_def items_of_def items_above_def)

lemma items_of_snoc: "items_of i (ps @ [(j, is)]) = items_of i ps @ (if i = j then is else [])"
  by (simp add: items_of_def)

lemma items_below_snoc: "items_below i (ps @ [(j, is)]) = items_below i ps @ (if j < i then is else [])"
  by (simp add: items_below_def)

lemma items_below_all: "\<forall>p\<in>set ps. fst p < i \<Longrightarrow> items_below i ps = concat (map snd ps)"
  by (simp add: items_below_def)

lemma items_of_none: "i \<notin> fst ` set ps \<Longrightarrow> items_of i ps = []"
  by (induction ps) (auto simp: items_of_def)

text \<open>What the loop has written for source \<open>i\<close> when it has taken the pairs \<open>ps\<close>.\<close>

definition index_entry :: "(nat \<times> CoverageItem list) list \<Rightarrow> nat \<Rightarrow> u32 \<times> u32" where
  "index_entry ps i =
     (if i \<in> fst ` set ps then (word_of_nat (length (items_below i ps)), word_of_nat (length (items_of i ps)))
      else (- 1, 0))"

lemma word_of_nat_not_max: "n < 2 ^ 32 - 1 \<Longrightarrow> word_of_nat n \<noteq> (- 1 :: u32)"
proof
  assume n: "n < 2 ^ 32 - 1" and "word_of_nat n = (- 1 :: u32)"
  then have "unat (word_of_nat n :: u32) = 2 ^ 32 - 1" using unat_minus_one_eq [where 'a = 32] by simp
  moreover have "unat (word_of_nat n :: u32) = n" unfolding unat_of_nat using n by simp
  ultimately show False using n by linarith
qed

lemma unat_word_of_nat32: "n < 2 ^ 32 \<Longrightarrow> unat (word_of_nat n :: u32) = n"
  unfolding unat_of_nat by simp

lemma index_step:
  assumes sorted: "sorted (map fst (ps @ [(j, is)]))"
    and small: "length (concat (map snd (ps @ [(j, is)]))) < 2 ^ 32 - 1"
  shows "(let (start, n) = index_entry ps j;
              start = (if start = - 1 then word_of_nat (length (concat (map snd ps))) else start)
          in map_option (Pair start) (checked_add n (word_of_nat (length is)))) = Some (index_entry (ps @ [(j, is)]) j)"
proof -
  have le: "length (concat (map snd ps)) + length is < 2 ^ 32 - 1"
    using small by simp
  have split: "concat (map snd ps) = items_below j ps @ items_of j ps @ items_above j ps"
    using sorted by (intro concat_sorted_split) (simp add: sorted_append)
  have lens: "length (items_below j ps) + length (items_of j ps) + length is < 2 ^ 32 - 1"
    using le unfolding split length_append by linarith
  have add: "checked_add (word_of_nat a) (word_of_nat b) = Some (word_of_nat (a + b) :: u32)" if "a + b < 2 ^ 32 - 1" for a b
  proof -
    have "a < 2 ^ 32" "b < 2 ^ 32" "a + b < 2 ^ 32" using that by linarith+
    then show ?thesis by (simp add: checked_add_def unat_word_of_nat32)
  qed
  show ?thesis
  proof (cases "j \<in> fst ` set ps")
    case True
    have "word_of_nat (length (items_below j ps)) \<noteq> (- 1 :: u32)"
      by (rule word_of_nat_not_max) (use lens in linarith)
    moreover have "checked_add (word_of_nat (length (items_of j ps))) (word_of_nat (length is)) =
        Some (word_of_nat (length (items_of j ps) + length is) :: u32)"
      by (rule add) (use lens in linarith)
    ultimately show ?thesis
      using True by (simp add: index_entry_def items_of_snoc items_below_snoc)
  next
    case False
    have "\<forall>p\<in>set ps. fst p < j"
    proof
      fix p assume "p \<in> set ps"
      with sorted False have "fst p \<le> j" "fst p \<noteq> j" by (auto simp: sorted_append)
      then show "fst p < j" by simp
    qed
    moreover have "checked_add 0 (word_of_nat (length is)) = Some (word_of_nat (length is) :: u32)"
      using add [of 0 "length is"] lens by simp
    ultimately show ?thesis
      using False by (simp add: index_entry_def items_of_snoc items_below_snoc items_below_all items_of_none)
  qed
qed

lemma index_entry_other:
  "sorted (map fst (ps @ [(j, is)])) \<Longrightarrow> i \<noteq> j \<Longrightarrow> index_entry (ps @ [(j, is)]) i = index_entry ps i"
  by (auto simp: index_entry_def items_of_snoc items_below_snoc sorted_append)

lemma index_items_ok:
  "sorted (map fst (ps @ rest)) \<Longrightarrow> length (concat (map snd (ps @ rest))) < 2 ^ 32 - 1 \<Longrightarrow>
   \<forall>p\<in>set rest. fst p < len \<Longrightarrow>
   index_items rest (concat (map snd ps)) (map (index_entry ps) [0..<len]) =
     Some \<lparr>all_items = concat (map snd (ps @ rest)), source_index = map (index_entry (ps @ rest)) [0..<len]\<rparr>"
proof (induction rest arbitrary: ps)
  case (Cons p rest)
  obtain j "is" where p: "p = (j, is)" by (cases p)
  have sorted: "sorted (map fst (ps @ [(j, is)]))" using Cons.prems(1) p by (simp add: sorted_append)
  have "length (concat (map snd (ps @ [(j, is)]))) \<le> length (concat (map snd (ps @ p # rest)))"
    by (simp add: p)
  then have small: "length (concat (map snd (ps @ [(j, is)]))) < 2 ^ 32 - 1"
    using Cons.prems(2) by (rule le_less_trans)
  have j: "j < len" using Cons.prems(3) p by simp
  have upd: "(map (index_entry ps) [0..<len])[j := index_entry (ps @ [(j, is)]) j] =
      map (index_entry (ps @ [(j, is)])) [0..<len]"
    using j index_entry_other [OF sorted] by (intro nth_equalityI) (auto simp: nth_list_update)
  obtain start n where e: "index_entry ps j = (start, n)" by (cases "index_entry ps j")
  let ?start = "if start = - 1 then word_of_nat (length (concat (map snd ps))) else start"
  obtain n' where n': "checked_add n (word_of_nat (length is)) = Some n'"
    and new: "index_entry (ps @ [(j, is)]) j = (?start, n')"
    using index_step [OF sorted small] unfolding e by (auto simp: Let_def)
  have "index_items (p # rest) (concat (map snd ps)) (map (index_entry ps) [0..<len]) =
      index_items rest (concat (map snd ps) @ is) ((map (index_entry ps) [0..<len])[j := (?start, n')])"
    using j by (simp add: p e n' Let_def)
  also have "\<dots> = index_items rest (concat (map snd (ps @ [(j, is)]))) (map (index_entry (ps @ [(j, is)])) [0..<len])"
    unfolding new [symmetric] upd by simp
  also have "\<dots> = Some \<lparr>all_items = concat (map snd ((ps @ [(j, is)]) @ rest)),
      source_index = map (index_entry ((ps @ [(j, is)]) @ rest)) [0..<len]\<rparr>"
    by (rule Cons.IH) (use Cons.prems p in \<open>simp_all\<close>)
  finally show ?case by (simp add: p)
qed simp

lemma sorted_sort_sourced: "sorted (map fst (sort_sourced sourced))"
proof -
  let ?key = "\<lambda>(i, is). (i :: nat, map_option (\<lambda>i. fst (loc_bytes (loc i))) (case is of [] \<Rightarrow> None | i # _ \<Rightarrow> Some i))"
  have "sorted (map ?key (sort_sourced sourced))" unfolding sort_sourced_def by (rule sorted_sort_key)
  then have "sorted_wrt (\<lambda>x y. ?key x \<le> ?key y) (sort_sourced sourced)" by (simp add: sorted_map)
  then have "sorted_wrt (\<lambda>x y. fst x \<le> fst y) (sort_sourced sourced)"
    by (rule sorted_wrt_mono_rel [rotated]) (auto simp: less_eq_prod_def split: prod.splits)
  then show ?thesis by (simp add: sorted_map)
qed

lemma mset_concat_snd: "mset (concat (map snd ps)) = \<Sum>\<^sub># (image_mset (\<lambda>p. mset (snd p)) (mset ps))"
  by (induction ps) simp_all

lemma mset_sort_sourced: "mset (sort_sourced sourced) = mset sourced"
  by (simp add: sort_sourced_def)

lemma items_of_sort_sourced: "mset (items_of i (sort_sourced sourced)) = mset (items_of i sourced)"
  unfolding items_of_def mset_concat_snd mset_filter mset_sort_sourced ..

lemma length_sort_sourced: "length (concat (map snd (sort_sourced sourced))) = length (concat (map snd sourced))"
  unfolding size_mset [symmetric] mset_concat_snd mset_sort_sourced ..

lemma new_SourceAnalysis_index:
  assumes "length (concat (map snd sourced)) < 2 ^ 32 - 1"
  shows "\<exists>a len. new_SourceAnalysis sourced = Some a \<and> all_items a = concat (map snd (sort_sourced sourced)) \<and>
    source_index a = map (index_entry (sort_sourced sourced)) [0..<len] \<and>
    (\<forall>p\<in>set (sort_sourced sourced). fst p < len)"
proof (cases "sort_sourced sourced = []")
  case True
  then show ?thesis by (intro exI [of _ "\<lparr>all_items = [], source_index = []\<rparr>"] exI [of _ 0]) (simp add: new_SourceAnalysis_def Let_def)
next
  case False
  let ?ps = "sort_sourced sourced" and ?len = "fst (last (sort_sourced sourced)) + 1"
  have bound: "\<forall>p\<in>set ?ps. fst p < ?len"
  proof
    fix p assume "p \<in> set ?ps"
    then obtain k where k: "k < length ?ps" "p = ?ps ! k" by (auto simp: in_set_conv_nth)
    have "map fst ?ps ! k \<le> map fst ?ps ! (length ?ps - 1)"
      by (rule sorted_nth_mono [OF sorted_sort_sourced]) (use k in auto)
    with k False show "fst p < ?len" by (simp add: last_conv_nth)
  qed
  have "index_items ?ps [] (replicate ?len (- 1, 0)) =
      Some \<lparr>all_items = concat (map snd ?ps), source_index = map (index_entry ?ps) [0..<?len]\<rparr>"
  proof -
    have "map (index_entry []) [0..<?len] = replicate ?len (- 1, 0)"
      by (rule nth_equalityI) (simp_all add: index_entry_def del: upt_Suc replicate_Suc)
    moreover have "length (concat (map snd ?ps)) < 2 ^ 32 - 1"
      using assms unfolding length_sort_sourced .
    ultimately show ?thesis
      using index_items_ok [of "[]" ?ps ?len] sorted_sort_sourced bound
      by (simp only: append_Nil list.map concat.simps simp_thms)
  qed
  with False bound show ?thesis
    by (intro exI [of _ "\<lparr>all_items = concat (map snd ?ps), source_index = map (index_entry ?ps) [0..<?len]\<rparr>"]
        exI [of _ ?len]) (simp add: new_SourceAnalysis_def Let_def)
qed

text \<open>The slice of the items that the index names is the items of the source.\<close>

lemma items_for_source_ok:
  assumes all: "all_items a = concat (map snd ps)" and idx: "source_index a = map (index_entry ps) [0..<len]"
    and sorted: "sorted (map fst ps)" and small: "length (concat (map snd ps)) < 2 ^ 32 - 1"
    and len: "\<forall>p\<in>set ps. fst p < len"
  shows "\<exists>base. items_for_source a sid = Some (base, items_of (unat sid) ps) \<and>
    (\<forall>k < length (items_of (unat sid) ps). unat base + k < length (all_items a) \<and>
       all_items a ! (unat base + k) = items_of (unat sid) ps ! k)"
proof (cases "unat sid \<in> fst ` set ps")
  case True
  let ?i = "unat sid"
  have split: "concat (map snd ps) = items_below ?i ps @ items_of ?i ps @ items_above ?i ps"
    by (rule concat_sorted_split [OF sorted])
  have lens: "length (items_below ?i ps) + length (items_of ?i ps) < 2 ^ 32 - 1"
    using small unfolding split length_append by linarith
  have un: "unat (word_of_nat (length (items_below ?i ps)) :: u32) = length (items_below ?i ps)"
    "unat (word_of_nat (length (items_of ?i ps)) :: u32) = length (items_of ?i ps)"
    by (rule unat_word_of_nat32, use lens in linarith)+
  have ne: "word_of_nat (length (items_below ?i ps)) \<noteq> (- 1 :: u32)"
    by (rule word_of_nat_not_max) (use lens in linarith)
  have entry: "source_index a ! ?i = (word_of_nat (length (items_below ?i ps)), word_of_nat (length (items_of ?i ps)))"
    "?i < length (source_index a)"
  proof -
    have "?i < len" using True len by auto
    with True idx show "source_index a ! ?i = (word_of_nat (length (items_below ?i ps)), word_of_nat (length (items_of ?i ps)))"
      and "?i < length (source_index a)" by (simp_all add: index_entry_def)
  qed
  have "items_for_source a sid = Some (word_of_nat (length (items_below ?i ps)), items_of ?i ps)"
    using ne by (simp add: items_for_source_def entry Let_def un all split)
  with un show ?thesis by (auto simp: all split nth_append)
next
  case False
  then have none: "items_of (unat sid) ps = []" by (rule items_of_none)
  have "(if unat sid < length (source_index a) then source_index a ! unat sid else (0, 0)) \<in> {(- 1, 0), (0, 0)}"
    using False by (simp add: idx index_entry_def)
  then have "items_for_source a sid = Some (0, [])" by (auto simp: items_for_source_def)
  with none show ?thesis by simp
qed

text \<open>C31. The index of the coverage items is correct: for any number of contracts whose items fit
  32-bit ids, building it does not panic, and asking it for a source returns exactly the items of
  that source (every contract of the source, every item once) with a base id from which \<open>get\<close> finds
  each of them again, for every source id, known or not.\<close>

theorem analysis_finds_items:
  assumes "length (concat (map snd sourced)) < 2 ^ 32 - 1"
  shows "\<exists>a. new_SourceAnalysis sourced = Some a \<and>
    (\<forall>sid. \<exists>base is. items_for_source a sid = Some (base, is) \<and>
       mset is = mset (concat (map snd (filter (\<lambda>p. fst p = unat sid) sourced))) \<and>
       (\<forall>k < length is. analysis_get a (word_of_nat (unat base + k)) = Some (is ! k)))"
proof -
  let ?ps = "sort_sourced sourced"
  obtain a len where a: "new_SourceAnalysis sourced = Some a" and all: "all_items a = concat (map snd ?ps)"
    and idx: "source_index a = map (index_entry ?ps) [0..<len]" and len: "\<forall>p\<in>set ?ps. fst p < len"
    using new_SourceAnalysis_index [OF assms] by (elim exE conjE)
  have small: "length (concat (map snd ?ps)) < 2 ^ 32 - 1" using assms by (simp only: length_sort_sourced)
  have "\<exists>base is. items_for_source a sid = Some (base, is) \<and> mset is = mset (items_of (unat sid) sourced) \<and>
      (\<forall>k < length is. analysis_get a (word_of_nat (unat base + k)) = Some (is ! k))" for sid
  proof -
    obtain base where base: "items_for_source a sid = Some (base, items_of (unat sid) ?ps)"
      and at: "\<forall>k < length (items_of (unat sid) ?ps). unat base + k < length (all_items a) \<and>
        all_items a ! (unat base + k) = items_of (unat sid) ?ps ! k"
      using items_for_source_ok [OF all idx sorted_sort_sourced small len, of sid] by (elim exE conjE)
    have "analysis_get a (word_of_nat (unat base + k)) = Some (items_of (unat sid) ?ps ! k)"
      if "k < length (items_of (unat sid) ?ps)" for k
    proof -
      have k: "unat base + k < length (all_items a)" "all_items a ! (unat base + k) = items_of (unat sid) ?ps ! k"
        using at that by blast+
      then have "unat base + k < 2 ^ 32" using small unfolding all by linarith
      then show ?thesis using k by (simp only: analysis_get_def unat_word_of_nat32 if_True)
    qed
    with base items_of_sort_sourced [of "unat sid" sourced] show ?thesis
      by (intro exI [of _ base] exI [of _ "items_of (unat sid) ?ps"]) simp
  qed
  with a show ?thesis unfolding items_of_def by blast
qed

definition sample_item :: "CoverageItemKind \<Rightarrow> nat \<Rightarrow> u32 \<Rightarrow> CoverageItem" where
  "sample_item k sid start = \<lparr>kind = k,
     loc = \<lparr>source_id = sid, contract_name = ''C'', loc_bytes = (start, start + 4), loc_lines = (1, 2)\<rparr>, hits = 0\<rparr>"

definition sample_sourced :: "(nat \<times> CoverageItem list) list" where
  "sample_sourced = [(2, [sample_item Line 2 40]), (0, [sample_item (Function ''f'') 0 3, sample_item Line 0 5]), (2, [sample_item Statement 2 7])]"

theorem analysis_finds_items_witness:
  "\<exists>a. new_SourceAnalysis sample_sourced = Some a \<and>
    (\<exists>base is. items_for_source a 2 = Some (base, is) \<and> mset is = {#sample_item Line 2 40, sample_item Statement 2 7#})"
proof -
  have "length (concat (map snd sample_sourced)) < 2 ^ 32 - 1" by (simp add: sample_sourced_def)
  from analysis_finds_items [OF this] obtain a where a: "new_SourceAnalysis sample_sourced = Some a"
    and at: "\<forall>sid. \<exists>base is. items_for_source a sid = Some (base, is) \<and>
       mset is = mset (concat (map snd (filter (\<lambda>p. fst p = unat sid) sample_sourced))) \<and>
       (\<forall>k < length is. analysis_get a (word_of_nat (unat base + k)) = Some (is ! k))"
    by (elim exE conjE)
  from at [rule_format, of 2] obtain base "is" where "items_for_source a 2 = Some (base, is)"
    "mset is = mset (concat (map snd (filter (\<lambda>p. fst p = unat (2 :: u32)) sample_sourced)))"
    by (elim exE conjE)
  with a show ?thesis by (simp add: sample_sourced_def)
qed

section \<open>Hits of the items\<close>

definition anchor_hits :: "HitMap \<Rightarrow> ItemAnchor list \<Rightarrow> nat \<Rightarrow> nat" where
  "anchor_hits hm as k =
     (\<Sum>anchor\<leftarrow>as. if unat (item_id anchor) = k then unat (count_at (hit_counts hm) (instruction anchor)) else 0)"

definition items_at :: "('v, SourceAnalysis) hmap \<Rightarrow> 'v \<Rightarrow> CoverageItem list" where
  "items_at as v = (case hm_get as v of None \<Rightarrow> [] | Some a \<Rightarrow> all_items a)"

definition unhit :: "CoverageItem \<Rightarrow> CoverageItem" where
  "unhit i = i\<lparr>hits := 0\<rparr>"

lemma hitmap_get_conv:
  "hitmap_get hm pc = None \<Longrightarrow> unat (count_at (hit_counts hm) pc) = 0"
  "hitmap_get hm pc = Some n \<Longrightarrow> n = count_at (hit_counts hm) pc"
  by (auto simp: hitmap_get_def Let_def split: if_splits)

lemma add_anchor_hits_ok:
  assumes "add_anchor_hits v hm anchor as = Some as'"
  shows "map unhit (items_at as' w) = map unhit (items_at as w) \<and>
    (\<forall>k < length (items_at as w). unat (hits (items_at as' w ! k)) =
       unat (hits (items_at as w ! k)) + (if w = v then anchor_hits hm [anchor] k else 0))"
proof (cases "hitmap_get hm (instruction anchor)")
  case None
  with assms hitmap_get_conv(1) [OF None] show ?thesis by (simp add: add_anchor_hits_def anchor_hits_def)
next
  case (Some n)
  from assms obtain a i t where a: "hm_get as v = Some a" and i: "analysis_get a (item_id anchor) = Some i"
    and t: "checked_add (hits i) n = Some t"
    and as': "as' = hm_insert v (a\<lparr>all_items := (all_items a)[unat (item_id anchor) := i\<lparr>hits := t\<rparr>]\<rparr>) as"
    by (auto simp: add_anchor_hits_def Some bind_eq_Some_conv)
  from i have k: "unat (item_id anchor) < length (all_items a)" "all_items a ! unat (item_id anchor) = i"
    by (auto simp: analysis_get_def split: if_splits)
  show ?thesis
  proof (cases "w = v")
    case True
    have new: "items_at as' w = (all_items a)[unat (item_id anchor) := i\<lparr>hits := t\<rparr>]" and old: "items_at as w = all_items a"
      by (simp_all add: items_at_def as' True a cont_simps)
    have "map unhit (items_at as' w) = map unhit (items_at as w)"
      unfolding new old using k by (intro nth_equalityI) (auto simp: nth_list_update unhit_def)
    moreover have "unat (hits (items_at as' w ! j)) = unat (hits (items_at as w ! j)) + anchor_hits hm [anchor] j"
      if "j < length (items_at as w)" for j
      using that k unat_checked_add [OF t] hitmap_get_conv(2) [OF Some]
      unfolding new old by (auto simp: nth_list_update anchor_hits_def)
    ultimately show ?thesis using True by simp
  next
    case False
    then show ?thesis by (simp add: items_at_def as' cont_simps)
  qed
qed

lemma anchor_hits_Cons: "anchor_hits hm (anchor # as) k = anchor_hits hm [anchor] k + anchor_hits hm as k"
  by (simp add: anchor_hits_def)

lemma add_anchors_hits_ok:
  "add_anchors_hits v hm as m = Some m' \<Longrightarrow>
   map unhit (items_at m' w) = map unhit (items_at m w) \<and>
   (\<forall>k < length (items_at m w). unat (hits (items_at m' w ! k)) =
      unat (hits (items_at m w ! k)) + (if w = v then anchor_hits hm as k else 0))"
proof (induction as arbitrary: m)
  case Nil
  then show ?case by (simp add: anchor_hits_def)
next
  case (Cons anchor as)
  from Cons.prems obtain m1 where m1: "add_anchor_hits v hm anchor m = Some m1"
    and rest: "add_anchors_hits v hm as m1 = Some m'"
    by (auto simp: bind_eq_Some_conv)
  note one = add_anchor_hits_ok [OF m1, of w] and more = Cons.IH [OF rest]
  from one have "length (items_at m1 w) = length (items_at m w)" by (metis length_map)
  with one more show ?case by (simp add: anchor_hits_Cons [of hm anchor as])
qed

text \<open>Where every anchor names an item and the sums fit, the hits are added.\<close>

lemma add_anchor_hits_total:
  assumes "unat (item_id anchor) < length (items_at as v)"
    and "unat (hits (items_at as v ! unat (item_id anchor))) + anchor_hits hm [anchor] (unat (item_id anchor)) < 2 ^ 32"
  shows "\<exists>as'. add_anchor_hits v hm anchor as = Some as'"
proof (cases "hitmap_get hm (instruction anchor)")
  case None
  then show ?thesis by (simp add: add_anchor_hits_def)
next
  case (Some n)
  from assms(1) obtain a where a: "hm_get as v = Some a" by (cases "hm_get as v") (auto simp: items_at_def)
  have "unat (hits (all_items a ! unat (item_id anchor))) + unat n < 2 ^ 32"
    using assms(2) hitmap_get_conv(2) [OF Some] by (simp add: a items_at_def anchor_hits_def)
  moreover have "analysis_get a (item_id anchor) = Some (all_items a ! unat (item_id anchor))"
    using assms(1) by (simp add: a items_at_def analysis_get_def)
  ultimately show ?thesis using a by (simp add: add_anchor_hits_def Some checked_add_def)
qed

lemma add_anchors_hits_total:
  "\<forall>anchor\<in>set as. unat (item_id anchor) < length (items_at m v) \<Longrightarrow>
   \<forall>k < length (items_at m v). unat (hits (items_at m v ! k)) + anchor_hits hm as k < 2 ^ 32 \<Longrightarrow>
   \<exists>m'. add_anchors_hits v hm as m = Some m'"
proof (induction as arbitrary: m)
  case (Cons anchor as)
  have k: "unat (item_id anchor) < length (items_at m v)" using Cons.prems(1) by simp
  have room: "unat (hits (items_at m v ! j)) + anchor_hits hm [anchor] j + anchor_hits hm as j < 2 ^ 32"
    if "j < length (items_at m v)" for j
    using Cons.prems(2) [rule_format, OF that] unfolding anchor_hits_Cons [of hm anchor as] by linarith
  obtain m1 where m1: "add_anchor_hits v hm anchor m = Some m1"
    using add_anchor_hits_total [OF k] room [OF k] by (meson add_lessD1)
  note one = add_anchor_hits_ok [OF m1, of v]
  from one have len: "length (items_at m1 v) = length (items_at m v)" by (metis length_map)
  have "\<exists>m'. add_anchors_hits v hm as m1 = Some m'"
    by (rule Cons.IH) (use Cons.prems(1) one len room in simp_all)
  with m1 show ?case by simp
qed simp

definition code_hits :: "('v, 'p, 'm) CoverageReport \<Rightarrow> 'v ContractId \<Rightarrow> u32 \<Rightarrow> nat" where
  "code_hits r cid pc =
     (case hm_get (bytecode_hits r) cid of None \<Rightarrow> 0 | Some m \<Rightarrow> unat (count_at (hit_counts m) pc))"

lemma bytecode_hits_ok:
  assumes "hash_order order" and "distinct (hm_keys (hit_counts hm))"
    and "\<forall>pc. code_hits r cid pc + unat (count_at (hit_counts hm) pc) < 2 ^ 32"
  shows "\<exists>merged. (case hm_get (bytecode_hits r) cid of None \<Rightarrow> Some hm | Some m \<Rightarrow> hitmap_merge order m hm) = Some merged \<and>
    (\<forall>pc. unat (count_at (hit_counts merged) pc) = code_hits r cid pc + unat (count_at (hit_counts hm) pc))"
proof (cases "hm_get (bytecode_hits r) cid")
  case None
  then show ?thesis by (simp add: code_hits_def)
next
  case (Some m)
  then obtain merged where "hitmap_merge order m hm = Some merged"
    using hitmap_merge_total [OF assms(1,2), of m] assms(3) by (auto simp: code_hits_def)
  with hitmap_merge_count [OF assms(1,2) this] Some show ?thesis by (simp add: code_hits_def)
qed

text \<open>Processing the hit map of a contract adds its counters to the contract's bytecode hits and,
  to each coverage item of the contract's compiler version, the hits of all anchors of that item
  (those of the runtime code or of the creation code, as asked), and changes nothing else of any item;
  when every anchor names an item and the sums fit the counters, it does not panic.\<close>

theorem add_hit_map_items:
  assumes order: "hash_order order" and keys: "distinct (hm_keys (hit_counts hm))"
    and anc: "hm_get (anchors r) cid = Some (creation, runtime)"
    and code: "\<forall>pc. code_hits r cid pc + unat (count_at (hit_counts hm) pc) < 2 ^ 32"
    and ids: "\<forall>anchor\<in>set (if is_deployed then runtime else creation).
      unat (item_id anchor) < length (items_at (analyses r) (version cid))"
    and fits: "\<forall>k < length (items_at (analyses r) (version cid)).
      unat (hits (items_at (analyses r) (version cid) ! k)) +
        anchor_hits hm (if is_deployed then runtime else creation) k < 2 ^ 32"
  shows "\<exists>r'. add_hit_map order cid hm is_deployed r = Some r' \<and>
    (\<forall>pc. code_hits r' cid pc = code_hits r cid pc + unat (count_at (hit_counts hm) pc)) \<and>
    (\<forall>v. map unhit (items_at (analyses r') v) = map unhit (items_at (analyses r) v) \<and>
      (\<forall>k < length (items_at (analyses r) v). unat (hits (items_at (analyses r') v ! k)) =
         unat (hits (items_at (analyses r) v ! k)) +
         (if v = version cid then anchor_hits hm (if is_deployed then runtime else creation) k else 0)))"
proof -
  let ?as = "if is_deployed then runtime else creation"
  obtain m' where m': "add_anchors_hits (version cid) hm ?as (analyses r) = Some m'"
    using add_anchors_hits_total [OF ids fits] by (elim exE)
  obtain merged where merged: "(case hm_get (bytecode_hits r) cid of None \<Rightarrow> Some hm | Some m \<Rightarrow> hitmap_merge order m hm) = Some merged"
    and counts: "\<forall>pc. unat (count_at (hit_counts merged) pc) = code_hits r cid pc + unat (count_at (hit_counts hm) pc)"
    using bytecode_hits_ok [OF order keys code] by (elim exE conjE)
  have "add_hit_map order cid hm is_deployed r =
      Some (r\<lparr>bytecode_hits := hm_insert cid merged (bytecode_hits r), analyses := m'\<rparr>)"
    unfolding add_hit_map_def merged using anc m' by (cases is_deployed) (simp_all add: Let_def)
  moreover have "\<forall>pc. code_hits (r\<lparr>bytecode_hits := hm_insert cid merged (bytecode_hits r), analyses := m'\<rparr>) cid pc =
      code_hits r cid pc + unat (count_at (hit_counts hm) pc)"
    using counts by (simp add: code_hits_def cont_simps)
  ultimately show ?thesis using add_anchors_hits_ok [OF m'] by simp
qed

definition sample_report :: "(nat, nat, unit) CoverageReport" where
  "sample_report = new_CoverageReport\<lparr>
     source_paths := [((8, 0), 70)], source_paths_to_ids := [((8, 70), 0)],
     analyses := [(8, \<lparr>all_items = [sample_item Line 0 3, sample_item Statement 0 5], source_index = [(0, 2)]\<rparr>)],
     anchors := [(\<lparr>version = 8, cid_source_id = 0, cid_contract_name = ''C''\<rparr>,
       ([], [\<lparr>instruction = 4, item_id = 1\<rparr>, \<lparr>instruction = 6, item_id = 0\<rparr>, \<lparr>instruction = 9, item_id = 1\<rparr>]))]\<rparr>"

theorem add_hit_map_items_witness:
  "\<exists>r'. add_hit_map insertion_order \<lparr>version = 8, cid_source_id = 0, cid_contract_name = ''C''\<rparr>
       \<lparr>bytecode = [], hit_counts = [(4, 2), (9, 3)]\<rparr> True sample_report = Some r' \<and>
     unat (hits (items_at (analyses r') 8 ! 1)) = 5"
proof -
  let ?cid = "\<lparr>version = 8 :: nat, cid_source_id = 0, cid_contract_name = ''C''\<rparr>"
  let ?hm = "\<lparr>bytecode = [], hit_counts = [(4, 2), (9, 3)]\<rparr>"
  let ?run = "[\<lparr>instruction = 4, item_id = 1\<rparr>, \<lparr>instruction = 6, item_id = 0\<rparr>, \<lparr>instruction = 9, item_id = 1\<rparr>]"
  have keys: "distinct (hm_keys (hit_counts ?hm))" by code_simp
  have anc: "hm_get (anchors sample_report) ?cid = Some ([], ?run)" by code_simp
  have code: "\<forall>pc. code_hits sample_report ?cid pc + unat (count_at (hit_counts ?hm) pc) < 2 ^ 32"
    by (simp add: code_hits_def sample_report_def new_CoverageReport_def count_at_def)
  have len: "length (items_at (analyses sample_report) (version ?cid)) = 2"
    by (simp add: items_at_def sample_report_def)
  have ids: "\<forall>anchor\<in>set (if True then ?run else []).
      unat (item_id anchor) < length (items_at (analyses sample_report) (version ?cid))"
    unfolding len by simp
  have sums: "anchor_hits ?hm ?run 0 = 0" "anchor_hits ?hm ?run 1 = 5" by code_simp+
  have old: "unat (hits (items_at (analyses sample_report) (version ?cid) ! k)) = 0" if "k < 2" for k
    using that by (auto simp: items_at_def sample_report_def sample_item_def less_2_cases_iff)
  have fits: "\<forall>k < length (items_at (analyses sample_report) (version ?cid)).
      unat (hits (items_at (analyses sample_report) (version ?cid) ! k)) +
        anchor_hits ?hm (if True then ?run else []) k < 2 ^ 32"
    unfolding len using old sums by (auto simp: less_2_cases_iff)
  from add_hit_map_items [OF insertion.hash_order_axioms keys anc code ids fits] obtain r' where
    r': "add_hit_map insertion_order ?cid ?hm True sample_report = Some r'"
    and at: "\<forall>v. map unhit (items_at (analyses r') v) = map unhit (items_at (analyses sample_report) v) \<and>
      (\<forall>k < length (items_at (analyses sample_report) v). unat (hits (items_at (analyses r') v ! k)) =
         unat (hits (items_at (analyses sample_report) v ! k)) +
         (if v = version ?cid then anchor_hits ?hm (if True then ?run else []) k else 0))"
    by (elim exE conjE)
  from at [rule_format, of 8, THEN conjunct2, rule_format, of 1] len old [of 1] sums
  have "unat (hits (items_at (analyses r') 8 ! 1)) = 5" by simp
  with r' show ?thesis by (intro exI conjI)
qed

section \<open>Summaries\<close>

text \<open>Each field of a summary counts: it is zero at the start, and merging adds it.\<close>

definition additive :: "(CoverageSummary \<Rightarrow> nat) \<Rightarrow> bool" where
  "additive f \<longleftrightarrow> f new_CoverageSummary = 0 \<and> (\<forall>s t. f (summary_merge s t) = f s + f t) \<and>
     (\<forall>i s. f (add_item i s) = f s + f (add_item i new_CoverageSummary))"

lemma add_item_fields:
  "line_count (add_item i s) = line_count s + (if kind i = Line then 1 else 0)"
  "line_hits (add_item i s) = line_hits s + (if kind i = Line \<and> hits i > 0 then 1 else 0)"
  "statement_count (add_item i s) = statement_count s + (if kind i = Statement then 1 else 0)"
  "statement_hits (add_item i s) = statement_hits s + (if kind i = Statement \<and> hits i > 0 then 1 else 0)"
  "branch_count (add_item i s) = branch_count s + (if is_Branch (kind i) then 1 else 0)"
  "branch_hits (add_item i s) = branch_hits s + (if is_Branch (kind i) \<and> hits i > 0 then 1 else 0)"
  "function_count (add_item i s) = function_count s + (if is_Function (kind i) then 1 else 0)"
  "function_hits (add_item i s) = function_hits s + (if is_Function (kind i) \<and> hits i > 0 then 1 else 0)"
  by (cases "kind i"; simp add: add_item_def Let_def)+

lemma additive_fields:
  "additive line_count" "additive line_hits" "additive statement_count" "additive statement_hits"
  "additive branch_count" "additive branch_hits" "additive function_count" "additive function_hits"
  by (simp_all add: additive_def add_item_fields) (simp_all add: new_CoverageSummary_def summary_merge_def)

lemma additive_zero: "additive f \<Longrightarrow> f new_CoverageSummary = 0"
  unfolding additive_def by blast

lemma summary_eqI: "(\<And>f. additive f \<Longrightarrow> f s = f t) \<Longrightarrow> s = t"
  by (rule CoverageSummary.equality) (simp_all add: additive_fields)

lemma additive_add_items:
  "additive f \<Longrightarrow> f (add_items is s) = f s + (\<Sum>i\<leftarrow>is. f (add_item i new_CoverageSummary))"
  unfolding add_items_def
proof (induction "is" arbitrary: s)
  case (Cons i "is")
  from Cons.prems have "f (add_item i s) = f s + f (add_item i new_CoverageSummary)"
    unfolding additive_def by blast
  with Cons.IH [OF Cons.prems, of "add_item i s"] show ?case by (simp only: fold_simps list.map sum_list.Cons add.assoc)
qed simp

lemma additive_from_items: "additive f \<Longrightarrow> f (from_items is) = (\<Sum>i\<leftarrow>is. f (add_item i new_CoverageSummary))"
  unfolding from_items_def by (subst additive_add_items) (simp_all add: additive_zero)

text \<open>Updating one entry of a map changes the sum over its values by the change of that entry.\<close>

lemma sum_hm_insert:
  fixes g :: "'b \<Rightarrow> nat"
  assumes "distinct (map fst m)" and "g v = (case hm_get m k of None \<Rightarrow> 0 | Some t \<Rightarrow> g t) + d"
  shows "(\<Sum>p\<leftarrow>hm_insert k v m. g (snd p)) = (\<Sum>p\<leftarrow>m. g (snd p)) + d"
  using assms
proof (induction m)
  case (Cons p m)
  show ?case
  proof (cases "fst p = k")
    case True
    with Cons.prems show ?thesis by (cases p) simp
  next
    case False
    with Cons show ?thesis by (cases p) simp
  qed
qed simp

lemma sum_list_sort_key: "(\<Sum>p\<leftarrow>sort_key k xs. g p) = (\<Sum>p\<leftarrow>xs. g p :: nat)"
proof -
  have "sum_mset (mset (map g (sort_key k xs))) = sum_mset (mset (map g xs))" by simp
  then show ?thesis unfolding sum_mset_sum_list .
qed

text \<open>The report: every file's row merged into the total (\<open>CoverageSummaryReporter::report\<close>).\<close>

definition summary_rows ::
    "(('v \<times> SourceAnalysis) list \<Rightarrow> ('v \<times> SourceAnalysis) list) \<Rightarrow> CoverageSummary \<Rightarrow> ('v, 'p::linorder, 'm) CoverageReport \<Rightarrow>
     ('p option \<times> CoverageSummary) list \<times> CoverageSummary" where
  "summary_rows order start r =
     (let (rows, end_total) = fold (\<lambda>(path, summary) (rows, t). (rows @ [(Some path, summary)], summary_merge t summary))
        (summary_by_file order r) ([], start)
      in (rows @ [(None, end_total)], end_total))"

definition file_step :: "(CoverageItem \<Rightarrow> 't \<Rightarrow> 't) \<Rightarrow> 't \<Rightarrow> ('p \<times> CoverageItem) \<Rightarrow> ('p, 't) hmap \<Rightarrow> ('p, 't) hmap" where
  "file_step f d = (\<lambda>(path, i) m. hm_insert path (f i (case hm_get m path of None \<Rightarrow> d | Some t \<Rightarrow> t)) m)"

lemma by_file_fold: "by_file order f d r = sort_key fst (fold (file_step f d) (located_items order r) [])"
  by (simp add: by_file_def file_step_def)

lemma file_step_pair:
  "file_step f d (path, i) m = hm_insert path (f i (case hm_get m path of None \<Rightarrow> d | Some t \<Rightarrow> t)) m"
  by (simp add: file_step_def)

lemma distinct_file_fold: "distinct (map fst m) \<Longrightarrow> distinct (map fst (fold (file_step f d) xs m))"
  by (induction xs arbitrary: m) (simp_all add: file_step_def distinct_update split_beta)

lemma get_file_fold:
  "hm_get (fold (file_step f d) xs m) p =
     (if p \<in> fst ` set xs \<or> hm_get m p \<noteq> None
      then Some (fold f (map snd (filter (\<lambda>x. fst x = p) xs)) (case hm_get m p of None \<Rightarrow> d | Some t \<Rightarrow> t)) else None)"
proof (induction xs arbitrary: m)
  case (Cons x xs)
  obtain q i where x: "x = (q, i)" by (cases x)
  show ?case
    by (cases "q = p") (simp_all add: Cons.IH x file_step_pair cont_simps)
qed (simp split: option.splits)

lemma map_of_sort_key: "distinct (map fst m) \<Longrightarrow> map_of (sort_key g m) = map_of m"
proof -
  assume "distinct (map fst m)"
  moreover from this have "distinct (map fst (sort_key g m))"
    by (metis mset_eq_imp_distinct_iff mset_map mset_sort)
  ultimately show ?thesis by (intro map_of_inject_set [THEN iffD2]) simp_all
qed

text \<open>Every file appears once, in the order of the paths, with its items folded in the order in
  which they were found.\<close>

lemma by_file_get:
  "hm_get (by_file order f d r) p =
     (if p \<in> fst ` set (located_items order r)
      then Some (fold f (map snd (filter (\<lambda>x. fst x = p) (located_items order r))) d) else None)"
  unfolding by_file_fold by (subst map_of_sort_key) (simp_all add: distinct_file_fold get_file_fold)

lemma by_file_keys: "sorted (map fst (by_file order f d r)) \<and> distinct (map fst (by_file order f d r))"
proof -
  have "mset (map fst (by_file order f d r)) = mset (map fst (fold (file_step f d) (located_items order r) []))"
    by (simp add: by_file_fold)
  from mset_eq_imp_distinct_iff [OF this] have "distinct (map fst (by_file order f d r))"
    by (simp add: distinct_file_fold)
  then show ?thesis by (simp add: by_file_fold)
qed

lemma summary_rows_fold:
  "fold (\<lambda>(path, summary) (rows, t). (rows @ [(Some path, summary)], summary_merge t summary)) ps (rows, t) =
     (rows @ map (\<lambda>(p, s). (Some p, s)) ps, fold (\<lambda>p t. summary_merge t (snd p)) ps t)"
  by (induction ps arbitrary: rows t) auto

lemma additive_fold_merge:
  "additive f \<Longrightarrow> f (fold (\<lambda>p t. summary_merge t (snd p)) ps t) = f t + (\<Sum>p\<leftarrow>ps. f (snd p))"
proof (induction ps arbitrary: t)
  case (Cons p ps)
  from Cons.prems have "f (summary_merge t (snd p)) = f t + f (snd p)" unfolding additive_def by blast
  with Cons.IH [OF Cons.prems, of "summary_merge t (snd p)"] show ?case
    by (simp only: fold_simps list.map sum_list.Cons add.assoc)
qed simp

lemma additive_file_fold:
  assumes "additive f"
  shows "distinct (map fst m) \<Longrightarrow> (\<Sum>p\<leftarrow>fold (file_step add_item new_CoverageSummary) xs m. f (snd p)) =
    (\<Sum>p\<leftarrow>m. f (snd p)) + (\<Sum>x\<leftarrow>xs. f (add_item (snd x) new_CoverageSummary))"
proof (induction xs arbitrary: m)
  case (Cons x xs)
  obtain q i where x: "x = (q, i)" by (cases x)
  let ?old = "case hm_get m q of None \<Rightarrow> new_CoverageSummary | Some t \<Rightarrow> t"
  have "f (add_item i ?old) = f ?old + f (add_item i new_CoverageSummary)"
    using assms unfolding additive_def by blast
  moreover have "f ?old = (case hm_get m q of None \<Rightarrow> 0 | Some t \<Rightarrow> f t)"
    by (simp add: additive_zero [OF assms] split: option.split)
  ultimately have "(\<Sum>p\<leftarrow>file_step add_item new_CoverageSummary x m. f (snd p)) =
      (\<Sum>p\<leftarrow>m. f (snd p)) + f (add_item i new_CoverageSummary)"
    unfolding x file_step_def prod.case by (intro sum_hm_insert [OF Cons.prems]) simp
  moreover have "distinct (map fst (file_step add_item new_CoverageSummary x m))"
    using Cons.prems by (simp add: x file_step_def distinct_update)
  ultimately show ?case using Cons.IH by (simp add: x)
qed simp

lemma sum_located_items:
  assumes "hash_order order"
  shows "(\<Sum>x\<leftarrow>located_items order r. g x) = (\<Sum>x\<leftarrow>located_items insertion_order r. g x :: nat)"
proof -
  have sum: "(\<Sum>x\<leftarrow>concat (map h zs). g x) = (\<Sum>z\<leftarrow>zs. \<Sum>x\<leftarrow>h z. g x)" for h :: "'a \<times> SourceAnalysis \<Rightarrow> _" and zs
    by (induction zs) simp_all
  show ?thesis
    unfolding located_items_def sum sum_list_order [OF assms] insertion_order_def ..
qed

text \<open>The coverage summary adds up: there is one row per file that has items, in the order of
  the paths, each row is the summary of exactly the items of its file, and the total row is the
  summary of all items with a known path, whatever the order in which the versions are visited.\<close>

theorem summary_rows_add_up:
  assumes "hash_order order"
  shows "\<exists>rows. summary_rows order new_CoverageSummary r = (map (\<lambda>(p, s). (Some p, s)) rows @
        [(None, from_items (map snd (located_items insertion_order r)))],
        from_items (map snd (located_items insertion_order r))) \<and>
    sorted (map fst rows) \<and> distinct (map fst rows) \<and>
    (\<forall>p. hm_get rows p = (let mine = filter (\<lambda>x. fst x = p) (located_items order r)
       in if mine = [] then None else Some (from_items (map snd mine))))"
proof -
  let ?rows = "summary_by_file order r"
  have "fold (\<lambda>p t. summary_merge t (snd p)) ?rows new_CoverageSummary = from_items (map snd (located_items insertion_order r))"
  proof (rule summary_eqI)
    fix f assume f: "additive f"
    have "(\<Sum>p\<leftarrow>?rows. f (snd p)) = (\<Sum>p\<leftarrow>fold (file_step add_item new_CoverageSummary) (located_items order r) []. f (snd p))"
      unfolding summary_by_file_def by_file_fold by (rule sum_list_sort_key)
    also have "\<dots> = (\<Sum>x\<leftarrow>located_items order r. f (add_item (snd x) new_CoverageSummary))"
      by (simp add: additive_file_fold [OF f])
    also have "\<dots> = f (from_items (map snd (located_items insertion_order r)))"
      unfolding sum_located_items [OF assms] additive_from_items [OF f] by (simp add: comp_def)
    finally show "f (fold (\<lambda>p t. summary_merge t (snd p)) ?rows new_CoverageSummary) =
        f (from_items (map snd (located_items insertion_order r)))"
      by (simp add: additive_fold_merge [OF f] additive_zero [OF f])
  qed
  then have "summary_rows order new_CoverageSummary r = (map (\<lambda>(p, s). (Some p, s)) ?rows @
        [(None, from_items (map snd (located_items insertion_order r)))],
        from_items (map snd (located_items insertion_order r)))"
    unfolding summary_rows_def summary_rows_fold by simp
  moreover have "hm_get ?rows p = (let mine = filter (\<lambda>x. fst x = p) (located_items order r)
       in if mine = [] then None else Some (from_items (map snd mine)))" for p
    by (force simp: summary_by_file_def by_file_get Let_def from_items_def add_items_def filter_empty_conv)
  ultimately show ?thesis
    using by_file_keys [of order add_item new_CoverageSummary r] unfolding summary_by_file_def by blast
qed

theorem summary_rows_add_up_witness:
  "snd (summary_rows reverse_order new_CoverageSummary sample_report) =
     new_CoverageSummary\<lparr>line_count := 1, statement_count := 1\<rparr> \<and>
   (\<exists>rows. fst (summary_rows reverse_order new_CoverageSummary sample_report) =
     map (\<lambda>(p, s). (Some p, s)) rows @ [(None, new_CoverageSummary\<lparr>line_count := 1, statement_count := 1\<rparr>)])"
proof -
  have all: "from_items (map snd (located_items insertion_order sample_report)) =
      new_CoverageSummary\<lparr>line_count := 1, statement_count := 1\<rparr>" by code_simp
  obtain rows where "summary_rows reverse_order new_CoverageSummary sample_report = (map (\<lambda>(p, s). (Some p, s)) rows @
        [(None, from_items (map snd (located_items insertion_order sample_report)))],
        from_items (map snd (located_items insertion_order sample_report)))"
    using summary_rows_add_up [OF reversed.hash_order_axioms, of sample_report] by (elim exE conjE)
  then show ?thesis unfolding all by (intro conjI exI [of _ rows]) (simp_all only: fst_conv snd_conv)
qed

text \<open>After \<open>retain_sources\<close> the report shows exactly the items whose path the predicate accepts,
  each as often as before: the items without a path and those of rejected paths are gone, and dropping
  the analyses that became empty loses nothing.\<close>

theorem retain_sources_items:
  assumes "hash_order order"
  shows "mset (located_items order (retain_sources p r)) = filter_mset (\<lambda>x. p (fst x)) (mset (located_items order r))"
proof -
  let ?f = "\<lambda>sp. \<lambda>(v, a). List.map_filter
       (\<lambda>i. map_option (\<lambda>path. (path, i)) (hm_get sp (v, source_id (loc i)))) (all_items a)"
  let ?keep = "\<lambda>(v, a). (v, a\<lparr>all_items := filter (\<lambda>i.
          case hm_get (source_paths r) (v, source_id (loc i)) of None \<Rightarrow> False | Some path \<Rightarrow> p path) (all_items a)\<rparr>)"
  have one: "?f (source_paths r) (?keep va) = filter (\<lambda>x. p (fst x)) (?f (source_paths r) va)" for va
  proof -
    obtain v a where va: "va = (v, a)" by (cases va)
    have "List.map_filter (\<lambda>i. map_option (\<lambda>path. (path, i)) (g i))
        (filter (\<lambda>i. case g i of None \<Rightarrow> False | Some path \<Rightarrow> p path) is) =
        filter (\<lambda>x. p (fst x)) (List.map_filter (\<lambda>i. map_option (\<lambda>path. (path, i)) (g i)) is)" for g "is"
      by (induction "is") (auto simp: List.map_filter_simps split: option.splits)
    then show ?thesis by (simp add: va)
  qed
  have conc: "mset (concat (map h (order zs))) = \<Sum>\<^sub># (image_mset (\<lambda>z. mset (h z)) (mset zs))" for h :: "'a \<times> SourceAnalysis \<Rightarrow> ('b \<times> CoverageItem) list" and zs
  proof -
    have "mset (concat (map h ys)) = \<Sum>\<^sub># (image_mset (\<lambda>z. mset (h z)) (mset ys))" for ys
      by (induction ys) simp_all
    then show ?thesis by (simp add: hash_order.mset_order [OF assms])
  qed
  have drop: "\<Sum>\<^sub># (image_mset (\<lambda>z. mset (?f (source_paths r) z)) (mset (filter (\<lambda>(v, a). all_items a \<noteq> []) zs))) =
      \<Sum>\<^sub># (image_mset (\<lambda>z. mset (?f (source_paths r) z)) (mset zs))" for zs
    by (induction zs) (auto simp: List.map_filter_simps)
  have filt: "\<Sum>\<^sub># (image_mset (\<lambda>z. mset (?f (source_paths r) z)) (mset (map ?keep zs))) =
      filter_mset (\<lambda>x. p (fst x)) (\<Sum>\<^sub># (image_mset (\<lambda>z. mset (?f (source_paths r) z)) (mset zs)))" for zs
    by (induction zs) (simp_all add: one)
  have sp: "source_paths (retain_sources p r) = source_paths r"
    and an: "analyses (retain_sources p r) = filter (\<lambda>(v, a). all_items a \<noteq> []) (map ?keep (analyses r))"
    by (simp_all add: retain_sources_def)
  show ?thesis unfolding located_items_def conc sp an drop filt ..
qed

theorem retain_sources_items_witness:
  "mset (located_items reverse_order (retain_sources (\<lambda>path. path < 70) sample_report)) = {#} \<and>
   mset (located_items reverse_order (retain_sources (\<lambda>path. path < 71) sample_report)) =
     {#(70, sample_item Line 0 3), (70, sample_item Statement 0 5)#}"
proof -
  have all: "located_items reverse_order sample_report = [(70, sample_item Line 0 3), (70, sample_item Statement 0 5)]"
    by code_simp
  show ?thesis
    using retain_sources_items [OF reversed.hash_order_axioms, of "\<lambda>path. path < 70" sample_report]
      retain_sources_items [OF reversed.hash_order_axioms, of "\<lambda>path. path < 71" sample_report]
    by (simp add: all)
qed

end
