(* ===== verification/Cov_Ic.thy ===== *)
theory Cov_Ic
  imports Foundry_Prelude
begin

text \<open>
  Program counters and instruction counters, \<open>crates/evm/core/src/ic.rs\<close>: the two maps between
  them and the decoding of bytecode into instructions. \<open>OpCode::new\<close> and \<open>immediate_size\<close> belong to
  the \<open>revm\<close> crates and are arguments of the decoder. The lemmas show that the two maps are
  inverse to each other and number the instructions without gaps, and that the decoded
  instructions cover the code exactly.
\<close>

section \<open>The maps\<close>

definition PUSH0 :: u8 where "PUSH0 = 0x5f"
definition PUSH1 :: u8 where "PUSH1 = 0x60"
definition PUSH32 :: u8 where "PUSH32 = 0x7f"

text \<open>The bytes a push instruction skips; the subtraction cannot wrap in that range.\<close>

definition push_size :: "u8 \<Rightarrow> nat" where
  "push_size op = (if PUSH1 \<le> op \<and> op \<le> PUSH32 then unat (op - PUSH0) else 0)"

type_synonym pc_map = "(u32, u32) hmap"

function make_map_loop :: "bool \<Rightarrow> u8 list \<Rightarrow> nat \<Rightarrow> nat \<Rightarrow> pc_map \<Rightarrow> pc_map" where
  "make_map_loop pc_first code pc cumulative_push_size m =
     (if length code \<le> pc then m
      else let ic = pc - cumulative_push_size;
               m' = (if pc_first then hm_insert (word_of_nat pc) (word_of_nat ic) m
                     else hm_insert (word_of_nat ic) (word_of_nat pc) m);
               push = push_size (code ! pc)
           in make_map_loop pc_first code (pc + push + 1) (cumulative_push_size + push) m')"
  by pat_completeness auto
termination
  by (relation "measure (\<lambda>(pc_first, code, pc, c, m). length code - pc)") (auto simp: Let_def)

declare make_map_loop.simps [simp del]

text \<open>\<open>None\<close> is the failed assertion on the size of the code.\<close>

definition make_map :: "bool \<Rightarrow> u8 list \<Rightarrow> pc_map option" where
  "make_map pc_first code =
     (if length code \<le> 2 ^ 32 - 1 then Some (make_map_loop pc_first code 0 0 []) else None)"

definition new_PcIcMap :: "u8 list \<Rightarrow> pc_map option" where
  "new_PcIcMap code = make_map True code"

definition new_IcPcMap :: "u8 list \<Rightarrow> pc_map option" where
  "new_IcPcMap code = make_map False code"

definition pc_ic_get :: "pc_map \<Rightarrow> u32 \<Rightarrow> u32 option" where
  "pc_ic_get m pc = hm_get m pc"

definition ic_pc_get :: "pc_map \<Rightarrow> u32 \<Rightarrow> u32 option" where
  "ic_pc_get m ic = hm_get m ic"

section \<open>What the maps hold\<close>

text \<open>The reference: the offsets at which instructions start, from \<open>pc\<close> on.\<close>

function starts :: "u8 list \<Rightarrow> nat \<Rightarrow> nat list" where
  "starts code pc =
     (if length code \<le> pc then [] else pc # starts code (pc + push_size (code ! pc) + 1))"
  by pat_completeness auto
termination
  by (relation "measure (\<lambda>(code, pc). length code - pc)") auto

declare starts.simps [simp del]

lemma starts_ge: "x \<in> set (starts code pc) \<Longrightarrow> pc \<le> x \<and> x < length code"
proof (induction code pc rule: starts.induct)
  case (1 code pc)
  then show ?case
    by (subst (asm) (2) starts.simps) (fastforce split: if_splits)
qed

lemma sorted_starts: "sorted_wrt (<) (starts code pc)"
proof (induction code pc rule: starts.induct)
  case (1 code pc)
  show ?case
  proof (cases "length code \<le> pc")
    case True
    then show ?thesis by (simp add: starts.simps)
  next
    case False
    then show ?thesis
      using "1.IH" by (subst starts.simps) (fastforce dest: starts_ge)
  qed
qed

text \<open>A loop with \<open>ic = pc - cumulative_push_size\<close> numbers the starts from \<open>ic\<close> on.\<close>

lemma make_map_loop_entries:
  "c \<le> pc \<Longrightarrow> make_map_loop pc_first code pc c m =
     foldl (\<lambda>m (ic, pc). if pc_first then hm_insert (word_of_nat pc) (word_of_nat ic) m
        else hm_insert (word_of_nat ic) (word_of_nat pc) m) m
       (enumerate (pc - c) (starts code pc))"
proof (induction pc_first code pc c m rule: make_map_loop.induct)
  case (1 pc_first code pc c m)
  show ?case
  proof (cases "length code \<le> pc")
    case True
    then show ?thesis by (simp add: make_map_loop.simps starts.simps)
  next
    case False
    let ?push = "push_size (code ! pc)"
    have "pc + ?push + 1 - (c + ?push) = Suc (pc - c)" using "1.prems" by simp
    with 1 False show ?thesis
      by (subst make_map_loop.simps, subst starts.simps) (simp add: Let_def)
  qed
qed

lemma get_insert_all:
  assumes "inj_on k (set xs)"
  shows "hm_get (foldl (\<lambda>m x. hm_insert (k x) (v x) m) m xs) y = Some z \<longleftrightarrow>
    (\<exists>x\<in>set xs. k x = y \<and> v x = z) \<or> y \<notin> k ` set xs \<and> hm_get m y = Some z"
  using assms
proof (induction xs arbitrary: m)
  case Nil
  then show ?case by simp
next
  case (Cons a xs)
  then have "k a \<notin> k ` set xs \<or> a \<in> set xs" and "inj_on k (set xs)" by (auto simp: inj_on_def)
  with Cons.IH [of "hm_insert (k a) (v a) m"] Cons.prems show ?case
    by (auto simp: cont_simps inj_on_def)
qed

lemma set_enumerate_starts:
  "set (enumerate 0 (starts code 0)) = (\<lambda>i. (i, starts code 0 ! i)) ` {..<length (starts code 0)}"
  by (auto simp: in_set_enumerate_eq image_iff)

lemma enumerate_starts:
  "(i, p) \<in> set (enumerate 0 (starts code 0)) \<longleftrightarrow> i < length (starts code 0) \<and> p = starts code 0 ! i"
  by (auto simp: in_set_enumerate_eq)

lemma distinct_starts: "distinct (starts code pc)"
  using sorted_starts [of code pc] by (simp add: strict_sorted_iff)

lemma length_starts: "length (starts code 0) \<le> length code"
proof -
  have "set (starts code 0) \<subseteq> {..<length code}" using starts_ge by auto
  then have "card (set (starts code 0)) \<le> length code"
    by (metis card_lessThan card_mono finite_lessThan)
  then show ?thesis by (simp add: distinct_card [OF distinct_starts])
qed

lemma word_of_nat_inject:
  "x < 2 ^ 32 \<Longrightarrow> y < 2 ^ 32 \<Longrightarrow> (word_of_nat x :: u32) = word_of_nat y \<longleftrightarrow> x = y"
  by (simp add: word_unat_eq_iff unat_of_nat)

lemma make_map_get:
  assumes small: "length code \<le> 2 ^ 32 - 1" and m: "make_map pc_first code = Some m"
  shows "hm_get m x = Some y \<longleftrightarrow>
    (\<exists>i<length (starts code 0). x = word_of_nat (if pc_first then starts code 0 ! i else i) \<and>
       y = word_of_nat (if pc_first then i else starts code 0 ! i))"
proof -
  let ?S = "starts code 0" and ?E = "enumerate 0 (starts code 0)"
  let ?k = "\<lambda>e :: nat \<times> nat. word_of_nat (if pc_first then snd e else fst e) :: u32"
  let ?v = "\<lambda>e :: nat \<times> nat. word_of_nat (if pc_first then fst e else snd e) :: u32"
  have bound: "i < 2 ^ 32 \<and> ?S ! i < 2 ^ 32" if "i < length ?S" for i
    using that length_starts [of code] small starts_ge [OF nth_mem [OF that]] by linarith
  have "e = e'" if e: "e \<in> set ?E" "e' \<in> set ?E" "?k e = ?k e'" for e e'
  proof -
    obtain i j where ij: "e = (i, ?S ! i)" "i < length ?S" "e' = (j, ?S ! j)" "j < length ?S"
      using e(1,2) by (metis enumerate_starts prod.exhaust)
    have "(if pc_first then ?S ! i else i) = (if pc_first then ?S ! j else j)"
      using e(3) ij bound [OF ij(2)] bound [OF ij(4)] by (cases pc_first) (simp_all add: word_of_nat_inject)
    then have "i = j" using nth_eq_iff_index_eq [OF distinct_starts ij(2,4)] by (simp split: if_splits)
    with ij show ?thesis by simp
  qed
  then have inj: "inj_on ?k (set ?E)" by (simp add: inj_on_def)
  have "m = foldl (\<lambda>m e. hm_insert (?k e) (?v e) m) [] ?E"
    using m small make_map_loop_entries [of 0 0 pc_first code "[]"]
    by (cases pc_first) (simp_all add: make_map_def case_prod_beta')
  then have "hm_get m x = Some y \<longleftrightarrow> (\<exists>e\<in>set ?E. ?k e = x \<and> ?v e = y)"
    using get_insert_all [OF inj, of ?v "[]" x y] by simp
  also have "\<dots> \<longleftrightarrow> (\<exists>i<length ?S. x = word_of_nat (if pc_first then ?S ! i else i) \<and>
       y = word_of_nat (if pc_first then i else ?S ! i))"
    unfolding set_enumerate_starts by (auto simp: eq_commute)
  finally show ?thesis .
qed

text \<open>C37. The two maps between program counters and instruction counters are inverse to each
  other: one sends a program counter to an instruction counter exactly when the other sends it
  back.\<close>

theorem pc_ic_inverse:
  assumes "new_PcIcMap code = Some a" and "new_IcPcMap code = Some b"
  shows "pc_ic_get a pc = Some ic \<longleftrightarrow> ic_pc_get b ic = Some pc"
proof -
  have "length code \<le> 2 ^ 32 - 1" using assms(1) by (auto simp: new_PcIcMap_def make_map_def split: if_splits)
  with assms make_map_get [of code True a pc ic] make_map_get [of code False b ic pc] show ?thesis
    by (auto simp: new_PcIcMap_def new_IcPcMap_def pc_ic_get_def ic_pc_get_def)
qed

theorem pc_ic_inverse_witness:
  "\<exists>a b. new_PcIcMap [0x60, 0x01, 0x01] = Some a \<and> new_IcPcMap [0x60, 0x01, 0x01] = Some b \<and>
     pc_ic_get a 2 = Some 1 \<and> ic_pc_get b 1 = Some 2"
proof -
  let ?c = "[0x60, 0x01, 0x01] :: u8 list"
  have ok: "new_PcIcMap ?c \<noteq> None" "new_IcPcMap ?c \<noteq> None" by (simp_all add: new_PcIcMap_def new_IcPcMap_def make_map_def)
  then obtain a b where ab: "new_PcIcMap ?c = Some a" "new_IcPcMap ?c = Some b" by auto
  have "hm_get (make_map_loop True ?c 0 0 []) 2 = Some 1" by code_simp
  then have "pc_ic_get a 2 = Some 1" using ab(1) by (auto simp: new_PcIcMap_def make_map_def pc_ic_get_def)
  with pc_ic_inverse [OF ab] ab show ?thesis by auto
qed

text \<open>The instruction counter of a program counter is its position among the starts of
  instructions: the map has an entry for exactly the offsets where an instruction starts, and
  numbers them upwards from 0 without a gap.\<close>

theorem pc_ic_counts:
  assumes "new_PcIcMap code = Some a"
  shows "pc_ic_get a pc = Some ic \<longleftrightarrow>
    unat ic < length (starts code 0) \<and> starts code 0 ! unat ic = unat pc"
proof -
  let ?S = "starts code 0"
  have small: "length code \<le> 2 ^ 32 - 1"
    using assms by (auto simp: new_PcIcMap_def make_map_def split: if_splits)
  have bound: "i < 2 ^ 32 \<and> ?S ! i < 2 ^ 32" if "i < length ?S" for i
    using that length_starts [of code] small starts_ge [OF nth_mem [OF that]] by linarith
  have "pc_ic_get a pc = Some ic \<longleftrightarrow> (\<exists>i<length ?S. pc = word_of_nat (?S ! i) \<and> ic = word_of_nat i)"
    using make_map_get [OF small, of True a pc ic] assms by (simp add: new_PcIcMap_def pc_ic_get_def)
  also have "\<dots> \<longleftrightarrow> unat ic < length ?S \<and> ?S ! unat ic = unat pc"
  proof
    assume "\<exists>i<length ?S. pc = word_of_nat (?S ! i) \<and> ic = word_of_nat i"
    then obtain i where i: "i < length ?S" "pc = word_of_nat (?S ! i)" "ic = word_of_nat i" by blast
    with bound [OF i(1)] show "unat ic < length ?S \<and> ?S ! unat ic = unat pc"
      by (simp add: unat_of_nat)
  next
    assume "unat ic < length ?S \<and> ?S ! unat ic = unat pc"
    then show "\<exists>i<length ?S. pc = word_of_nat (?S ! i) \<and> ic = word_of_nat i"
      by (intro exI [of _ "unat ic"]) simp
  qed
  finally show ?thesis .
qed

theorem pc_ic_counts_witness:
  "\<exists>a. new_PcIcMap [0x61, 0x01, 0x01, 0x5b] = Some a \<and> pc_ic_get a 3 = Some 1 \<and>
     starts [0x61, 0x01, 0x01, 0x5b] 0 ! 1 = 3"
proof -
  let ?c = "[0x61, 0x01, 0x01, 0x5b] :: u8 list"
  have "new_PcIcMap ?c \<noteq> None" by (simp add: new_PcIcMap_def make_map_def)
  then obtain a where a: "new_PcIcMap ?c = Some a" by auto
  have "hm_get (make_map_loop True ?c 0 0 []) 3 = Some 1" by code_simp
  then have "pc_ic_get a 3 = Some 1" using a by (auto simp: new_PcIcMap_def make_map_def pc_ic_get_def)
  with pc_ic_counts [OF a, of 3 1] a show ?thesis by auto
qed

section \<open>Decoding\<close>

record 'op Instruction =
  i_op :: "'op option"
  immediate :: "u8 list"
  i_pc :: u32

datatype decode_error = IncompleteSequence

definition immediate_len :: "('op \<Rightarrow> u8 list \<Rightarrow> u8) \<Rightarrow> 'op option \<Rightarrow> u8 list \<Rightarrow> nat" where
  "immediate_len immediate_size op rest =
     (case op of None \<Rightarrow> 0 | Some op \<Rightarrow> unat (immediate_size op rest))"

function decode_loop ::
    "(u8 \<Rightarrow> 'op option) \<Rightarrow> ('op \<Rightarrow> u8 list \<Rightarrow> u8) \<Rightarrow> u8 list \<Rightarrow> nat \<Rightarrow>
     decode_error + 'op Instruction list" where
  "decode_loop opcode_new immediate_size code pc =
     (if length code \<le> pc then Inr []
      else let op = opcode_new (code ! pc);
               pc1 = pc + 1;
               size = immediate_len immediate_size op (drop pc1 code)
           in if length code < pc1 + size then Inl IncompleteSequence
              else case decode_loop opcode_new immediate_size code (pc1 + size) of
                     Inl e \<Rightarrow> Inl e
                   | Inr steps \<Rightarrow>
                       Inr (\<lparr>i_op = op, immediate = take size (drop pc1 code), i_pc = word_of_nat pc1\<rparr> # steps))"
  by pat_completeness auto
termination
  by (relation "measure (\<lambda>(f, g, code, pc). length code - pc)") auto

declare decode_loop.simps [simp del]

definition decode_instructions ::
    "(u8 \<Rightarrow> 'op option) \<Rightarrow> ('op \<Rightarrow> u8 list \<Rightarrow> u8) \<Rightarrow> u8 list \<Rightarrow>
     (decode_error + 'op Instruction list) option" where
  "decode_instructions opcode_new immediate_size code =
     (if length code \<le> 2 ^ 32 - 1 then Some (decode_loop opcode_new immediate_size code 0) else None)"

definition tiles :: "(u8 \<Rightarrow> 'op option) \<Rightarrow> u8 list \<Rightarrow> 'op Instruction list \<Rightarrow> nat \<Rightarrow> bool" where
  "tiles opcode_new code steps pc \<longleftrightarrow>
     drop pc code = concat (map (\<lambda>i. code ! (unat (i_pc i) - 1) # immediate i) steps) \<and>
     list_all (\<lambda>i. 0 < unat (i_pc i) \<and> i_op i = opcode_new (code ! (unat (i_pc i) - 1)) \<and>
       take (length (immediate i)) (drop (unat (i_pc i)) code) = immediate i) steps"

lemma drop_split:
  "pc < length code \<Longrightarrow> drop pc code = code ! pc # take n (drop (pc + 1) code) @ drop (pc + 1 + n) code"
  using append_take_drop_id [of n "drop (Suc pc) code"]
  by (simp add: Cons_nth_drop_Suc [symmetric] add.commute del: append_take_drop_id)

lemma decode_loop_tiles:
  "length code < 2 ^ 32 \<Longrightarrow> pc \<le> length code \<Longrightarrow> decode_loop opcode_new immediate_size code pc = Inr steps \<Longrightarrow>
   tiles opcode_new code steps pc"
proof (induction opcode_new immediate_size code pc arbitrary: steps rule: decode_loop.induct)
  case (1 opcode_new immediate_size code pc)
  show ?case
  proof (cases "length code \<le> pc")
    case True
    with "1.prems" show ?thesis by (simp add: decode_loop.simps tiles_def)
  next
    case False
    let ?size = "immediate_len immediate_size (opcode_new (code ! pc)) (drop (pc + 1) code)"
    note eq = "1.prems"(3) [unfolded decode_loop.simps [of _ _ _ pc] Let_def]
    have fits: "\<not> length code < pc + 1 + ?size"
      using eq False by (simp split: if_splits)
    obtain rest where rest: "decode_loop opcode_new immediate_size code (pc + 1 + ?size) = Inr rest"
        and steps: "steps = \<lparr>i_op = opcode_new (code ! pc), immediate = take ?size (drop (pc + 1) code),
          i_pc = word_of_nat (pc + 1)\<rparr> # rest"
      using eq False fits
      by (cases "decode_loop opcode_new immediate_size code (pc + 1 + ?size)") simp_all
    have "tiles opcode_new code rest (pc + 1 + ?size)"
      using "1.IH" [OF False refl refl refl fits "1.prems"(1) _ rest] fits by simp
    moreover have pc: "unat (word_of_nat (pc + 1) :: u32) = pc + 1"
      unfolding unat_of_nat using False "1.prems"(1) by simp
    moreover have "drop pc code = code ! pc # take ?size (drop (pc + 1) code) @ drop (pc + 1 + ?size) code"
      using False by (intro drop_split) simp
    ultimately show ?thesis
      unfolding tiles_def steps by (simp add: min_def)
  qed
qed

text \<open>Decoding is lossless: the opcode bytes and immediates of the instructions, put together,
  are the bytecode. The \<open>pc\<close> of an instruction is the offset of its immediate data, one past the
  opcode.\<close>

theorem decode_instructions_lossless:
  assumes "decode_instructions opcode_new immediate_size code = Some (Inr steps)"
  shows "code = concat (map (\<lambda>i. code ! (unat (i_pc i) - 1) # immediate i) steps) \<and>
    list_all (\<lambda>i. 0 < unat (i_pc i) \<and> i_op i = opcode_new (code ! (unat (i_pc i) - 1)) \<and>
      take (length (immediate i)) (drop (unat (i_pc i)) code) = immediate i) steps"
proof -
  have "length code < 2 ^ 32" "decode_loop opcode_new immediate_size code 0 = Inr steps"
    using assms by (auto simp: decode_instructions_def split: if_splits)
  from decode_loop_tiles [OF this(1) _ this(2)] show ?thesis by (simp add: tiles_def)
qed

text \<open>The immediates of legacy bytecode: a push carries its data, every other byte is an opcode
  of its own.\<close>

definition push_immediate :: "u8 \<Rightarrow> u8 list \<Rightarrow> u8" where
  "push_immediate op rest = word_of_nat (push_size op)"

theorem decode_instructions_lossless_witness:
  "\<exists>steps. decode_instructions Some push_immediate [0x60, 0x07, 0x5b] = Some (Inr steps) \<and>
     map i_pc steps = [1, 3] \<and> [0x60, 0x07, 0x5b] =
       concat (map (\<lambda>i. [0x60, 0x07, 0x5b] ! (unat (i_pc i) - 1) # immediate i) steps)"
proof -
  let ?c = "[0x60, 0x07, 0x5b] :: u8 list"
  let ?d = "decode_loop Some push_immediate ?c 0"
  have push: "push_size 0x60 = 1" "push_size 0x5b = 0"
    by (simp_all add: push_size_def PUSH0_def PUSH1_def PUSH32_def)
  note defs = Let_def immediate_len_def push_immediate_def push
  have "decode_loop Some push_immediate ?c 3 = Inr []" by (subst decode_loop.simps) simp
  then have "decode_loop Some push_immediate ?c 2 = Inr [\<lparr>i_op = Some 0x5b, immediate = [], i_pc = 3\<rparr>]"
    by (subst decode_loop.simps) (simp add: defs)
  then have "decode_loop Some push_immediate ?c (Suc (Suc 0)) = Inr [\<lparr>i_op = Some 0x5b, immediate = [], i_pc = 3\<rparr>]"
    by (simp only: numeral_2_eq_2)
  then have "?d = Inr [\<lparr>i_op = Some 0x60, immediate = [0x07], i_pc = 1\<rparr>, \<lparr>i_op = Some 0x5b, immediate = [], i_pc = 3\<rparr>]"
    by (subst decode_loop.simps) (simp add: defs)
  then obtain steps where d: "?d = Inr steps" "map i_pc steps = [1, 3]" by simp
  have res: "decode_instructions Some push_immediate ?c = Some (Inr steps)"
    unfolding decode_instructions_def d(1) by simp
  show ?thesis
    by (intro exI [of _ steps] conjI res d(2) decode_instructions_lossless [OF res, THEN conjunct1])
qed

end
