(* ===== verification/Cov_Anchors.thy ===== *)
theory Cov_Anchors
  imports Cov_Report Cov_Ic
begin

text \<open>
  Anchors of coverage items, \<open>crates/evm/coverage/src/anchors.rs\<close>: the instruction whose execution
  marks an item as covered. The elements of a source map come from \<open>foundry_compilers\<close>; the model
  reads them through the accessors in \<open>element_api\<close>. The lemmas show that a simple anchor is
  the program counter of the first instruction in the range of its item and that a branch anchor belongs
  to the last conditional jump in that range.
\<close>

section \<open>The search\<close>

definition JUMPI :: u8 where "JUMPI = 0x57"

record 'e element_api =
  el_index :: "'e \<Rightarrow> u32 option"
  el_index_i32 :: "'e \<Rightarrow> u32"
  el_offset :: "'e \<Rightarrow> u32"
  el_length :: "'e \<Rightarrow> u32"

text \<open>\<open>None\<close>: the end of the element overflows. The sum of a location's start and length does not.\<close>

definition is_in_source_range :: "'e element_api \<Rightarrow> 'e \<Rightarrow> SourceLocation \<Rightarrow> bool option" where
  "is_in_source_range api e location =
     (if el_index_i32 api e \<noteq> word_of_nat (source_id location) then Some False
      else if \<not> fst (loc_bytes location) \<le> el_offset api e then Some False
      else do {
        let start_of_ranges = max (fst (loc_bytes location)) (el_offset api e);
        end_of_location \<leftarrow> checked_add (fst (loc_bytes location)) (location_len location);
        end_of_element \<leftarrow> checked_add (el_offset api e) (el_length api e);
        let end_of_ranges = min end_of_location end_of_element;
        Some (start_of_ranges \<le> end_of_ranges)
      })"

text \<open>\<open>Iterator::position\<close> with a predicate that may panic.\<close>

fun try_position :: "('a \<Rightarrow> bool option) \<Rightarrow> 'a list \<Rightarrow> nat option option" where
  "try_position p [] = Some None"
| "try_position p (x # xs) =
     (case p x of
        None \<Rightarrow> None
      | Some True \<Rightarrow> Some (Some 0)
      | Some False \<Rightarrow> map_option (map_option Suc) (try_position p xs))"

datatype anchor_error = NoInstruction | NoProgramCounter | JumpOverflow | NoBranches

definition find_anchor_simple ::
    "'e element_api \<Rightarrow> 'e list \<Rightarrow> pc_map \<Rightarrow> u32 \<Rightarrow> SourceLocation \<Rightarrow> (anchor_error + ItemAnchor) option" where
  "find_anchor_simple api source_map ic_pc_map iid l =
     (case try_position (\<lambda>e. is_in_source_range api e l) source_map of
        None \<Rightarrow> None
      | Some None \<Rightarrow> Some (Inl NoInstruction)
      | Some (Some i) \<Rightarrow>
          (case ic_pc_get ic_pc_map (word_of_nat i) of
             None \<Rightarrow> Some (Inl NoProgramCounter)
           | Some pc \<Rightarrow> Some (Inr \<lparr>instruction = pc, item_id = iid\<rparr>)))"

definition is_push :: "u8 \<Rightarrow> bool" where
  "is_push op = (PUSH1 \<le> op \<and> op \<le> PUSH32)"

definition from_be_bytes :: "u8 list \<Rightarrow> u64" where
  "from_be_bytes bs = foldl (\<lambda>n b. n * 256 + ucast b) 0 bs"

text \<open>The loop: \<open>None\<close> is a panic (an index out of the code, or a jump target beyond 32 bits).\<close>

function find_anchor_branch_loop ::
    "'e element_api \<Rightarrow> u8 list \<Rightarrow> 'e list \<Rightarrow> u32 \<Rightarrow> SourceLocation \<Rightarrow> nat \<Rightarrow> nat \<Rightarrow> (ItemAnchor \<times> ItemAnchor) option \<Rightarrow>
     (anchor_error + (ItemAnchor \<times> ItemAnchor) option) option" where
  "find_anchor_branch_loop api code source_map iid l pc cumulative_push_size found =
     (if length code \<le> pc then Some (Inr found)
      else let op = code ! pc in
        if is_push op then
          if pc - cumulative_push_size < length source_map then
            (let element = source_map ! (pc - cumulative_push_size);
                 size = unat (op - PUSH1 + 1);
                 pc' = pc + size;
                 cumulative_push_size' = cumulative_push_size + size
             in case is_in_source_range api element l of
                  None \<Rightarrow> None
                | Some False \<Rightarrow>
                    find_anchor_branch_loop api code source_map iid l (pc' + 1) cumulative_push_size' found
                | Some True \<Rightarrow>
                    if length code \<le> pc' + 1 then None
                    else if code ! (pc' + 1) \<noteq> JUMPI then
                      find_anchor_branch_loop api code source_map iid l (pc' + 1) cumulative_push_size' found
                    else if 8 < size then Some (Inl JumpOverflow)
                    else
                      (let push_bytes_start = pc' - size + 1;
                           pc_jump = from_be_bytes (take size (drop push_bytes_start code))
                       in if 0xFFFFFFFF < pc_jump then None
                          else find_anchor_branch_loop api code source_map iid l (pc' + 1) cumulative_push_size'
                            (Some (\<lparr>instruction = word_of_nat (pc' + 2), item_id = iid\<rparr>,
                                   \<lparr>instruction = ucast pc_jump, item_id = iid\<rparr>))))
          else Some (Inr found)
        else find_anchor_branch_loop api code source_map iid l (pc + 1) cumulative_push_size found)"
  by pat_completeness auto
termination
  by (relation "measure (\<lambda>(api, code, source_map, iid, l, pc, c, found). length code - pc)") (auto simp: Let_def)

declare find_anchor_branch_loop.simps [simp del]

definition find_anchor_branch ::
    "'e element_api \<Rightarrow> u8 list \<Rightarrow> 'e list \<Rightarrow> u32 \<Rightarrow> SourceLocation \<Rightarrow>
     (anchor_error + ItemAnchor \<times> ItemAnchor) option" where
  "find_anchor_branch api code source_map iid l =
     (case find_anchor_branch_loop api code source_map iid l 0 0 None of
        None \<Rightarrow> None
      | Some (Inl e) \<Rightarrow> Some (Inl e)
      | Some (Inr None) \<Rightarrow> Some (Inl NoBranches)
      | Some (Inr (Some found)) \<Rightarrow> Some (Inr found))"

text \<open>The anchor of one item; a branch with more than two paths panics.\<close>

definition find_item_anchor ::
    "'e element_api \<Rightarrow> u8 list \<Rightarrow> 'e list \<Rightarrow> pc_map \<Rightarrow> u32 \<times> CoverageItem \<Rightarrow> (anchor_error + ItemAnchor) option" where
  "find_item_anchor api code source_map ic_pc_map = (\<lambda>(iid, i).
     let simple = find_anchor_simple api source_map ic_pc_map iid (loc i)
     in case kind i of
          Branch _ path False \<Rightarrow>
            (case find_anchor_branch api code source_map iid (loc i) of
               None \<Rightarrow> None
             | Some (Inl e) \<Rightarrow> Some (Inl e)
             | Some (Inr as) \<Rightarrow>
                 if path = 0 then Some (Inr (fst as)) else if path = 1 then Some (Inr (snd as)) else None)
        | Branch _ _ True \<Rightarrow> simple
        | Line \<Rightarrow> simple
        | Statement \<Rightarrow> simple
        | Function _ \<Rightarrow> simple)"

fun collect_anchors :: "(anchor_error + ItemAnchor) option list \<Rightarrow> ItemAnchor list option" where
  "collect_anchors [] = Some []"
| "collect_anchors (None # rs) = None"
| "collect_anchors (Some (Inl e) # rs) = collect_anchors rs"
| "collect_anchors (Some (Inr a) # rs) = map_option ((#) a) (collect_anchors rs)"

definition find_anchors ::
    "'e element_api \<Rightarrow> u8 list \<Rightarrow> 'e list \<Rightarrow> pc_map \<Rightarrow> SourceAnalysis \<Rightarrow> ItemAnchor list option" where
  "find_anchors api code source_map ic_pc_map analysis =
     (case those (map (items_for_source_enumerated analysis) (hs_from (List.map_filter (el_index api) source_map))) of
        None \<Rightarrow> None
      | Some items \<Rightarrow> collect_anchors (map (find_item_anchor api code source_map ic_pc_map) (concat items)))"

section \<open>What the search finds\<close>

text \<open>The reference: the pushes in range that a conditional jump follows, by their offsets.\<close>

definition is_site :: "'e element_api \<Rightarrow> u8 list \<Rightarrow> 'e list \<Rightarrow> SourceLocation \<Rightarrow> nat \<times> nat \<Rightarrow> bool" where
  "is_site api code source_map l = (\<lambda>(ic, pc).
     is_push (code ! pc) \<and> ic < length source_map \<and> is_in_source_range api (source_map ! ic) l = Some True \<and>
     pc + push_size (code ! pc) + 1 < length code \<and> code ! (pc + push_size (code ! pc) + 1) = JUMPI)"

definition sites_from :: "'e element_api \<Rightarrow> u8 list \<Rightarrow> 'e list \<Rightarrow> SourceLocation \<Rightarrow> nat \<Rightarrow> nat \<Rightarrow> nat list" where
  "sites_from api code source_map l ic pc = map snd (filter (is_site api code source_map l) (enumerate ic (starts code pc)))"

definition anchors_of_site :: "u8 list \<Rightarrow> u32 \<Rightarrow> nat \<Rightarrow> ItemAnchor \<times> ItemAnchor" where
  "anchors_of_site code iid pc =
     (let size = push_size (code ! pc)
      in (\<lparr>instruction = word_of_nat (pc + size + 2), item_id = iid\<rparr>,
          \<lparr>instruction = ucast (from_be_bytes (take size (drop (pc + 1) code))), item_id = iid\<rparr>))"

lemma push_size_eq: "is_push op \<Longrightarrow> unat (op - PUSH1 + 1) = push_size op"
  "\<not> is_push op \<Longrightarrow> push_size op = 0"
  by (auto simp: is_push_def push_size_def PUSH0_def PUSH1_def)

lemma sites_from_step:
  assumes "pc < length code"
  shows "sites_from api code source_map l ic pc =
    (if is_site api code source_map l (ic, pc) then [pc] else []) @
    sites_from api code source_map l (Suc ic) (pc + push_size (code ! pc) + 1)"
  using assms unfolding sites_from_def by (subst starts.simps) simp

lemma sites_from_end: "length code \<le> pc \<Longrightarrow> sites_from api code source_map l ic pc = []"
  unfolding sites_from_def by (subst starts.simps) simp

lemma sites_from_beyond: "length source_map \<le> ic \<Longrightarrow> sites_from api code source_map l ic pc = []"
  by (auto simp: sites_from_def filter_empty_conv is_site_def in_set_enumerate_eq)

definition last_site :: "u8 list \<Rightarrow> u32 \<Rightarrow> nat list \<Rightarrow> (ItemAnchor \<times> ItemAnchor) option \<Rightarrow> (ItemAnchor \<times> ItemAnchor) option" where
  "last_site code iid ps found = (if ps = [] then found else Some (anchors_of_site code iid (last ps)))"

lemma last_site_Cons: "last_site code iid (p # ps) found = last_site code iid ps (Some (anchors_of_site code iid p))"
  by (simp add: last_site_def)

lemma find_anchor_branch_loop_step:
  assumes "pc < length code"
  shows "find_anchor_branch_loop api code source_map iid l pc c found =
    (let n = push_size (code ! pc);
         go = find_anchor_branch_loop api code source_map iid l (pc + n + 1) (c + n)
     in if \<not> is_push (code ! pc) then go found
        else if length source_map \<le> pc - c then Some (Inr found)
        else case is_in_source_range api (source_map ! (pc - c)) l of
          None \<Rightarrow> None
        | Some False \<Rightarrow> go found
        | Some True \<Rightarrow>
            if length code \<le> pc + n + 1 then None
            else if code ! (pc + n + 1) \<noteq> JUMPI then go found
            else if 8 < n then Some (Inl JumpOverflow)
            else if 0xFFFFFFFF < from_be_bytes (take n (drop (pc + 1) code)) then None
            else go (Some (anchors_of_site code iid pc)))"
proof (cases "is_push (code ! pc)")
  case True
  with assms show ?thesis
    by (subst find_anchor_branch_loop.simps)
      (simp add: Let_def push_size_eq anchors_of_site_def cong: option.case_cong bool.case_cong)
next
  case False
  with assms show ?thesis
    by (subst find_anchor_branch_loop.simps) (simp add: Let_def push_size_eq)
qed

definition branch_result :: "u8 list \<Rightarrow> u32 \<Rightarrow> nat list \<Rightarrow> (ItemAnchor \<times> ItemAnchor) option \<Rightarrow> anchor_error + (ItemAnchor \<times> ItemAnchor) option \<Rightarrow> bool" where
  "branch_result code iid ps found res =
     (case res of
        Inr f \<Rightarrow> f = last_site code iid ps found
      | Inl e \<Rightarrow> e = JumpOverflow \<and> (\<exists>p\<in>set ps. 8 < push_size (code ! p)))"

lemma branch_result_Cons:
  "branch_result code iid ps (Some (anchors_of_site code iid p)) res \<Longrightarrow> branch_result code iid (p # ps) found res"
  by (auto simp: branch_result_def last_site_Cons split: sum.splits)

lemma find_anchor_branch_loop_sites:
  "c \<le> pc \<Longrightarrow> find_anchor_branch_loop api code source_map iid l pc c found = Some res \<Longrightarrow>
   branch_result code iid (sites_from api code source_map l (pc - c) pc) found res"
proof (induction "length code - pc" arbitrary: pc c found rule: less_induct)
  case less
  show ?case
  proof (cases "pc < length code")
    case False
    with less.prems show ?thesis
      by (subst (asm) find_anchor_branch_loop.simps) (auto simp: sites_from_end last_site_def branch_result_def)
  next
    case True
    let ?n = "push_size (code ! pc)" and ?site = "is_site api code source_map l (pc - c, pc)"
    let ?go = "find_anchor_branch_loop api code source_map iid l (pc + ?n + 1) (c + ?n)"
    let ?rest = "sites_from api code source_map l (Suc (pc - c)) (pc + ?n + 1)"
    have go: "branch_result code iid ?rest as res" if "?go as = Some res" for as
      using less.hyps [of "pc + ?n + 1" "c + ?n" as] that True less.prems(1) by (simp add: Suc_diff_le)
    have skip: ?thesis if "\<not> ?site" "?go found = Some res"
      using go [OF that(2)] that(1) True by (simp add: sites_from_step)
    note loop = less.prems(2) [unfolded find_anchor_branch_loop_step [OF True] Let_def]
    show ?thesis
    proof (cases "is_push (code ! pc) \<and> pc - c < length source_map")
      case False
      then show ?thesis
        using loop skip sites_from_beyond [of source_map "pc - c"]
        by (auto simp: is_site_def branch_result_def last_site_def split: if_splits)
    next
      case map: True
      then obtain r where r: "is_in_source_range api (source_map ! (pc - c)) l = Some r"
        using loop by (auto split: option.splits)
      show ?thesis
      proof (cases "r \<and> pc + ?n + 1 < length code \<and> code ! (pc + ?n + 1) = JUMPI")
        case False
        then show ?thesis
          using loop skip map r by (cases r) (auto simp: is_site_def split: if_splits)
      next
        case jump: True
        then have site: "sites_from api code source_map l (pc - c) pc = pc # ?rest"
          using True map r by (simp add: sites_from_step is_site_def)
        show ?thesis
        proof (cases "8 < ?n")
          case True
          with loop map r jump show ?thesis by (auto simp: branch_result_def site)
        next
          case False
          with loop map r jump have "?go (Some (anchors_of_site code iid pc)) = Some res"
            by (auto split: if_splits)
          from branch_result_Cons [OF go [OF this]] show ?thesis unfolding site .
        qed
      qed
    qed
  qed
qed

text \<open>C34. The search for a branch finds the last one: when it returns anchors, they are those of the
  last push in the item's source range that a conditional jump follows (the instruction after the jump,
  and the pushed target), counting source map elements by instructions; when it reports no branch there
  is no such push, and when it reports an overflow one of them pushes more than eight bytes.\<close>

theorem find_anchor_branch_last:
  assumes "find_anchor_branch api code source_map iid l = Some res"
  shows "case res of
      Inr found \<Rightarrow> sites_from api code source_map l 0 0 \<noteq> [] \<and>
        found = anchors_of_site code iid (last (sites_from api code source_map l 0 0))
    | Inl NoBranches \<Rightarrow> sites_from api code source_map l 0 0 = []
    | Inl JumpOverflow \<Rightarrow> (\<exists>pc\<in>set (sites_from api code source_map l 0 0). 8 < push_size (code ! pc))
    | Inl _ \<Rightarrow> False"
proof -
  obtain r where r: "find_anchor_branch_loop api code source_map iid l 0 0 None = Some r"
    using assms by (auto simp: find_anchor_branch_def split: option.splits)
  from find_anchor_branch_loop_sites [OF _ r]
  have "branch_result code iid (sites_from api code source_map l 0 0) None r" by simp
  with assms r show ?thesis
    by (auto simp: find_anchor_branch_def branch_result_def last_site_def split: sum.splits option.splits if_splits)
qed

text \<open>Elements as triples of source, offset and length, for evaluation. The code is
  \<open>PUSH1 7, JUMPI, PUSH1 9, JUMPI, STOP\<close>, all of it in the range of the item.\<close>

definition triple_api :: "(u32 \<times> u32 \<times> u32) element_api" where
  "triple_api = \<lparr>el_index = (\<lambda>(i, o', n). Some i), el_index_i32 = fst, el_offset = (\<lambda>e. fst (snd e)), el_length = (\<lambda>e. snd (snd e))\<rparr>"

definition sample_code :: "u8 list" where
  "sample_code = [0x60, 7, 0x57, 0x60, 9, 0x57, 0]"

definition sample_loc :: SourceLocation where
  "sample_loc = \<lparr>source_id = 3, contract_name = ''C'', loc_bytes = (10, 20), loc_lines = (1, 2)\<rparr>"

theorem find_anchor_branch_last_witness:
  "find_anchor_branch triple_api sample_code (replicate 5 (3, 12, 4)) 0 sample_loc =
     Some (Inr (anchors_of_site sample_code 0 3)) \<and>
   anchors_of_site sample_code 0 (last (sites_from triple_api sample_code (replicate 5 (3, 12, 4)) sample_loc 0 0)) =
     anchors_of_site sample_code 0 3"
proof -
  let ?m = "replicate 5 (3 :: u32, 12 :: u32, 4 :: u32)"
  have run: "find_anchor_branch triple_api sample_code ?m 0 sample_loc = Some (Inr (anchors_of_site sample_code 0 3))"
    by code_simp
  with find_anchor_branch_last [OF this] show ?thesis by simp
qed

lemma try_position_Some:
  "try_position p xs = Some (Some i) \<Longrightarrow>
   i < length xs \<and> p (xs ! i) = Some True \<and> (\<forall>j<i. p (xs ! j) = Some False)"
proof (induction xs arbitrary: i)
  case (Cons x xs)
  show ?case
  proof (cases "p x = Some True")
    case True
    with Cons.prems show ?thesis by simp
  next
    case False
    with Cons.prems have px: "p x = Some False" by (auto split: option.splits bool.splits)
    with Cons.prems obtain k where k: "try_position p xs = Some (Some k)" and i: "i = Suc k" by auto
    from Cons.IH [OF k] px i show ?thesis by (auto simp: less_Suc_eq_0_disj)
  qed
qed simp

text \<open>A simple anchor is the program counter at which the first instruction in the source range
  of its item starts: no earlier element of the source map is in the range, and the instruction counter
  of the element is translated to the offset of that instruction in the code.\<close>

theorem find_anchor_simple_first:
  assumes "new_IcPcMap code = Some m" and "length source_map < 2 ^ 32"
    and "find_anchor_simple api source_map m iid l = Some (Inr a)"
  shows "\<exists>i < length source_map. i < length (starts code 0) \<and>
    is_in_source_range api (source_map ! i) l = Some True \<and>
    (\<forall>j<i. is_in_source_range api (source_map ! j) l = Some False) \<and>
    a = \<lparr>instruction = word_of_nat (starts code 0 ! i), item_id = iid\<rparr>"
proof -
  obtain i pc where i: "try_position (\<lambda>e. is_in_source_range api e l) source_map = Some (Some i)"
    and pc: "ic_pc_get m (word_of_nat i) = Some pc" and a: "a = \<lparr>instruction = pc, item_id = iid\<rparr>"
    using assms(3) by (auto simp: find_anchor_simple_def split: option.splits)
  note first = try_position_Some [OF i]
  have small: "length code \<le> 2 ^ 32 - 1"
    using assms(1) by (auto simp: new_IcPcMap_def make_map_def split: if_splits)
  obtain k where k: "k < length (starts code 0)" "word_of_nat i = (word_of_nat k :: u32)"
    and start: "pc = word_of_nat (starts code 0 ! k)"
    using pc make_map_get [OF small, of False m "word_of_nat i" pc] assms(1)
    by (auto simp: new_IcPcMap_def ic_pc_get_def)
  have "i < 2 ^ 32" using first assms(2) by linarith
  moreover have "k < 2 ^ 32" using k(1) length_starts [of code] small by linarith
  ultimately have "i = k" using k(2) by (simp only: word_of_nat_inject)
  with first k start a show ?thesis by blast
qed

theorem find_anchor_simple_first_witness:
  "\<exists>m. new_IcPcMap sample_code = Some m \<and>
     find_anchor_simple triple_api [(1, 12, 4), (3, 2, 4), (3, 12, 4)] m 6 sample_loc =
       Some (Inr \<lparr>instruction = word_of_nat (starts sample_code 0 ! 2), item_id = 6\<rparr>)"
proof -
  let ?m = "[(1, 12, 4), (3, 2, 4), (3, 12, 4)] :: (u32 \<times> u32 \<times> u32) list"
  have map: "new_IcPcMap sample_code = Some (make_map_loop False sample_code 0 0 [])"
    by (simp add: new_IcPcMap_def make_map_def sample_code_def)
  have "\<exists>a. find_anchor_simple triple_api ?m (make_map_loop False sample_code 0 0 []) 6 sample_loc = Some (Inr a)"
    by (rule exI [of _ "\<lparr>instruction = 3, item_id = 6\<rparr>"]) code_simp
  then obtain a where a: "find_anchor_simple triple_api ?m (make_map_loop False sample_code 0 0 []) 6 sample_loc = Some (Inr a)" ..
  have in_range: "is_in_source_range triple_api (?m ! 0) sample_loc = Some False"
    "is_in_source_range triple_api (?m ! 1) sample_loc = Some False" by code_simp+
  have "\<exists>i < length ?m. i < length (starts sample_code 0) \<and>
      is_in_source_range triple_api (?m ! i) sample_loc = Some True \<and>
      (\<forall>j<i. is_in_source_range triple_api (?m ! j) sample_loc = Some False) \<and>
      a = \<lparr>instruction = word_of_nat (starts sample_code 0 ! i), item_id = 6\<rparr>"
    by (rule find_anchor_simple_first [OF map _ a]) simp
  then obtain i where i: "i < length ?m" "is_in_source_range triple_api (?m ! i) sample_loc = Some True"
    "a = \<lparr>instruction = word_of_nat (starts sample_code 0 ! i), item_id = 6\<rparr>"
    by (elim exE conjE)
  have "i \<noteq> 0" using i(2) in_range(1) by (cases "i = 0") simp_all
  moreover have "i \<noteq> 1" using i(2) in_range(2) by (cases "i = 1") simp_all
  ultimately have "i = 2" using i(1) by simp
  with map a i(3) show ?thesis by simp
qed

end
