(* ===== verification/Cov_Lcov.thy ===== *)
theory Cov_Lcov
  imports Cov_Report "HOL-Library.Sublist"
begin

text \<open>
  The LCOV reporter of \<open>crates/forge/src/coverage.rs\<close>: the lines it writes for each file of a coverage
  report. The LCOV version only enters through comparisons, and the display of a path through a
  function, both arguments. The lemmas show that the counters at the end of each record agree with
  the lines of the record.
\<close>

section \<open>Decimal numbers\<close>

fun show_nat :: "nat \<Rightarrow> string" where
  "show_nat n = (if n < 10 then [char_of (48 + n)] else show_nat (n div 10) @ [char_of (48 + n mod 10)])"

declare show_nat.simps [simp del]

lemma of_char_digit: "d < 10 \<Longrightarrow> of_char (char_of (48 + d :: nat)) = 48 + d"
  by simp

lemma digit_neq_comma: "d < 10 \<Longrightarrow> char_of (48 + d :: nat) \<noteq> CHR '',''"
proof
  assume d: "d < 10" and "char_of (48 + d :: nat) = CHR '',''"
  then have "of_char (char_of (48 + d :: nat)) = (of_char CHR '','' :: nat)" by (simp only:)
  moreover have "of_char CHR '','' = (44 :: nat)" by simp
  ultimately show False using of_char_digit [OF d] by linarith
qed

lemma digit_eq_zero: "d < 10 \<Longrightarrow> char_of (48 + d :: nat) = CHR ''0'' \<longleftrightarrow> d = 0"
proof
  assume d: "d < 10" and "char_of (48 + d :: nat) = CHR ''0''"
  then have "of_char (char_of (48 + d :: nat)) = (of_char CHR ''0'' :: nat)" by (simp only:)
  moreover have "of_char CHR ''0'' = (48 :: nat)" by simp
  ultimately show "d = 0" using of_char_digit [OF d] by linarith
next
  have "char_of (48 :: nat) = CHR ''0''" by code_simp
  then show "d = 0 \<Longrightarrow> char_of (48 + d) = CHR ''0''" by simp
qed

lemma show_nat_chars: "show_nat n \<noteq> [] \<and> CHR '','' \<notin> set (show_nat n)"
proof (induction n rule: show_nat.induct)
  case (1 n)
  show ?case
  proof (cases "n < 10")
    case True
    then show ?thesis using digit_neq_comma [of n] by (subst (1 2) show_nat.simps) auto
  next
    case False
    then show ?thesis using 1 digit_neq_comma [of "n mod 10"] by (subst (1 2) show_nat.simps) auto
  qed
qed

lemma show_nat_single: "show_nat n = [c] \<Longrightarrow> n < 10 \<and> c = char_of (48 + n)"
  using show_nat_chars [of "n div 10"] by (subst (asm) show_nat.simps) (auto split: if_splits)

text \<open>A field after a comma reads \<open>0\<close> exactly when the number is zero.\<close>

lemma suffix_zero_field: "suffix '',0'' (xs @ CHR '','' # show_nat n) \<longleftrightarrow> n = 0"
proof
  assume "n = 0"
  then show "suffix '',0'' (xs @ CHR '','' # show_nat n)" using digit_eq_zero [of 0] by (simp add: show_nat.simps suffix_def)
next
  assume s: "suffix '',0'' (xs @ CHR '','' # show_nat n)"
  then obtain ys where ys: "xs @ CHR '','' # show_nat n = ys @ [CHR '','', CHR ''0'']" by (auto simp: suffix_def)
  obtain ds d where ds: "show_nat n = ds @ [d]" using show_nat_chars [of n] by (cases "show_nat n" rule: rev_cases) auto
  with ys have d: "d = CHR ''0''" and "xs @ CHR '','' # ds = ys @ [CHR '','']" by auto
  then have "ds = [] \<or> last ds = CHR '',''" by (cases ds rule: rev_cases) auto
  with ds show_nat_chars [of n] have "ds = []" by (cases ds rule: rev_cases) auto
  with ds d have "show_nat n = [CHR ''0'']" by simp
  from show_nat_single [OF this] digit_eq_zero [of n] show "n = 0" by auto
qed

section \<open>The records\<close>

definition show_u32 :: "u32 \<Rightarrow> string" where
  "show_u32 w = show_nat (unat w)"

text \<open>The lines of one item, and the next function index: \<open>None\<close> when the line range ends at 0.\<close>

definition lcov_item :: "(nat \<times> nat \<times> nat \<Rightarrow> bool) \<Rightarrow> CoverageItem \<Rightarrow> nat \<Rightarrow> (string list \<times> nat) option" where
  "lcov_item version_ge i fn_index = do {
     let line = fst (loc_lines (loc i));
     end_line \<leftarrow> checked_sub (snd (loc_lines (loc i))) 1;
     Some (case kind i of
       Function n \<Rightarrow>
         (let name = contract_name (loc i) @ ''.'' @ n
          in if version_ge (2, 2, 0) then
               ([''FNL:'' @ show_nat fn_index @ '','' @ show_u32 line @ '','' @ show_u32 end_line,
                 ''FNA:'' @ show_nat fn_index @ '','' @ show_u32 (hits i) @ '','' @ name], fn_index + 1)
             else if version_ge (2, 0, 0) then
               ([''FN:'' @ show_u32 line @ '','' @ show_u32 end_line @ '','' @ name,
                 ''FNDA:'' @ show_u32 (hits i) @ '','' @ name], fn_index)
             else
               ([''FN:'' @ show_u32 line @ '','' @ name,
                 ''FNDA:'' @ show_u32 (hits i) @ '','' @ name], fn_index))
     | Line \<Rightarrow> ([''DA:'' @ show_u32 line @ '','' @ show_u32 (hits i)], fn_index)
     | Branch bid pid _ \<Rightarrow>
         ([''BRDA:'' @ show_u32 line @ '','' @ show_u32 bid @ '','' @ show_u32 pid @ '','' @
            (if hits i = 0 then ''-'' else show_u32 (hits i))], fn_index)
     | Statement \<Rightarrow> ([], fn_index))
   }"

fun lcov_items :: "(nat \<times> nat \<times> nat \<Rightarrow> bool) \<Rightarrow> CoverageItem list \<Rightarrow> nat \<Rightarrow> (string list \<times> nat) option" where
  "lcov_items version_ge [] fn_index = Some ([], fn_index)"
| "lcov_items version_ge (i # is) fn_index = do {
     (ls, fn_index) \<leftarrow> lcov_item version_ge i fn_index;
     (ls', fn_index) \<leftarrow> lcov_items version_ge is fn_index;
     Some (ls @ ls', fn_index)
   }"

definition lcov_file ::
    "(nat \<times> nat \<times> nat \<Rightarrow> bool) \<Rightarrow> ('p \<Rightarrow> string) \<Rightarrow> 'p \<times> CoverageItem list \<Rightarrow> nat \<Rightarrow> (string list \<times> nat) option" where
  "lcov_file version_ge display = (\<lambda>(path, is) fn_index. do {
     let summary = from_items is;
     (ls, fn_index) \<leftarrow> lcov_items version_ge is fn_index;
     Some ([''TN:'', ''SF:'' @ display path] @ ls @
       [''FNF:'' @ show_nat (function_count summary), ''FNH:'' @ show_nat (function_hits summary),
        ''LF:'' @ show_nat (line_count summary), ''LH:'' @ show_nat (line_hits summary),
        ''BRF:'' @ show_nat (branch_count summary), ''BRH:'' @ show_nat (branch_hits summary),
        ''end_of_record''], fn_index)
   })"

fun lcov_files ::
    "(nat \<times> nat \<times> nat \<Rightarrow> bool) \<Rightarrow> ('p \<Rightarrow> string) \<Rightarrow> ('p \<times> CoverageItem list) list \<Rightarrow> nat \<Rightarrow> string list option" where
  "lcov_files version_ge display [] fn_index = Some []"
| "lcov_files version_ge display (f # fs) fn_index = do {
     (ls, fn_index) \<leftarrow> lcov_file version_ge display f fn_index;
     ls' \<leftarrow> lcov_files version_ge display fs fn_index;
     Some (ls @ ls')
   }"

definition lcov_report ::
    "(('v \<times> SourceAnalysis) list \<Rightarrow> ('v \<times> SourceAnalysis) list) \<Rightarrow> (nat \<times> nat \<times> nat \<Rightarrow> bool) \<Rightarrow> ('p \<Rightarrow> string) \<Rightarrow>
     ('v, 'p::linorder, 'm) CoverageReport \<Rightarrow> string list option" where
  "lcov_report order version_ge display r = lcov_files version_ge display (items_by_file order r) 0"

section \<open>The counters\<close>

definition records :: "string \<Rightarrow> string list \<Rightarrow> string list" where
  "records tag ls = filter (prefix tag) ls"

lemma records_append: "records tag (xs @ ys) = records tag xs @ records tag ys"
  by (simp add: records_def)

definition called :: "string list \<Rightarrow> nat" where
  "called ls = length (filter (\<lambda>l. \<not> suffix '',0'' l) (records ''DA:'' ls))"

lemma called_append: "called (xs @ ys) = called xs + called ys"
  by (simp add: called_def records_append)

text \<open>What the lines of a list of items add up to.\<close>

definition lines_agree :: "string list \<Rightarrow> CoverageItem list \<Rightarrow> bool" where
  "lines_agree ls is =
     (length (records ''DA:'' ls) = line_count (from_items is) \<and> called ls = line_hits (from_items is) \<and>
      length (records ''BRDA:'' ls) = branch_count (from_items is) \<and>
      length (records ''FNA:'' ls) + length (records ''FNDA:'' ls) = function_count (from_items is))"

lemma from_items_Cons:
  assumes "additive f"
  shows "f (from_items (i # is)) = f (add_item i new_CoverageSummary) + f (from_items is)"
  by (simp add: additive_from_items [OF assms])

lemmas from_items_fields = additive_fields [THEN from_items_Cons]

lemma lines_agree_Cons:
  assumes "lines_agree ls [i]" and "lines_agree ls' is"
  shows "lines_agree (ls @ ls') (i # is)"
proof -
  have zero: "f (from_items []) = 0" if "additive f" for f
    using that by (simp add: additive_from_items)
  show ?thesis
    using assms
    by (simp add: lines_agree_def records_append called_append from_items_fields additive_fields [THEN zero])
qed

lemma lcov_item_agree:
  assumes "lcov_item version_ge i fn_index = Some (ls, fn_index')"
  shows "lines_agree ls [i]"
proof -
  have fields: "line_count (from_items [i]) = (if kind i = Line then 1 else 0)"
    "line_hits (from_items [i]) = (if kind i = Line \<and> hits i > 0 then 1 else 0)"
    "branch_count (from_items [i]) = (if is_Branch (kind i) then 1 else 0)"
    "function_count (from_items [i]) = (if is_Function (kind i) then 1 else 0)"
    by (simp_all add: from_items_def add_items_def add_item_fields, simp_all add: new_CoverageSummary_def)
  have zero: "suffix '',0'' (''DA:'' @ show_u32 a @ '','' @ show_u32 b) \<longleftrightarrow> b = 0" for a b
    using suffix_zero_field [of "''DA:'' @ show_u32 a" "unat b"] by (simp add: show_u32_def unat_eq_0)
  show ?thesis
    using assms zero [of "fst (loc_lines (loc i))" "hits i"]
    by (cases "kind i")
      (auto simp: lcov_item_def Let_def bind_eq_Some_conv lines_agree_def fields records_def called_def
        word_gt_0 split: if_splits)
qed

lemma lcov_items_agree: "lcov_items version_ge is fn_index = Some (ls, fn_index') \<Longrightarrow> lines_agree ls is"
proof (induction "is" arbitrary: fn_index ls)
  case Nil
  then show ?case
    by (simp add: lines_agree_def records_def called_def from_items_def add_items_def new_CoverageSummary_def)
next
  case (Cons i "is")
  from Cons.prems obtain l1 n l2 where "lcov_item version_ge i fn_index = Some (l1, n)"
    "lcov_items version_ge is n = Some (l2, fn_index')" "ls = l1 @ l2"
    by (auto simp: bind_eq_Some_conv)
  with Cons.IH lcov_item_agree show ?case by (simp add: lines_agree_Cons)
qed

lemma lcov_items_total:
  "list_all (\<lambda>i. snd (loc_lines (loc i)) \<noteq> 0) is \<Longrightarrow> \<exists>ls n. lcov_items version_ge is fn_index = Some (ls, n)"
proof (induction "is" arbitrary: fn_index)
  case (Cons i "is")
  have "1 \<le> snd (loc_lines (loc i))" using Cons.prems by (simp add: word_le_nat_alt unat_gt_0 Suc_le_eq)
  then have "lcov_item version_ge i fn_index \<noteq> None" by (simp add: lcov_item_def Let_def checked_sub_def)
  then obtain ls n where i: "lcov_item version_ge i fn_index = Some (ls, n)"
    by (cases "lcov_item version_ge i fn_index") auto
  have "list_all (\<lambda>i. snd (loc_lines (loc i)) \<noteq> 0) is" using Cons.prems by simp
  from Cons.IH [OF this, of n] obtain ls' n' where "lcov_items version_ge is n = Some (ls', n')" by (elim exE)
  with i show ?case by simp
qed simp

text \<open>The counters of an LCOV record agree with its lines: when every item ends on a line, writing
  a file does not panic, and \<open>LF\<close> is the number of \<open>DA\<close> lines, \<open>LH\<close> the number of \<open>DA\<close> lines with a non-zero
  count, \<open>BRF\<close> the number of \<open>BRDA\<close> lines and \<open>FNF\<close> the number of function records, in every version of
  the format.\<close>

theorem lcov_file_counters:
  assumes "list_all (\<lambda>i. snd (loc_lines (loc i)) \<noteq> 0) is"
  shows "\<exists>ls n. lcov_file version_ge display (path, is) fn_index = Some (ls, n) \<and>
    (\<exists>body. ls = [''TN:'', ''SF:'' @ display path] @ body @
       [''FNF:'' @ show_nat (length (records ''FNA:'' body) + length (records ''FNDA:'' body)),
        ''FNH:'' @ show_nat (function_hits (from_items is)),
        ''LF:'' @ show_nat (length (records ''DA:'' body)),
        ''LH:'' @ show_nat (length (filter (\<lambda>l. \<not> suffix '',0'' l) (records ''DA:'' body))),
        ''BRF:'' @ show_nat (length (records ''BRDA:'' body)), ''BRH:'' @ show_nat (branch_hits (from_items is)), ''end_of_record''])"
proof -
  obtain body n where body: "lcov_items version_ge is fn_index = Some (body, n)"
    using lcov_items_total [OF assms] by blast
  have agree: "line_count (from_items is) = length (records ''DA:'' body)"
    "line_hits (from_items is) = length (filter (\<lambda>l. \<not> suffix '',0'' l) (records ''DA:'' body))"
    "branch_count (from_items is) = length (records ''BRDA:'' body)"
    "function_count (from_items is) = length (records ''FNA:'' body) + length (records ''FNDA:'' body)"
    using lcov_items_agree [OF body] by (simp_all only: lines_agree_def called_def)
  show ?thesis
    unfolding lcov_file_def Let_def prod.case body agree Option.bind.simps
    by (rule exI, rule exI, rule conjI, rule refl, rule exI [of _ body], rule refl)
qed

theorem lcov_file_counters_witness:
  "\<exists>ls n body. lcov_file (\<lambda>v. True) id (''a'', [sample_item Line 0 3, sample_item (Function ''f'') 0 3]) 4 = Some (ls, n) \<and>
     take 2 ls = [''TN:'', ''SF:a''] \<and> drop 2 ls = body @
       [''FNF:'' @ show_nat (length (records ''FNA:'' body) + length (records ''FNDA:'' body)), ''FNH:0'',
        ''LF:'' @ show_nat (length (records ''DA:'' body)),
        ''LH:'' @ show_nat (length (filter (\<lambda>l. \<not> suffix '',0'' l) (records ''DA:'' body))),
        ''BRF:'' @ show_nat (length (records ''BRDA:'' body)), ''BRH:0'', ''end_of_record'']"
proof -
  let ?is = "[sample_item Line 0 3, sample_item (Function ''f'') 0 3]"
  have ok: "list_all (\<lambda>i. snd (loc_lines (loc i)) \<noteq> 0) ?is" by code_simp
  have zero: "''FNH:'' @ show_nat (function_hits (from_items ?is)) = ''FNH:0''"
    "''BRH:'' @ show_nat (branch_hits (from_items ?is)) = ''BRH:0''" by code_simp+
  obtain ls n body where ls: "lcov_file (\<lambda>v. True) id (''a'', ?is) 4 = Some (ls, n)"
    "ls = [''TN:'', ''SF:'' @ id ''a''] @ body @
       [''FNF:'' @ show_nat (length (records ''FNA:'' body) + length (records ''FNDA:'' body)),
        ''FNH:'' @ show_nat (function_hits (from_items ?is)),
        ''LF:'' @ show_nat (length (records ''DA:'' body)),
        ''LH:'' @ show_nat (length (filter (\<lambda>l. \<not> suffix '',0'' l) (records ''DA:'' body))),
        ''BRF:'' @ show_nat (length (records ''BRDA:'' body)), ''BRH:'' @ show_nat (branch_hits (from_items ?is)), ''end_of_record'']"
    using lcov_file_counters [OF ok, of "\<lambda>v. True" id "''a''" 4] by (elim exE conjE)
  show ?thesis
    by (intro exI [of _ ls] exI [of _ n] exI [of _ body] conjI, rule ls(1)) (simp_all add: ls(2) zero [simplified])
qed

end
