(* ===== verification/Cheat_State.thy ===== *)
theory Cheat_State
  imports Foundry_Prelude
begin

text \<open>
  The state of the cheatcode inspector (\<open>crates/cheatcodes/src/inspector.rs\<close>) that the expectation,
  revert, prank and mock cheatcodes share, with the types of \<open>test/expect.rs\<close>, \<open>test/assume.rs\<close>,
  \<open>evm/prank.rs\<close>, \<open>evm/mock.rs\<close> and \<open>script.rs\<close>. The interpreter's result codes belong to \<open>revm\<close>: they are
  a type parameter, read through the predicates in \<open>ir_api\<close>.
\<close>

section \<open>Logs\<close>

record RawLog =
  topics :: "B256 list"
  log_data :: Bytes

record Log =
  log_address :: Address
  raw :: RawLog

section \<open>Expectations\<close>

datatype ExpectedCallType = NonCount | Count

record ExpectedCallData =
  exp_value :: "U256 option"
  exp_gas :: "u64 option"
  exp_min_gas :: "u64 option"
  exp_count :: u64
  call_type :: ExpectedCallType

type_synonym ExpectedCalls = "(Bytes, ExpectedCallData \<times> u64) hmap"
type_synonym ExpectedCallTracker = "(Address, ExpectedCalls) hmap"

datatype ExpectedRevertKind = Default | Cheatcode (pending_processing: bool)

record ExpectedRevert =
  reason :: "Bytes option"
  rv_depth :: u64
  rv_kind :: ExpectedRevertKind
  partial_match :: bool
  reverter :: "Address option"
  reverted_by :: "Address option"
  max_depth :: u64
  rv_count :: u64
  actual_count :: u64

record ExpectedEmit =
  em_depth :: u64
  em_log :: "RawLog option"
  em_checks :: "bool list"
  em_address :: "Address option"
  anonymous :: bool
  em_found :: bool
  em_count :: u64

record LogCountMap =
  lc_checks :: "bool list"
  expected_log :: RawLog
  lc_map :: "(RawLog, u64) hmap"

type_synonym ExpectedEmitTracker = "(ExpectedEmit \<times> (Address, LogCountMap) hmap) list"

datatype CreateScheme = Create | Create2

record ExpectedCreate =
  deployer :: Address
  ec_bytecode :: Bytes
  create_scheme :: CreateScheme

record AcceptableRevertParameters =
  ar_reason :: Bytes
  ar_partial_match :: bool
  ar_reverter :: "Address option"

record AssumeNoRevert =
  as_depth :: u64
  reasons :: "AcceptableRevertParameters list"
  as_reverted_by :: "Address option"

section \<open>Pranks, broadcasts and mocks\<close>

record Prank =
  prank_caller :: Address
  prank_origin :: Address
  new_caller :: Address
  new_origin :: "Address option"
  pr_depth :: u64
  single_call :: bool
  delegate_call :: bool
  used :: bool

record Broadcast =
  br_new_origin :: Address
  original_caller :: Address
  original_origin :: Address
  br_depth :: u64
  br_single_call :: bool

record MockCallDataContext =
  calldata :: Bytes
  mock_value :: "U256 option"

record 'ir MockCallReturnData =
  ret_type :: 'ir
  ret_data :: Bytes

text \<open>A \<open>BTreeMap\<close> is an association list in the order of its keys.\<close>

type_synonym 'ir Mocks = "(MockCallDataContext \<times> 'ir MockCallReturnData list) list"

section \<open>The inspector\<close>

record 'ir Cheatcodes =
  prank :: "Prank option"
  expected_revert :: "ExpectedRevert option"
  assume_no_revert :: "AssumeNoRevert option"
  mocked_calls :: "(Address, 'ir Mocks) hmap"
  mocked_functions :: "(Address, (Bytes, Address) hmap) hmap"
  expected_calls :: ExpectedCallTracker
  expected_emits :: ExpectedEmitTracker
  expected_creates :: "ExpectedCreate list"
  allowed_mem_writes :: "(u64, (u64 \<times> u64) list) hmap"
  broadcast :: "Broadcast option"

definition new_Cheatcodes :: "'ir Cheatcodes" where
  "new_Cheatcodes = \<lparr>prank = None, expected_revert = None, assume_no_revert = None, mocked_calls = [],
     mocked_functions = [], expected_calls = [], expected_emits = [], expected_creates = [],
     allowed_mem_writes = [], broadcast = None\<rparr>"

text \<open>The errors, with what their messages mention. A cheatcode that fails may have changed the state
  before it did, so its result is the error, if any, with the state it leaves.\<close>

datatype cheat_error =
    CountedOnce
  | OverwriteCounted
  | SecondRevert
  | MemoryRange u64 u64
  | AssumeAgain
  | MagicAssume
  | PrankFromEoa
  | PrankUnused
  | PrankOverride
  | PrankBroadcast
  | AnonymousEmit
  | WrongReverter Address Address
  | NoRevertData
  | WrongRevert Bytes Bytes
  | NotDeeper
  | UnexpectedRevert
  | RevertWithReasonFrom Bytes Address
  | RevertWithReason Bytes
  | RevertFrom Address
  | DidNotRevert
  | LogMismatch
  | LogCount u64 u64
  | EmitReverted
  | CallMissing Address Bytes u64 u64
  | EmitMissing
  | CreateMissing CreateScheme Address Bytes
  | RawError Bytes

type_synonym 'ir cheat_result = "cheat_error option \<times> 'ir Cheatcodes"

record 'ir ir_api =
  is_ok :: "'ir \<Rightarrow> bool"
  is_revert :: "'ir \<Rightarrow> bool"
  Revert_ir :: 'ir
  Return_ir :: 'ir

text \<open>What the inspector relies on of the result codes.\<close>

definition ir_sane :: "'ir ir_api \<Rightarrow> bool" where
  "ir_sane api \<longleftrightarrow> is_revert api (Revert_ir api) \<and> \<not> is_ok api (Revert_ir api) \<and>
     is_ok api (Return_ir api) \<and> \<not> is_revert api (Return_ir api)"

text \<open>Two codes, for evaluation: \<open>True\<close> reverts.\<close>

definition bool_api :: "bool ir_api" where
  "bool_api = \<lparr>is_ok = Not, is_revert = (\<lambda>r. r), Revert_ir = True, Return_ir = False\<rparr>"

lemma ir_sane_bool: "ir_sane bool_api"
  by (simp add: ir_sane_def bool_api_def)

end
