(* ===== verification/Cheat_Expect.thy ===== *)
theory Cheat_Expect
  imports Cheat_State
begin

text \<open>
  The expectation cheatcodes of \<open>crates/cheatcodes/src/test/expect.rs\<close>: \<open>expectCall\<close>, \<open>expectEmit\<close>,
  \<open>expectCreate\<close>, \<open>expectRevert\<close> and \<open>expectSafeMemory\<close>, and the matching of emitted logs. One definition
  per cheatcode; the call depth of the journal is the argument \<open>depth\<close>. The lemmas show that
  uncounted expectations of a call accumulate and counted ones cannot be changed, and that logs are matched in
  the declared order.
\<close>

section \<open>Calls\<close>

text \<open>The stipend on a call with value; \<open>None\<close> when adding it overflows.\<close>

definition add_stipend :: "U256 option \<Rightarrow> u64 option \<Rightarrow> u64 option option" where
  "add_stipend value gas =
     (case value of
        None \<Rightarrow> Some gas
      | Some v \<Rightarrow> if v > 0 then (case gas of None \<Rightarrow> Some None | Some g \<Rightarrow> map_option Some (checked_add g 2300)) else Some gas)"

definition expect_call ::
    "'ir Cheatcodes \<Rightarrow> Address \<Rightarrow> Bytes \<Rightarrow> U256 option \<Rightarrow> u64 option \<Rightarrow> u64 option \<Rightarrow> u64 \<Rightarrow> ExpectedCallType \<Rightarrow>
     'ir cheat_result option" where
  "expect_call s target data value gas min_gas n ct = do {
     let expecteds = (case hm_get (expected_calls s) target of None \<Rightarrow> [] | Some m \<Rightarrow> m);
     let keep = (\<lambda>m. s\<lparr>expected_calls := hm_insert target m (expected_calls s)\<rparr>);
     gas \<leftarrow> add_stipend value gas;
     min_gas \<leftarrow> add_stipend value min_gas;
     let fresh = \<lparr>exp_value = value, exp_gas = gas, exp_min_gas = min_gas, exp_count = n, call_type = ct\<rparr>;
     case ct of
       Count \<Rightarrow>
         if hm_contains expecteds data then Some (Some CountedOnce, keep expecteds)
         else Some (None, keep (hm_insert data (fresh, 0) expecteds))
     | NonCount \<Rightarrow>
         (case hm_get expecteds data of
            Some (expected, seen) \<Rightarrow>
              if call_type expected \<noteq> NonCount then Some (Some OverwriteCounted, keep expecteds)
              else do {
                n' \<leftarrow> checked_add (exp_count expected) 1;
                Some (None, keep (hm_insert data (expected\<lparr>exp_count := n'\<rparr>, seen) expecteds))
              }
          | None \<Rightarrow> Some (None, keep (hm_insert data (fresh, 0) expecteds)))
   }"

definition expectCall_0Call where
  "expectCall_0Call callee data s = expect_call s callee data None None None 1 NonCount"

definition expectCall_1Call where
  "expectCall_1Call callee data n s = expect_call s callee data None None None n Count"

definition expectCall_2Call where
  "expectCall_2Call callee msgValue data s = expect_call s callee data (Some msgValue) None None 1 NonCount"

definition expectCall_3Call where
  "expectCall_3Call callee msgValue data n s = expect_call s callee data (Some msgValue) None None n Count"

definition expectCall_4Call where
  "expectCall_4Call callee msgValue gas data s = expect_call s callee data (Some msgValue) (Some gas) None 1 NonCount"

definition expectCall_5Call where
  "expectCall_5Call callee msgValue gas data n s = expect_call s callee data (Some msgValue) (Some gas) None n Count"

definition expectCallMinGas_0Call where
  "expectCallMinGas_0Call callee msgValue minGas data s =
     expect_call s callee data (Some msgValue) None (Some minGas) 1 NonCount"

definition expectCallMinGas_1Call where
  "expectCallMinGas_1Call callee msgValue minGas data n s =
     expect_call s callee data (Some msgValue) None (Some minGas) n Count"

section \<open>Emits\<close>

definition insert_at :: "nat \<Rightarrow> 'a \<Rightarrow> 'a list \<Rightarrow> 'a list" where
  "insert_at i x xs = take i xs @ x # drop i xs"

definition expect_emit ::
    "'ir Cheatcodes \<Rightarrow> u64 \<Rightarrow> bool list \<Rightarrow> Address option \<Rightarrow> bool \<Rightarrow> u64 \<Rightarrow> 'ir cheat_result" where
  "expect_emit s depth checks address anon n =
     (let emit = \<lparr>em_depth = depth, em_log = None, em_checks = checks, em_address = address, anonymous = anon,
        em_found = False, em_count = n\<rparr>
      in case position (\<lambda>(e, _). em_found e) (expected_emits s) of
           Some i \<Rightarrow> (None, s\<lparr>expected_emits := insert_at i (emit, []) (expected_emits s)\<rparr>)
         | None \<Rightarrow> (None, s\<lparr>expected_emits := expected_emits s @ [(emit, [])]\<rparr>))"

definition expectEmit_0Call where
  "expectEmit_0Call t1 t2 t3 d depth s = expect_emit s depth [True, t1, t2, t3, d] None False 1"

definition expectEmit_1Call where
  "expectEmit_1Call t1 t2 t3 d emitter depth s = expect_emit s depth [True, t1, t2, t3, d] (Some emitter) False 1"

definition expectEmit_2Call where
  "expectEmit_2Call depth s = expect_emit s depth (replicate 5 True) None False 1"

definition expectEmit_3Call where
  "expectEmit_3Call emitter depth s = expect_emit s depth (replicate 5 True) (Some emitter) False 1"

definition expectEmit_4Call where
  "expectEmit_4Call t1 t2 t3 d n depth s = expect_emit s depth [True, t1, t2, t3, d] None False n"

definition expectEmit_5Call where
  "expectEmit_5Call t1 t2 t3 d emitter n depth s = expect_emit s depth [True, t1, t2, t3, d] (Some emitter) False n"

definition expectEmit_6Call where
  "expectEmit_6Call n depth s = expect_emit s depth (replicate 5 True) None False n"

definition expectEmit_7Call where
  "expectEmit_7Call emitter n depth s = expect_emit s depth (replicate 5 True) (Some emitter) False n"

definition expectEmitAnonymous_0Call where
  "expectEmitAnonymous_0Call t0 t1 t2 t3 d depth s = expect_emit s depth [t0, t1, t2, t3, d] None True 1"

definition expectEmitAnonymous_1Call where
  "expectEmitAnonymous_1Call t0 t1 t2 t3 d emitter depth s = expect_emit s depth [t0, t1, t2, t3, d] (Some emitter) True 1"

definition expectEmitAnonymous_2Call where
  "expectEmitAnonymous_2Call depth s = expect_emit s depth (replicate 5 True) None True 1"

definition expectEmitAnonymous_3Call where
  "expectEmitAnonymous_3Call emitter depth s = expect_emit s depth (replicate 5 True) (Some emitter) True 1"

text \<open>A log has at most four topics, so the index into the five checks is in range.\<close>

definition checks_topics_and_data :: "bool list \<Rightarrow> RawLog \<Rightarrow> RawLog \<Rightarrow> bool" where
  "checks_topics_and_data checks expected log =
     (length (topics log) = length (topics expected) \<and>
      list_all (\<lambda>(i, t). t = topics expected ! i) (filter (\<lambda>(i, t). checks ! i) (enumerate 0 (topics log))) \<and>
      \<not> (checks ! 4 \<and> log_data expected \<noteq> log_data log))"

definition new_LogCountMap :: "ExpectedEmit \<Rightarrow> LogCountMap option" where
  "new_LogCountMap e =
     (case em_log e of
        None \<Rightarrow> None
      | Some l \<Rightarrow> Some \<lparr>lc_checks = em_checks e, expected_log = l, lc_map = []\<rparr>)"

definition satisfies_checks :: "LogCountMap \<Rightarrow> RawLog \<Rightarrow> bool" where
  "satisfies_checks m log = checks_topics_and_data (lc_checks m) (expected_log m) log"

text \<open>\<open>None\<close>: the counter overflows.\<close>

definition lc_insert :: "RawLog \<Rightarrow> LogCountMap \<Rightarrow> LogCountMap option" where
  "lc_insert log m =
     (case hm_get (lc_map m) log of
        Some c \<Rightarrow> do { c' \<leftarrow> checked_add c 1; Some (m\<lparr>lc_map := hm_insert log c' (lc_map m)\<rparr>) }
      | None \<Rightarrow> if satisfies_checks m log then Some (m\<lparr>lc_map := hm_insert log 1 (lc_map m)\<rparr>) else Some m)"

fun sum_u64 :: "u64 list \<Rightarrow> u64 \<Rightarrow> u64 option" where
  "sum_u64 [] acc = Some acc"
| "sum_u64 (c # cs) acc = do { acc' \<leftarrow> checked_add acc c; sum_u64 cs acc' }"

definition count_unchecked :: "LogCountMap \<Rightarrow> u64 option" where
  "count_unchecked m = sum_u64 (map snd (lc_map m)) 0"

definition lc_count :: "LogCountMap \<Rightarrow> RawLog \<Rightarrow> u64 option" where
  "lc_count m log = (if satisfies_checks m log then count_unchecked m else Some 0)"

text \<open>The counts by emitter after a log.\<close>

definition count_log :: "ExpectedEmit \<Rightarrow> Log \<Rightarrow> (Address, LogCountMap) hmap \<Rightarrow> (Address, LogCountMap) hmap option" where
  "count_log e log counts =
     (case hm_get counts (log_address log) of
        Some m \<Rightarrow> do { m' \<leftarrow> lc_insert (raw log) m; Some (hm_insert (log_address log) m' counts) }
      | None \<Rightarrow> do {
          m \<leftarrow> new_LogCountMap e;
          if satisfies_checks m (raw log)
          then do { m' \<leftarrow> lc_insert (raw log) m; Some (hm_insert (log_address log) m' counts) }
          else Some counts
        })"

text \<open>Whether the expectation is met; the order is that of the values of the hash map.\<close>

definition emit_found ::
    "((Address \<times> LogCountMap) list \<Rightarrow> (Address \<times> LogCountMap) list) \<Rightarrow> ExpectedEmit \<Rightarrow> RawLog \<Rightarrow> Log \<Rightarrow>
     (Address, LogCountMap) hmap \<Rightarrow> bool option" where
  "emit_found order e expected log counts =
     (if \<not> checks_topics_and_data (em_checks e) expected (raw log) then Some False
      else if (case em_address e of None \<Rightarrow> False | Some a \<Rightarrow> a \<noteq> log_address log) then Some False
      else case (case em_address e of
                   Some emitter \<Rightarrow> hm_get counts emitter
                 | None \<Rightarrow> map_option snd (find (\<lambda>(a, m). satisfies_checks m (raw log)) (order counts))) of
             None \<Rightarrow> Some False
           | Some m \<Rightarrow> map_option (\<lambda>c. em_count e \<le> c) (lc_count m (raw log)))"

text \<open>The handler; the flag is the interpreter's revert on an anonymous event.\<close>

definition handle_expect_emit ::
    "((Address \<times> LogCountMap) list \<Rightarrow> (Address \<times> LogCountMap) list) \<Rightarrow> Log \<Rightarrow> 'ir Cheatcodes \<Rightarrow>
     (bool \<times> 'ir Cheatcodes) option" where
  "handle_expect_emit order log s =
     (let queue = expected_emits s
      in if list_all (\<lambda>(e, _). em_found e) queue then Some (False, s)
         else
           (let should_fill_logs = list_ex (\<lambda>(e, _). em_log e = None) queue;
                index = (if should_fill_logs
                         then (case position (\<lambda>(e, _). em_found e) queue of None \<Rightarrow> length queue | Some i \<Rightarrow> i) - 1
                         else 0)
            in if length queue \<le> index then None
               else
                 (let (e, counts) = queue ! index;
                      rest = take index queue @ drop (Suc index) queue
                  in case em_log e of
                       None \<Rightarrow>
                         if anonymous e \<or> topics (raw log) \<noteq> []
                         then Some (False, s\<lparr>expected_emits := insert_at index (e\<lparr>em_log := Some (raw log)\<rparr>, counts) rest\<rparr>)
                         else Some (True, s\<lparr>expected_emits := rest\<rparr>)
                     | Some expected \<Rightarrow> do {
                         counts \<leftarrow> count_log e log counts;
                         found \<leftarrow> emit_found order e expected log counts;
                         let e = e\<lparr>em_found := found\<rparr>;
                         Some (False, s\<lparr>expected_emits := (if found then rest @ [(e, counts)] else (e, counts) # rest)\<rparr>)
                       })))"

section \<open>Creates, reverts and memory\<close>

definition expect_create :: "'ir Cheatcodes \<Rightarrow> Bytes \<Rightarrow> Address \<Rightarrow> CreateScheme \<Rightarrow> 'ir cheat_result" where
  "expect_create s code who scheme =
     (None, s\<lparr>expected_creates := expected_creates s @ [\<lparr>deployer = who, ec_bytecode = code, create_scheme = scheme\<rparr>]\<rparr>)"

definition expectCreateCall where
  "expectCreateCall code who s = expect_create s code who Create"

definition expectCreate2Call where
  "expectCreate2Call code who s = expect_create s code who Create2"

definition expect_revert ::
    "'ir Cheatcodes \<Rightarrow> Bytes option \<Rightarrow> u64 \<Rightarrow> bool \<Rightarrow> bool \<Rightarrow> Address option \<Rightarrow> u64 \<Rightarrow> 'ir cheat_result" where
  "expect_revert s why depth cheatcode part who n =
     (if expected_revert s \<noteq> None then (Some SecondRevert, s)
      else (None, s\<lparr>expected_revert := Some \<lparr>reason = why, rv_depth = depth,
        rv_kind = (if cheatcode then Cheatcode True else Default), partial_match = part, reverter = who,
        reverted_by = None, max_depth = depth, rv_count = n, actual_count = 0\<rparr>\<rparr>))"

definition expectRevert_0Call where
  "expectRevert_0Call depth s = expect_revert s None depth False False None 1"

definition expectRevert_1Call where
  "expectRevert_1Call revertData depth s = expect_revert s (Some revertData) depth False False None 1"

definition expectRevert_2Call where
  "expectRevert_2Call revertData depth s = expect_revert s (Some revertData) depth False False None 1"

definition expectRevert_3Call where
  "expectRevert_3Call who depth s = expect_revert s None depth False False (Some who) 1"

definition expectRevert_4Call where
  "expectRevert_4Call revertData who depth s = expect_revert s (Some revertData) depth False False (Some who) 1"

definition expectRevert_5Call where
  "expectRevert_5Call revertData who depth s = expect_revert s (Some revertData) depth False False (Some who) 1"

definition expectRevert_6Call where
  "expectRevert_6Call n depth s = expect_revert s None depth False False None n"

definition expectRevert_7Call where
  "expectRevert_7Call revertData n depth s = expect_revert s (Some revertData) depth False False None n"

definition expectRevert_8Call where
  "expectRevert_8Call revertData n depth s = expect_revert s (Some revertData) depth False False None n"

definition expectRevert_9Call where
  "expectRevert_9Call who n depth s = expect_revert s None depth False False (Some who) n"

definition expectRevert_10Call where
  "expectRevert_10Call revertData who n depth s = expect_revert s (Some revertData) depth False False (Some who) n"

definition expectRevert_11Call where
  "expectRevert_11Call revertData who n depth s = expect_revert s (Some revertData) depth False False (Some who) n"

definition expectPartialRevert_0Call where
  "expectPartialRevert_0Call revertData depth s = expect_revert s (Some revertData) depth False True None 1"

definition expectPartialRevert_1Call where
  "expectPartialRevert_1Call revertData who depth s = expect_revert s (Some revertData) depth False True (Some who) 1"

definition expectCheatcodeRevert_0Call where
  "expectCheatcodeRevert_0Call depth s = expect_revert s None depth True False None 1"

definition expectCheatcodeRevert_1Call where
  "expectCheatcodeRevert_1Call revertData depth s = expect_revert s (Some revertData) depth True False None 1"

definition expectCheatcodeRevert_2Call where
  "expectCheatcodeRevert_2Call revertData depth s = expect_revert s (Some revertData) depth True False None 1"

definition expect_safe_memory :: "'ir Cheatcodes \<Rightarrow> u64 \<Rightarrow> u64 \<Rightarrow> u64 \<Rightarrow> 'ir cheat_result" where
  "expect_safe_memory s lo hi depth =
     (if \<not> lo < hi then (Some (MemoryRange lo hi), s)
      else let offsets = (case hm_get (allowed_mem_writes s) depth of None \<Rightarrow> [(0, 0x60)] | Some rs \<Rightarrow> rs)
        in (None, s\<lparr>allowed_mem_writes := hm_insert depth (offsets @ [(lo, hi)]) (allowed_mem_writes s)\<rparr>))"

definition expectSafeMemoryCall where
  "expectSafeMemoryCall lo hi depth s = expect_safe_memory s lo hi depth"

definition stopExpectSafeMemoryCall :: "u64 \<Rightarrow> 'ir Cheatcodes \<Rightarrow> 'ir cheat_result" where
  "stopExpectSafeMemoryCall depth s = (None, s\<lparr>allowed_mem_writes := hm_remove depth (allowed_mem_writes s)\<rparr>)"

text \<open>\<open>None\<close>: the depth overflows.\<close>

definition expectSafeMemoryCallCall :: "u64 \<Rightarrow> u64 \<Rightarrow> u64 \<Rightarrow> 'ir Cheatcodes \<Rightarrow> 'ir cheat_result option" where
  "expectSafeMemoryCallCall lo hi depth s = map_option (expect_safe_memory s lo hi) (checked_add depth 1)"

section \<open>Expected calls\<close>

definition expectation :: "'ir Cheatcodes \<Rightarrow> Address \<Rightarrow> Bytes \<Rightarrow> (ExpectedCallData \<times> u64) option" where
  "expectation s a d = (case hm_get (expected_calls s) a of None \<Rightarrow> None | Some m \<Rightarrow> hm_get m d)"

lemma add_stipend_total: "gas = None \<Longrightarrow> add_stipend value gas = Some None"
  by (auto simp: add_stipend_def split: option.splits)

lemma expectation_keep:
  "expectation (s\<lparr>expected_calls := hm_insert target m (expected_calls s)\<rparr>) a d =
     (if a = target then hm_get m d else expectation s a d)"
  by (simp add: expectation_def cont_simps)

lemma expectation_default:
  "hm_get (case hm_get (expected_calls s) target of None \<Rightarrow> [] | Some m \<Rightarrow> m) d = expectation s target d"
  by (simp add: expectation_def split: option.split)

text \<open>The \<open>expectCall\<close> rules: a counted expectation can neither be set over an existing one nor be
  overwritten by an uncounted one, in both cases with an error that leaves every expectation as it was;
  repeating an uncounted expectation raises its count by one and changes no other field; and a new
  calldata is expected as given, with nothing seen yet. No other target or calldata is affected.\<close>

theorem expect_call_rules:
  assumes "expect_call s target data value gas min_gas n ct = Some (err, s')"
  shows "(\<forall>a d. (a, d) \<noteq> (target, data) \<longrightarrow> expectation s' a d = expectation s a d) \<and>
    (case expectation s target data of
       Some (e, seen) \<Rightarrow>
         if ct = Count then err = Some CountedOnce \<and> expectation s' target data = Some (e, seen)
         else if call_type e = Count then err = Some OverwriteCounted \<and> expectation s' target data = Some (e, seen)
         else err = None \<and> expectation s' target data = Some (e\<lparr>exp_count := exp_count e + 1\<rparr>, seen)
     | None \<Rightarrow> err = None \<and> (\<exists>g mg. add_stipend value gas = Some g \<and> add_stipend value min_gas = Some mg \<and>
         expectation s' target data =
           Some (\<lparr>exp_value = value, exp_gas = g, exp_min_gas = mg, exp_count = n, call_type = ct\<rparr>, 0)))"
proof -
  let ?m = "case hm_get (expected_calls s) target of None \<Rightarrow> [] | Some m \<Rightarrow> m"
  obtain g mg where g: "add_stipend value gas = Some g" and mg: "add_stipend value min_gas = Some mg"
    using assms by (auto simp: expect_call_def Let_def bind_eq_Some_conv)
  note unfolded = assms [unfolded expect_call_def Let_def g mg Option.bind.simps hm_contains_def expectation_default]
  have same: "expectation (s\<lparr>expected_calls := hm_insert target ?m (expected_calls s)\<rparr>) a d = expectation s a d" for a d
    by (simp add: expectation_keep expectation_default)
  have keep: "expectation (s\<lparr>expected_calls := hm_insert target (hm_insert data v ?m) (expected_calls s)\<rparr>) a d = expectation s a d"
    if "a = target \<longrightarrow> d \<noteq> data" for v a d
    using that by (simp add: expectation_keep expectation_default cont_simps)
  have set: "expectation (s\<lparr>expected_calls := hm_insert target (hm_insert data v ?m) (expected_calls s)\<rparr>) target data = Some v" for v
    by (simp add: expectation_keep cont_simps)
  show ?thesis
  proof (cases "expectation s target data")
    case None
    with unfolded g mg show ?thesis by (cases ct) (auto simp: keep set)
  next
    case (Some es)
    then obtain e seen where e: "expectation s target data = Some (e, seen)" by (cases es) auto
    show ?thesis
    proof (cases "ct = Count \<or> call_type e = Count")
      case True
      with unfolded e show ?thesis by (cases ct; cases "call_type e") (auto simp: same)
    next
      case False
      then have "ct = NonCount" "call_type e = NonCount" by (metis ExpectedCallType.exhaust)+
      with unfolded e show ?thesis by (auto simp: keep set bind_eq_Some_conv checked_add_Some)
    qed
  qed
qed

theorem expect_call_rules_witness:
  "\<exists>s1 s2 :: unit Cheatcodes. expect_call new_Cheatcodes 7 [1] (Some 5) None None 3 Count = Some (None, s1) \<and>
     expect_call s1 7 [1] None None None 1 NonCount = Some (Some OverwriteCounted, s2) \<and>
     expectation s2 7 [1] = expectation s1 7 [1]"
proof -
  obtain s1 where s1: "expect_call (new_Cheatcodes :: unit Cheatcodes) 7 [1] (Some 5) None None 3 Count = Some (None, s1)"
    and e: "expectation s1 7 [1] = Some (\<lparr>exp_value = Some 5, exp_gas = None, exp_min_gas = None, exp_count = 3, call_type = Count\<rparr>, 0)"
    by (simp add: expect_call_def new_Cheatcodes_def add_stipend_def hm_contains_def expectation_def)
  have "expect_call s1 7 [1] None None None 1 NonCount \<noteq> None"
    using e by (simp add: expect_call_def add_stipend_def Let_def expectation_default)
  then obtain err s2 where s2: "expect_call s1 7 [1] None None None 1 NonCount = Some (err, s2)"
    by (cases "expect_call s1 7 [1] None None None 1 NonCount") auto
  from expect_call_rules [OF s2] e have "err = Some OverwriteCounted" "expectation s2 7 [1] = expectation s1 7 [1]"
    by simp_all
  with s1 s2 show ?thesis by blast
qed

section \<open>Matching logs in order\<close>

text \<open>The reference: expectations are met one after the other, each by the first log that matches it
  after the previous one was met.\<close>

definition emit_matches :: "ExpectedEmit \<Rightarrow> Log \<Rightarrow> bool" where
  "emit_matches e log =
     ((case em_log e of None \<Rightarrow> False | Some l \<Rightarrow> checks_topics_and_data (em_checks e) l (raw log)) \<and>
      (case em_address e of None \<Rightarrow> True | Some a \<Rightarrow> a = log_address log))"

fun met :: "ExpectedEmit list \<Rightarrow> Log list \<Rightarrow> nat" where
  "met [] ls = 0"
| "met es [] = 0"
| "met (e # es) (l # ls) = (if emit_matches e l then Suc (met es ls) else met (e # es) ls)"

definition awaited :: "ExpectedEmit \<Rightarrow> bool" where
  "awaited e \<longleftrightarrow> em_log e \<noteq> None \<and> \<not> em_found e \<and> em_count e = 1"

text \<open>The counts of an expectation after at most \<open>n\<close> logs.\<close>

definition count_map_ok :: "ExpectedEmit \<Rightarrow> nat \<Rightarrow> LogCountMap \<Rightarrow> bool" where
  "count_map_ok e n m \<longleftrightarrow> lc_checks m = em_checks e \<and> em_log e = Some (expected_log m) \<and>
     distinct (hm_keys (lc_map m)) \<and> 0 < (\<Sum>p\<leftarrow>lc_map m. unat (snd p)) \<and> (\<Sum>p\<leftarrow>lc_map m. unat (snd p)) \<le> n"

definition counts_ok :: "ExpectedEmit \<Rightarrow> nat \<Rightarrow> (Address, LogCountMap) hmap \<Rightarrow> bool" where
  "counts_ok e n counts \<longleftrightarrow> (\<forall>(a, m)\<in>set counts. count_map_ok e n m)"

lemma sum_u64_ok:
  "unat acc + (\<Sum>c\<leftarrow>cs. unat c) < 2 ^ 64 \<Longrightarrow> \<exists>t. sum_u64 cs acc = Some t \<and> unat t = unat acc + (\<Sum>c\<leftarrow>cs. unat c)"
proof (induction cs arbitrary: acc)
  case (Cons c cs)
  have "unat acc + unat c < 2 ^ 64" using Cons.prems by simp
  then have add: "checked_add acc c = Some (acc + c)" "unat (acc + c) = unat acc + unat c"
    by (simp_all add: checked_add_def unat_add_no_wrap)
  from Cons.IH [of "acc + c"] Cons.prems add show ?case by (simp add: add.assoc)
qed simp

lemma lc_count_ok:
  assumes "count_map_ok e n m" and "n < 2 ^ 64" and "satisfies_checks m log"
  shows "\<exists>c. lc_count m log = Some c \<and> 1 \<le> c"
proof -
  have sum: "(\<Sum>c\<leftarrow>map snd (lc_map m). unat c) = (\<Sum>p\<leftarrow>lc_map m. unat (snd p))" by (simp add: comp_def)
  have "unat (0 :: u64) + (\<Sum>c\<leftarrow>map snd (lc_map m). unat c) < 2 ^ 64"
    unfolding sum using assms(1,2) by (auto simp: count_map_ok_def)
  from sum_u64_ok [OF this] obtain t where t: "sum_u64 (map snd (lc_map m)) 0 = Some t"
    "unat t = (\<Sum>p\<leftarrow>lc_map m. unat (snd p))" unfolding sum by auto
  then have "1 \<le> t" using assms(1) by (simp add: count_map_ok_def word_le_nat_alt)
  with t assms(3) show ?thesis by (simp add: lc_count_def count_unchecked_def)
qed

lemma sum_insert_count:
  fixes m :: "('k, u64) hmap"
  assumes "distinct (map fst m)" and "unat v = (case hm_get m k of None \<Rightarrow> 0 | Some t \<Rightarrow> unat t) + d"
  shows "(\<Sum>p\<leftarrow>hm_insert k v m. unat (snd p)) = (\<Sum>p\<leftarrow>m. unat (snd p)) + d"
  using assms
proof (induction m)
  case (Cons p m)
  show ?case
  proof (cases "fst p = k")
    case True
    with Cons.prems show ?thesis by (cases p) simp
  next
    case False
    with Cons show ?thesis by (cases p) simp
  qed
qed simp

lemma member_sum_le: "hm_get m k = Some c \<Longrightarrow> unat c \<le> (\<Sum>p\<leftarrow>m. unat (snd p))"
  by (induction m) (auto split: if_splits)

lemma lc_insert_ok:
  assumes "count_map_ok e n m \<or> lc_map m = [] \<and> lc_checks m = em_checks e \<and> em_log e = Some (expected_log m) \<and> satisfies_checks m log"
    and "n + 1 < 2 ^ 64"
  shows "\<exists>m'. lc_insert log m = Some m' \<and> count_map_ok e (Suc n) m'"
proof (cases "hm_get (lc_map m) log")
  case None
  show ?thesis
  proof (cases "satisfies_checks m log")
    case True
    have keys: "distinct (hm_keys (lc_map m))" and le: "(\<Sum>p\<leftarrow>lc_map m. unat (snd p)) \<le> n"
      using assms(1) by (auto simp: count_map_ok_def)
    have "(\<Sum>p\<leftarrow>hm_insert log 1 (lc_map m). unat (snd p)) = (\<Sum>p\<leftarrow>lc_map m. unat (snd p)) + 1"
      by (rule sum_insert_count [OF keys]) (simp add: None)
    with True None le keys assms(1) show ?thesis
      by (auto simp: lc_insert_def count_map_ok_def distinct_update)
  next
    case False
    with None assms(1) show ?thesis by (auto simp: lc_insert_def count_map_ok_def)
  qed
next
  case (Some c)
  with assms(1) have ok: "count_map_ok e n m" by auto
  have "unat c \<le> n" using member_sum_le [OF Some] ok by (simp add: count_map_ok_def)
  with assms(2) have add: "checked_add c 1 = Some (c + 1)" "unat (c + 1) = unat c + 1"
    by (simp_all add: checked_add_def unat_add_no_wrap)
  have "(\<Sum>p\<leftarrow>hm_insert log (c + 1) (lc_map m). unat (snd p)) = (\<Sum>p\<leftarrow>lc_map m. unat (snd p)) + 1"
    by (rule sum_insert_count) (use ok Some add in \<open>simp_all add: count_map_ok_def\<close>)
  with Some add ok show ?thesis by (auto simp: lc_insert_def count_map_ok_def distinct_update)
qed

lemma count_map_ok_mono: "count_map_ok e n m \<Longrightarrow> n \<le> k \<Longrightarrow> count_map_ok e k m"
  by (simp add: count_map_ok_def)

lemma counts_ok_insert:
  assumes "counts_ok e n counts" and "count_map_ok e (Suc n) m"
  shows "counts_ok e (Suc n) (hm_insert a m counts)"
proof -
  have "set (hm_insert a m counts) \<subseteq> insert (a, m) (set counts)"
    by (induction counts) auto
  with assms count_map_ok_mono [of e n _ "Suc n"] show ?thesis by (fastforce simp: counts_ok_def)
qed

lemma counts_ok_mono: "counts_ok e n counts \<Longrightarrow> n \<le> k \<Longrightarrow> counts_ok e k counts"
  using count_map_ok_mono by (fastforce simp: counts_ok_def)

text \<open>Counting a log never fails, and a matching log leaves an entry for its emitter.\<close>

lemma count_log_ok:
  assumes "awaited e" and "counts_ok e n counts" and "n + 1 < 2 ^ 64"
  shows "\<exists>counts'. count_log e log counts = Some counts' \<and> counts_ok e (Suc n) counts' \<and>
    (emit_matches e log \<longrightarrow> hm_get counts' (log_address log) \<noteq> None)"
proof (cases "hm_get counts (log_address log)")
  case None
  obtain l where l: "em_log e = Some l" using assms(1) by (auto simp: awaited_def)
  define m where "m = \<lparr>lc_checks = em_checks e, expected_log = l, lc_map = []\<rparr>"
  have new: "new_LogCountMap e = Some m" by (simp add: new_LogCountMap_def l m_def)
  show ?thesis
  proof (cases "satisfies_checks m (raw log)")
    case True
    obtain m' where m': "lc_insert (raw log) m = Some m'" "count_map_ok e (Suc n) m'"
      using lc_insert_ok [of e n m "raw log"] assms(3) True l by (auto simp: m_def)
    with None new True counts_ok_insert [OF assms(2) m'(2)] show ?thesis
      by (simp add: count_log_def cont_simps)
  next
    case False
    with None new l counts_ok_mono [OF assms(2), of "Suc n"] show ?thesis
      by (simp add: count_log_def emit_matches_def satisfies_checks_def m_def)
  qed
next
  case (Some m)
  then have "count_map_ok e n m" using assms(2) map_of_SomeD [OF Some] by (auto simp: counts_ok_def)
  then obtain m' where m': "lc_insert (raw log) m = Some m'" "count_map_ok e (Suc n) m'"
    using lc_insert_ok [of e n m "raw log"] assms(3) by auto
  with Some counts_ok_insert [OF assms(2) m'(2)] show ?thesis by (simp add: count_log_def cont_simps)
qed

lemma emit_found_ok:
  assumes "hash_order order" and e: "awaited e" and l: "em_log e = Some l" and ok: "counts_ok e n counts" and n: "n < 2 ^ 64"
    and entry: "emit_matches e log \<longrightarrow> hm_get counts (log_address log) \<noteq> None"
  shows "emit_found order e l log counts = Some (emit_matches e log)"
proof (cases "emit_matches e log")
  case False
  then show ?thesis using l by (auto simp: emit_found_def emit_matches_def split: option.splits)
next
  case True
  have sat: "satisfies_checks m (raw log)" if "count_map_ok e n m" for m
    using that True l by (auto simp: satisfies_checks_def count_map_ok_def emit_matches_def)
  have member: "count_map_ok e n m" if "(a, m) \<in> set (order counts)" for a m
    using ok that by (auto simp: counts_ok_def hash_order.set_order [OF assms(1)])
  obtain m0 where m0: "hm_get counts (log_address log) = Some m0" using entry True by auto
  have "\<exists>m. (case em_address e of Some emitter \<Rightarrow> hm_get counts emitter
       | None \<Rightarrow> map_option snd (find (\<lambda>(a, m). satisfies_checks m (raw log)) (order counts))) = Some m \<and> count_map_ok e n m"
  proof (cases "em_address e")
    case None
    have "(log_address log, m0) \<in> set (order counts)"
      using map_of_SomeD [OF m0] by (simp add: hash_order.set_order [OF assms(1)])
    then have "find (\<lambda>(a, m). satisfies_checks m (raw log)) (order counts) \<noteq> None"
      using sat [OF member] by (auto simp: find_None_iff)
    then obtain am where am: "find (\<lambda>(a, m). satisfies_checks m (raw log)) (order counts) = Some am" by auto
    then obtain i where "i < length (order counts)" "order counts ! i = am" by (auto simp: find_Some_iff)
    then have "am \<in> set (order counts)" using nth_mem by blast
    with None am member show ?thesis by (cases am) simp
  next
    case (Some emitter)
    with True have "emitter = log_address log" by (simp add: emit_matches_def)
    with Some m0 ok map_of_SomeD [OF m0] show ?thesis by (auto simp: counts_ok_def)
  qed
  then obtain m where m: "(case em_address e of Some emitter \<Rightarrow> hm_get counts emitter
       | None \<Rightarrow> map_option snd (find (\<lambda>(a, m). satisfies_checks m (raw log)) (order counts))) = Some m"
    and mok: "count_map_ok e n m" by (elim exE conjE)
  obtain c where c: "lc_count m (raw log) = Some c" "1 \<le> c" using lc_count_ok [OF mok n sat [OF mok]] by auto
  have checks: "checks_topics_and_data (em_checks e) l (raw log)" "em_address e = None \<or> em_address e = Some (log_address log)"
    using True l by (auto simp: emit_matches_def split: option.splits)
  then show ?thesis
    using True c e unfolding emit_found_def m by (auto simp: awaited_def)
qed

text \<open>The queue: the awaited expectations, oldest first, then the met ones in the order they were met.\<close>

definition queue_at :: "nat \<Rightarrow> ExpectedEmit list \<Rightarrow> ExpectedEmit list \<Rightarrow> ExpectedEmitTracker \<Rightarrow> bool" where
  "queue_at n es fs q \<longleftrightarrow> map fst q = es @ fs \<and> list_all awaited es \<and>
     list_all (\<lambda>e. em_found e \<and> em_log e \<noteq> None) fs \<and>
     (\<forall>(e, counts)\<in>set q. awaited e \<longrightarrow> counts_ok e n counts)"

lemma queue_at_Cons:
  "queue_at n (e # es) fs q \<longleftrightarrow>
   (\<exists>counts q'. q = (e, counts) # q' \<and> awaited e \<and> counts_ok e n counts \<and> queue_at n es fs q')"
  by (cases q) (auto simp: queue_at_def)

lemma queue_at_mono: "queue_at n es fs q \<Longrightarrow> queue_at (Suc n) es fs q"
  unfolding queue_at_def using counts_ok_mono [of _ n _ "Suc n"] by fastforce

lemma queue_at_snoc:
  assumes "queue_at n es fs q" and "em_found e" and "em_log e \<noteq> None"
  shows "queue_at n es (fs @ [e]) (q @ [(e, counts)])"
  using assms by (auto simp: queue_at_def awaited_def)

lemma queue_at_filled: "queue_at n es fs q \<Longrightarrow> \<not> list_ex (\<lambda>(e, _). em_log e = None) q"
proof -
  assume q: "queue_at n es fs q"
  then have "list_all (\<lambda>e. em_log e \<noteq> None) (map fst q)"
    by (auto simp: queue_at_def awaited_def list_all_iff)
  then show ?thesis by (auto simp: list_all_iff list_ex_iff)
qed

lemma handle_expect_emit_step:
  assumes "hash_order order" and q: "queue_at n (e # es) fs (expected_emits s)" and n: "n + 1 < 2 ^ 64"
  shows "\<exists>s'. handle_expect_emit order log s = Some (False, s') \<and>
    (if emit_matches e log then queue_at (Suc n) es (fs @ [e\<lparr>em_found := True\<rparr>]) (expected_emits s')
     else queue_at (Suc n) (e # es) fs (expected_emits s'))"
proof -
  obtain counts q' where eq: "expected_emits s = (e, counts) # q'" and e: "awaited e"
    and ok: "counts_ok e n counts" and q': "queue_at n es fs q'"
    using q unfolding queue_at_Cons by (elim exE conjE)
  obtain l where l: "em_log e = Some l" using e by (auto simp: awaited_def)
  obtain counts' where c: "count_log e log counts = Some counts'" "counts_ok e (Suc n) counts'"
    "emit_matches e log \<longrightarrow> hm_get counts' (log_address log) \<noteq> None"
    using count_log_ok [OF e ok n, of log] by (elim exE conjE)
  have "Suc n < 2 ^ 64" using n by simp
  note found = emit_found_ok [OF assms(1) e l c(2) this c(3)]
  let ?e = "e\<lparr>em_found := emit_matches e log\<rparr>"
  have "handle_expect_emit order log s = Some (False, s\<lparr>expected_emits :=
      (if emit_matches e log then q' @ [(?e, counts')] else (?e, counts') # q')\<rparr>)"
    using queue_at_filled [OF q] e l unfolding handle_expect_emit_def eq
    by (simp add: Let_def c(1) found awaited_def)
  moreover have "?e = e" if "\<not> emit_matches e log" using e that by (simp add: awaited_def)
  ultimately show ?thesis
    using queue_at_mono [OF q'] queue_at_snoc [OF queue_at_mono [OF q'], of ?e counts'] e l c(2)
    by (auto simp: queue_at_Cons awaited_def)
qed

lemma handle_expect_emit_done:
  "queue_at n [] fs (expected_emits s) \<Longrightarrow> handle_expect_emit order log s = Some (False, s)"
proof -
  assume "queue_at n [] fs (expected_emits s)"
  then have "list_all em_found (map fst (expected_emits s))" by (auto simp: queue_at_def list_all_iff)
  then have "list_all (\<lambda>(e, _). em_found e) (expected_emits s)" by (auto simp: list_all_iff)
  then show ?thesis by (simp add: handle_expect_emit_def)
qed

lemma run_done: "queue_at n [] fs (expected_emits s) \<Longrightarrow>
  run (handle_expect_emit order) ls s = Some (map (\<lambda>_. False) ls, s)"
  by (induction ls) (simp_all add: handle_expect_emit_done)

lemma run_logs:
  assumes "hash_order order"
  shows "queue_at n es fs (expected_emits s) \<Longrightarrow> n + length ls < 2 ^ 64 \<Longrightarrow>
    \<exists>s'. run (handle_expect_emit order) ls s = Some (map (\<lambda>_. False) ls, s') \<and>
      map fst (expected_emits s') = drop (met es ls) es @ fs @ map (em_found_update (\<lambda>_. True)) (take (met es ls) es)"
proof (induction es ls arbitrary: n fs s rule: met.induct)
  case (1 ls)
  have "map fst (expected_emits s) = fs" using "1.prems"(1) by (simp add: queue_at_def)
  with run_done [OF "1.prems"(1), of order ls] show ?case by simp
next
  case (2 e es)
  then show ?case by (auto simp: queue_at_def)
next
  case (3 e es l ls)
  have n: "n + 1 < 2 ^ 64" and rest: "Suc n + length ls < 2 ^ 64" using "3.prems"(2) by simp_all
  obtain s1 where s1: "handle_expect_emit order l s = Some (False, s1)"
    and q1: "if emit_matches e l then queue_at (Suc n) es (fs @ [e\<lparr>em_found := True\<rparr>]) (expected_emits s1)
      else queue_at (Suc n) (e # es) fs (expected_emits s1)"
    using handle_expect_emit_step [OF assms "3.prems"(1) n, of l] by (elim exE conjE)
  show ?case
  proof (cases "emit_matches e l")
    case True
    with q1 have "queue_at (Suc n) es (fs @ [e\<lparr>em_found := True\<rparr>]) (expected_emits s1)" by simp
    from "3.IH"(1) [OF True this rest] s1 True show ?thesis by auto
  next
    case False
    with q1 have "queue_at (Suc n) (e # es) fs (expected_emits s1)" by simp
    from "3.IH"(2) [OF False this rest] s1 False show ?thesis by auto
  qed
qed

text \<open>C14. Expected emits are matched in the order they were declared: whatever logs are emitted, with
  all expectations filled and each wanted once, no log makes the handler fail, and afterwards
  exactly the first \<open>met es ls\<close> expectations are found and moved behind the others, which still wait in
  their order, for any iteration order of the hash maps. So all are found exactly when the logs contain, as
  a subsequence, matches of all expectations in order.\<close>

theorem emits_matched_in_order:
  assumes "hash_order order" and "list_all awaited es" and "length ls < 2 ^ 64"
    and "expected_emits s = map (\<lambda>e. (e, [])) es"
  shows "\<exists>s'. run (handle_expect_emit order) ls s = Some (map (\<lambda>_. False) ls, s') \<and>
    map fst (expected_emits s') = drop (met es ls) es @ map (em_found_update (\<lambda>_. True)) (take (met es ls) es) \<and>
    (list_all (\<lambda>(e, _). em_found e) (expected_emits s') \<longleftrightarrow> met es ls = length es)"
proof -
  have q: "queue_at 0 es [] (expected_emits s)"
    using assms(2,4) by (auto simp: queue_at_def counts_ok_def list_all_iff comp_def)
  obtain s' where s': "run (handle_expect_emit order) ls s = Some (map (\<lambda>_. False) ls, s')"
    and es: "map fst (expected_emits s') = drop (met es ls) es @ [] @ map (em_found_update (\<lambda>_. True)) (take (met es ls) es)"
    using run_logs [OF assms(1) q, of ls] assms(3) by auto
  have le: "met es ls \<le> length es" by (induction es ls rule: met.induct) auto
  have "list_all (\<lambda>(e, _). em_found e) (expected_emits s') \<longleftrightarrow> list_all em_found (map fst (expected_emits s'))"
    by (auto simp: list_all_iff)
  also have "\<dots> \<longleftrightarrow> drop (met es ls) es = []"
  proof -
    have "\<not> em_found e" if "e \<in> set (drop (met es ls) es)" for e
      using assms(2) in_set_dropD [OF that] by (auto simp: list_all_iff awaited_def)
    then show ?thesis unfolding es by (cases "drop (met es ls) es") (auto simp: list_all_iff)
  qed
  also have "\<dots> \<longleftrightarrow> met es ls = length es" using le by auto
  finally show ?thesis using s' es by auto
qed

text \<open>Two expectations of any emitter on the first topic, and four logs.\<close>

definition sample_emit :: "B256 \<Rightarrow> ExpectedEmit" where
  "sample_emit t = \<lparr>em_depth = 1, em_log = Some \<lparr>topics = [t], log_data = []\<rparr>, em_checks = [True, True, True, True, False],
     em_address = None, anonymous = False, em_found = False, em_count = 1\<rparr>"

definition sample_log :: "Address \<Rightarrow> B256 \<Rightarrow> Log" where
  "sample_log a t = \<lparr>log_address = a, raw = \<lparr>topics = [t], log_data = [1]\<rparr>\<rparr>"

theorem emits_matched_in_order_witness:
  "\<exists>s'. run (handle_expect_emit reverse_order) [sample_log 3 6, sample_log 3 5, sample_log 4 5, sample_log 4 6]
       ((new_Cheatcodes :: unit Cheatcodes)\<lparr>expected_emits := [(sample_emit 5, []), (sample_emit 6, [])]\<rparr>) =
       Some ([False, False, False, False], s') \<and> list_all (\<lambda>(e, _). em_found e) (expected_emits s')"
proof -
  let ?es = "[sample_emit 5, sample_emit 6]" and ?ls = "[sample_log 3 6, sample_log 3 5, sample_log 4 5, sample_log 4 6]"
  let ?s = "(new_Cheatcodes :: unit Cheatcodes)\<lparr>expected_emits := [(sample_emit 5, []), (sample_emit 6, [])]\<rparr>"
  have es: "list_all awaited ?es" by (simp add: awaited_def sample_emit_def)
  have q: "expected_emits ?s = map (\<lambda>e. (e, [])) ?es" by simp
  have all: "met ?es ?ls = length ?es" by code_simp
  have flags: "map (\<lambda>_. False) ?ls = [False, False, False, False]" by simp
  have "length ?ls < 2 ^ 64" by simp
  from emits_matched_in_order [OF reversed.hash_order_axioms es this q] all
  obtain s' where "run (handle_expect_emit reverse_order) ?ls ?s = Some (map (\<lambda>_. False) ?ls, s')"
    "list_all (\<lambda>(e, _). em_found e) (expected_emits s')" by blast
  then show ?thesis unfolding flags by (intro exI conjI)
qed

text \<open>With a count above one and no emitter given, whether an expectation is met depends on the
  iteration order of a hash map: the handler compares the count of whichever emitter comes first, and not
  the sum over the emitters that the check at the end of the call uses. Here one contract emits the
  log twice and another one once, two are expected, and the two orders disagree.\<close>

theorem emit_count_depends_on_order:
  "\<exists>s a b.
     run (handle_expect_emit insertion_order) [sample_log 3 5, sample_log 4 5, sample_log 4 5] s = Some ([False, False, False], a) \<and>
     run (handle_expect_emit reverse_order) [sample_log 3 5, sample_log 4 5, sample_log 4 5] s = Some ([False, False, False], b) \<and>
     map fst (expected_emits (s :: unit Cheatcodes)) = [(sample_emit 5)\<lparr>em_count := 2\<rparr>] \<and>
     \<not> list_all (\<lambda>(e, _). em_found e) (expected_emits a) \<and> list_all (\<lambda>(e, _). em_found e) (expected_emits b)"
proof -
  let ?s = "(new_Cheatcodes :: unit Cheatcodes)\<lparr>expected_emits := [((sample_emit 5)\<lparr>em_count := 2\<rparr>, [])]\<rparr>"
  let ?ls = "[sample_log 3 5, sample_log 4 5, sample_log 4 5]"
  have "(case run (handle_expect_emit insertion_order) ?ls ?s of
      None \<Rightarrow> False | Some (fs, s) \<Rightarrow> fs = [False, False, False] \<and> \<not> list_all (\<lambda>(e, _). em_found e) (expected_emits s))"
    by code_simp
  moreover have "(case run (handle_expect_emit reverse_order) ?ls ?s of
      None \<Rightarrow> False | Some (fs, s) \<Rightarrow> fs = [False, False, False] \<and> list_all (\<lambda>(e, _). em_found e) (expected_emits s))"
    by code_simp
  ultimately obtain a b where "run (handle_expect_emit insertion_order) ?ls ?s = Some ([False, False, False], a)"
    "\<not> list_all (\<lambda>(e, _). em_found e) (expected_emits a)"
    "run (handle_expect_emit reverse_order) ?ls ?s = Some ([False, False, False], b)"
    "list_all (\<lambda>(e, _). em_found e) (expected_emits b)"
    by (auto split: option.splits)
  then show ?thesis by (intro exI [of _ ?s] exI [of _ a] exI [of _ b] conjI) simp_all
qed

end
