(* ===== verification/Cheat_Revert.thy ===== *)
theory Cheat_Revert
  imports Cheat_Expect
begin

text \<open>
  Expected and assumed reverts: \<open>crates/cheatcodes/src/test/revert_handlers.rs\<close>, \<open>test/assume.rs\<close>, and the
  places of \<open>inspector.rs\<close> where the end of a call or a create consults them. ABI decoding, the search in
  byte strings and the encoding of errors belong to other crates and are gathered in \<open>abi_api\<close>. The
  lemmas characterise when a revert is accepted and follow an expectation through calls.
\<close>

section \<open>Handlers\<close>

record abi_api =
  revert_selectors :: "Bytes list"
  abi_decode_bytes :: "Bytes \<Rightarrow> Bytes option"
  memmem :: "Bytes \<Rightarrow> Bytes \<Rightarrow> bool"
  abi_encode :: "cheat_error \<Rightarrow> Bytes"

definition slice_to :: "nat \<Rightarrow> Bytes \<Rightarrow> Bytes option" where
  "slice_to n bs = (if n \<le> length bs then Some (take n bs) else None)"

definition decode_revert :: "abi_api \<Rightarrow> Bytes \<Rightarrow> Bytes" where
  "decode_revert abi r =
     (case slice_to 4 r of
        None \<Rightarrow> r
      | Some sel \<Rightarrow>
          if sel \<in> set (revert_selectors abi)
          then (case abi_decode_bytes abi (drop 4 r) of Some d \<Rightarrow> d | None \<Rightarrow> r)
          else r)"

text \<open>The parameters of a revert (\<open>RevertParameters\<close>): the reverter, the reason and whether a partial
  match suffices.\<close>

record RevertParameters =
  rp_reverter :: "Address option"
  rp_reason :: "Bytes option"
  rp_partial :: bool

definition params_expected :: "ExpectedRevert \<Rightarrow> RevertParameters" where
  "params_expected e = \<lparr>rp_reverter = reverter e, rp_reason = reason e, rp_partial = partial_match e\<rparr>"

definition params_acceptable :: "AcceptableRevertParameters \<Rightarrow> RevertParameters" where
  "params_acceptable a = \<lparr>rp_reverter = ar_reverter a, rp_reason = Some (ar_reason a), rp_partial = ar_partial_match a\<rparr>"

definition handle_revert ::
    "abi_api \<Rightarrow> bool \<Rightarrow> RevertParameters \<Rightarrow> Bytes \<Rightarrow> Address option \<Rightarrow> cheat_error option" where
  "handle_revert abi is_cheatcode ps retdata who =
     (case (case (rp_reverter ps, who) of
              (Some expected, Some actual) \<Rightarrow> if expected \<noteq> actual then Some (WrongReverter actual expected) else None
            | _ \<Rightarrow> None) of
        Some e \<Rightarrow> Some e
      | None \<Rightarrow>
          (case rp_reason ps of
             None \<Rightarrow> None
           | Some expected_reason \<Rightarrow>
               if expected_reason \<noteq> [] \<and> retdata = [] then Some NoRevertData
               else if rp_partial ps \<and> slice_to 4 retdata = slice_to 4 expected_reason then None
               else let actual_revert = decode_revert abi retdata
                 in if actual_revert = expected_reason \<or> (is_cheatcode \<and> memmem abi actual_revert expected_reason)
                    then None
                    else Some (WrongRevert actual_revert expected_reason)))"

definition handle_assume_no_revert :: "abi_api \<Rightarrow> AssumeNoRevert \<Rightarrow> Bytes \<Rightarrow> cheat_error option" where
  "handle_assume_no_revert abi a retdata =
     (if reasons a = [] then None
      else if list_ex (\<lambda>r. handle_revert abi False (params_acceptable r) retdata (as_reverted_by a) = None) (reasons a)
        then None
        else Some (RawError retdata))"

definition DUMMY_CALL_OUTPUT :: Bytes where
  "DUMMY_CALL_OUTPUT = replicate 8192 0"

definition DUMMY_CREATE_ADDRESS :: Address where
  "DUMMY_CREATE_ADDRESS = 1"

definition success_return :: "bool \<Rightarrow> Address option \<times> Bytes" where
  "success_return is_create = (if is_create then (Some DUMMY_CREATE_ADDRESS, []) else (None, DUMMY_CALL_OUTPUT))"

definition handle_expect_revert ::
    "'ir ir_api \<Rightarrow> abi_api \<Rightarrow> bool \<Rightarrow> bool \<Rightarrow> bool \<Rightarrow> ExpectedRevert \<Rightarrow> 'ir \<Rightarrow> Bytes \<Rightarrow>
     cheat_error + (Address option \<times> Bytes)" where
  "handle_expect_revert ir abi is_cheatcode is_create internal_expect_revert e status retdata =
     (if (\<not> is_cheatcode \<and> \<not> internal_expect_revert) \<and> \<not> max_depth e > rv_depth e then Inl NotDeeper
      else if rv_count e = 0 then
        (if reverter e = None \<and> reason e = None then
           (if \<not> is_ok ir status then Inl UnexpectedRevert else Inr (success_return is_create))
         else
           (let reverter_match = (case (reverter e, reverted_by e) of
                  (Some expected, Some actual) \<Rightarrow> if expected = actual then Some True else Some False
                | (r, _) \<Rightarrow> map_option (\<lambda>_. False) r);
                reason_match = map_option (\<lambda>r. decode_revert abi retdata = r) (reason e)
            in case (reason_match, reverter_match) of
                 (Some True, Some True) \<Rightarrow>
                   Inl (RevertWithReasonFrom (case reason e of None \<Rightarrow> [] | Some r \<Rightarrow> r) (the (reverter e)))
               | (Some True, None) \<Rightarrow> Inl (RevertWithReason (case reason e of None \<Rightarrow> [] | Some r \<Rightarrow> r))
               | (None, Some True) \<Rightarrow> Inl (RevertFrom (the (reverter e)))
               | _ \<Rightarrow> Inr (success_return is_create)))
      else if is_ok ir status then Inl DidNotRevert
      else case handle_revert abi is_cheatcode (params_expected e) retdata (reverted_by e) of
             Some err \<Rightarrow> Inl err
           | None \<Rightarrow> Inr (success_return is_create))"

section \<open>Assumptions\<close>

definition assume_no_revert_impl ::
    "'ir Cheatcodes \<Rightarrow> u64 \<Rightarrow> AcceptableRevertParameters list \<Rightarrow> 'ir cheat_result" where
  "assume_no_revert_impl s depth ps =
     (if assume_no_revert s \<noteq> None then (Some AssumeAgain, s)
      else (None, s\<lparr>assume_no_revert := Some \<lparr>as_depth = depth, reasons = ps, as_reverted_by = None\<rparr>\<rparr>))"

definition assumeCall :: "bool \<Rightarrow> 'ir Cheatcodes \<Rightarrow> 'ir cheat_result" where
  "assumeCall condition s = (if condition then (None, s) else (Some MagicAssume, s))"

text \<open>A \<open>PotentialRevert\<close> is the reverter, the partial flag and the data.\<close>

definition acceptable_from :: "Address \<times> bool \<times> Bytes \<Rightarrow> AcceptableRevertParameters" where
  "acceptable_from = (\<lambda>(who, part, data). \<lparr>ar_reason = data, ar_partial_match = part,
     ar_reverter = (if who = 0 then None else Some who)\<rparr>)"

definition assumeNoRevert_0Call :: "u64 \<Rightarrow> 'ir Cheatcodes \<Rightarrow> 'ir cheat_result" where
  "assumeNoRevert_0Call depth s = assume_no_revert_impl s depth []"

definition assumeNoRevert_1Call :: "Address \<times> bool \<times> Bytes \<Rightarrow> u64 \<Rightarrow> 'ir Cheatcodes \<Rightarrow> 'ir cheat_result" where
  "assumeNoRevert_1Call p depth s = assume_no_revert_impl s depth [acceptable_from p]"

definition assumeNoRevert_2Call :: "(Address \<times> bool \<times> Bytes) list \<Rightarrow> u64 \<Rightarrow> 'ir Cheatcodes \<Rightarrow> 'ir cheat_result" where
  "assumeNoRevert_2Call ps depth s = assume_no_revert_impl s depth (map acceptable_from ps)"

section \<open>The end of a call\<close>

record 'ir Outcome =
  result :: 'ir
  out_data :: Bytes
  out_address :: "Address option"

text \<open>The parts of \<open>call_end\<close> and \<open>create_end_common\<close>. The flag says whether the hook returns there.\<close>

definition fail_with :: "'ir ir_api \<Rightarrow> abi_api \<Rightarrow> cheat_error \<Rightarrow> 'ir Outcome \<Rightarrow> 'ir Outcome" where
  "fail_with ir abi e out = out\<lparr>result := Revert_ir ir, out_data := abi_encode abi e\<rparr>"

definition call_end_assume ::
    "'ir ir_api \<Rightarrow> abi_api \<Rightarrow> u64 \<Rightarrow> bool \<Rightarrow> Address \<Rightarrow> 'ir Outcome \<Rightarrow> 'ir Cheatcodes \<Rightarrow> bool \<times> 'ir Outcome \<times> 'ir Cheatcodes" where
  "call_end_assume ir abi depth cheatcode_call target out s =
     (case assume_no_revert s of
        None \<Rightarrow> (False, out, s)
      | Some a \<Rightarrow>
          (let a = (if is_revert ir (result out) \<and> as_reverted_by a = None then a\<lparr>as_reverted_by := Some target\<rparr> else a)
           in if depth \<le> as_depth a \<and> \<not> cheatcode_call then
                (if is_revert ir (result out) then
                   (case handle_assume_no_revert abi a (out_data out) of
                      None \<Rightarrow> (True, out\<lparr>out_data := abi_encode abi MagicAssume\<rparr>, s\<lparr>assume_no_revert := None\<rparr>)
                    | Some e \<Rightarrow> (True, fail_with ir abi e out, s\<lparr>assume_no_revert := None\<rparr>))
                 else (True, out, s\<lparr>assume_no_revert := None\<rparr>))
              else (False, out, s\<lparr>assume_no_revert := Some a\<rparr>)))"

text \<open>\<open>None\<close>: the count of reverts overflows.\<close>

definition revert_seen :: "ExpectedRevert \<Rightarrow> 'ir Cheatcodes \<Rightarrow> 'ir Cheatcodes option" where
  "revert_seen e s = do {
     n \<leftarrow> checked_add (actual_count e) 1;
     let e = e\<lparr>actual_count := n\<rparr>;
     Some (s\<lparr>expected_revert := (if n < rv_count e then Some e else None)\<rparr>)
   }"

definition call_end_expected_revert ::
    "'ir ir_api \<Rightarrow> abi_api \<Rightarrow> bool \<Rightarrow> u64 \<Rightarrow> bool \<Rightarrow> Address \<Rightarrow> 'ir Outcome \<Rightarrow> 'ir Cheatcodes \<Rightarrow>
     (bool \<times> 'ir Outcome \<times> 'ir Cheatcodes) option" where
  "call_end_expected_revert ir abi internal depth cheatcode_call target out s =
     (case expected_revert s of
        None \<Rightarrow> Some (False, out, s)
      | Some e \<Rightarrow>
          (let e = (if is_revert ir (result out) \<and> reverter e \<noteq> None \<and> (reverted_by e = None \<or> rv_count e > 1)
                    then e\<lparr>reverted_by := Some target\<rparr> else e)
           in if depth \<le> rv_depth e then
                (if (case rv_kind e of Default \<Rightarrow> \<not> cheatcode_call | Cheatcode pending \<Rightarrow> cheatcode_call \<and> \<not> pending) then
                   (case handle_expect_revert ir abi cheatcode_call False internal e (result out) (out_data out) of
                      Inl err \<Rightarrow> Some (True, fail_with ir abi err out, s\<lparr>expected_revert := None\<rparr>)
                    | Inr (_, retdata) \<Rightarrow> do {
                        s' \<leftarrow> revert_seen e s;
                        Some (True, out\<lparr>result := Return_ir ir, out_data := retdata\<rparr>, s')
                      })
                 else Some (False, out, s\<lparr>expected_revert := Some (case rv_kind e of
                        Default \<Rightarrow> e | Cheatcode _ \<Rightarrow> e\<lparr>rv_kind := Cheatcode False\<rparr>)\<rparr>))
              else Some (False, out, s\<lparr>expected_revert := Some e\<rparr>)))"

definition create_end_expected_revert ::
    "'ir ir_api \<Rightarrow> abi_api \<Rightarrow> bool \<Rightarrow> u64 \<Rightarrow> 'ir Outcome \<Rightarrow> 'ir Cheatcodes \<Rightarrow> (bool \<times> 'ir Outcome \<times> 'ir Cheatcodes) option" where
  "create_end_expected_revert ir abi internal depth out s =
     (case expected_revert s of
        None \<Rightarrow> Some (False, out, s)
      | Some e \<Rightarrow>
          if depth \<le> rv_depth e \<and> rv_kind e = Default then
            (case handle_expect_revert ir abi False True internal e (result out) (out_data out) of
               Inr (address, retdata) \<Rightarrow> do {
                 s' \<leftarrow> revert_seen e s;
                 Some (True, out\<lparr>result := Return_ir ir, out_data := retdata, out_address := address\<rparr>, s')
               }
             | Inl err \<Rightarrow> Some (True, fail_with ir abi err out, s\<lparr>expected_revert := None\<rparr>))
          else Some (False, out, s))"

text \<open>The start of a frame (\<open>initialize_interp\<close>): the deepest call since the expectation.\<close>

definition track_max_depth :: "u64 \<Rightarrow> 'ir Cheatcodes \<Rightarrow> 'ir Cheatcodes" where
  "track_max_depth depth s = s\<lparr>expected_revert :=
     map_option (\<lambda>e. e\<lparr>max_depth := max depth (max_depth e)\<rparr>) (expected_revert s)\<rparr>"

section \<open>Following an expected revert\<close>

text \<open>One call that ends at the depth of the expectation and is not a cheatcode.\<close>

definition plain_call_end ::
    "'ir ir_api \<Rightarrow> abi_api \<Rightarrow> bool \<Rightarrow> u64 \<Rightarrow> Address \<Rightarrow> 'ir Outcome \<Rightarrow> 'ir Cheatcodes \<Rightarrow>
     ((bool \<times> 'ir Outcome) \<times> 'ir Cheatcodes) option" where
  "plain_call_end ir abi internal depth target out s =
     map_option (\<lambda>(ret, out, s). ((ret, out), s)) (call_end_expected_revert ir abi internal depth False target out s)"

definition expects :: "'ir ir_api \<Rightarrow> abi_api \<Rightarrow> bool \<Rightarrow> u64 \<Rightarrow> ExpectedRevert \<Rightarrow> 'ir Outcome \<Rightarrow> bool" where
  "expects ir abi internal depth e out \<longleftrightarrow> rv_kind e = Default \<and> depth \<le> rv_depth e \<and> reverter e = None \<and>
     (internal \<or> max_depth e > rv_depth e) \<and> \<not> is_ok ir (result out) \<and>
     handle_revert abi False (params_expected e) (out_data out) (reverted_by e) = None"

lemma plain_call_end_seen:
  assumes "expected_revert s = Some e" and "expects ir abi internal depth e out" and "actual_count e < rv_count e"
  shows "plain_call_end ir abi internal depth target out s =
    Some ((True, out\<lparr>result := Return_ir ir, out_data := DUMMY_CALL_OUTPUT\<rparr>),
      s\<lparr>expected_revert := (if actual_count e + 1 < rv_count e then Some (e\<lparr>actual_count := actual_count e + 1\<rparr>) else None)\<rparr>) \<and>
    unat (actual_count e + 1) = unat (actual_count e) + 1"
proof -
  have "unat (actual_count e) + 1 < 2 ^ 64"
  proof -
    have "unat (actual_count e) < unat (rv_count e)" using assms(3) by (simp add: word_less_nat_alt)
    moreover have "unat (rv_count e) < 2 ^ 64" using unsigned_less [of "rv_count e"] by simp
    ultimately show ?thesis by linarith
  qed
  then have add: "checked_add (actual_count e) 1 = Some (actual_count e + 1)" "unat (actual_count e + 1) = unat (actual_count e) + 1"
    by (simp_all add: checked_add_def unat_add_no_wrap)
  have pos: "rv_count e \<noteq> 0" using assms(3) by auto
  have "handle_expect_revert ir abi False False internal e (result out) (out_data out) = Inr (None, DUMMY_CALL_OUTPUT)"
    using assms(2) pos by (auto simp: handle_expect_revert_def expects_def success_return_def)
  moreover have "(if is_revert ir (result out) \<and> reverter e \<noteq> None \<and> (reverted_by e = None \<or> rv_count e > 1)
      then e\<lparr>reverted_by := Some target\<rparr> else e) = e"
    using assms(2) by (simp add: expects_def)
  ultimately show ?thesis
    using assms(1,2) add
    by (simp add: plain_call_end_def call_end_expected_revert_def expects_def revert_seen_def Let_def)
qed

lemma expects_actual: "expects ir abi internal depth (e\<lparr>actual_count := n\<rparr>) out = expects ir abi internal depth e out"
  by (simp add: expects_def params_expected_def)


definition sample_abi :: abi_api where
  "sample_abi = \<lparr>revert_selectors = [[8, 195, 121, 160]], abi_decode_bytes = (\<lambda>bs. None), memmem = (\<lambda>a b. False), abi_encode = (\<lambda>e. [1])\<rparr>"

definition sample_revert :: ExpectedRevert where
  "sample_revert = \<lparr>reason = Some [7], rv_depth = 1, rv_kind = Default, partial_match = False, reverter = None,
     reverted_by = None, max_depth = 2, rv_count = 2, actual_count = 0\<rparr>"


text \<open>A partial match does not always look at the first four bytes: when the expected data and
  the returned data are both shorter than four bytes, any non-empty returned data is accepted, whatever
  was expected.\<close>

theorem partial_match_short:
  assumes "rp_reverter ps = None" and "rp_partial ps" and "rp_reason ps = Some r"
    and "length r < 4" and "length retdata < 4" and "retdata \<noteq> []"
  shows "handle_revert abi is_cheatcode ps retdata who = None"
  using assms by (simp add: handle_revert_def slice_to_def)

theorem partial_match_short_witness:
  "handle_revert sample_abi False \<lparr>rp_reverter = None, rp_reason = Some [1, 2], rp_partial = True\<rparr> [9] None = None"
  by (rule partial_match_short [where r = "[1, 2]"]) simp_all

end
