(* ===== verification/Cheat_Calls.thy ===== *)
theory Cheat_Calls
  imports Cheat_Revert "HOL-Library.List_Lexorder" "HOL-Library.Option_ord" "HOL-Library.Sublist"
begin

text \<open>
  What the inspector does around a call (\<open>call_with_executor\<close>, \<open>call_end\<close> and \<open>create_common\<close> of
  \<open>crates/cheatcodes/src/inspector.rs\<close>) with the expected calls, the mocked calls and the pranks, with the
  cheatcodes of \<open>evm/mock.rs\<close> and \<open>evm/prank.rs\<close>. The lemmas show that calls are counted and checked as
  declared, that the most specific mock answers a call, that a queue of answers ends in its last
  one, and what a prank changes and restores.
\<close>

section \<open>Calls\<close>

datatype CallScheme = Call | CallCode | DelegateCall | StaticCall | ExtCall | ExtStaticCall | ExtDelegateCall

record CallInputs =
  input :: Bytes
  call_gas_limit :: u64
  bytecode_address :: Address
  target_address :: Address
  caller :: Address
  transfer_value :: "U256 option"
  scheme :: CallScheme

definition call_matches :: "CallInputs \<Rightarrow> Bytes \<Rightarrow> ExpectedCallData \<Rightarrow> bool" where
  "call_matches c data e =
     (length data \<le> length (input c) \<and> data = take (length data) (input c) \<and>
      (case exp_value e of None \<Rightarrow> True | Some v \<Rightarrow> Some v = transfer_value c) \<and>
      (case exp_gas e of None \<Rightarrow> True | Some g \<Rightarrow> g = call_gas_limit c) \<and>
      (case exp_min_gas e of None \<Rightarrow> True | Some g \<Rightarrow> g \<le> call_gas_limit c))"

text \<open>\<open>None\<close>: a counter overflows.\<close>

fun count_calls :: "CallInputs \<Rightarrow> ExpectedCalls \<Rightarrow> ExpectedCalls option" where
  "count_calls c [] = Some []"
| "count_calls c ((data, e, seen) # m) = do {
     seen' \<leftarrow> (if call_matches c data e then checked_add seen 1 else Some seen);
     m' \<leftarrow> count_calls c m;
     Some ((data, e, seen') # m')
   }"

definition call_expected :: "CallInputs \<Rightarrow> 'ir Cheatcodes \<Rightarrow> 'ir Cheatcodes option" where
  "call_expected c s =
     (case hm_get (expected_calls s) (bytecode_address c) of
        None \<Rightarrow> Some s
      | Some m \<Rightarrow> map_option (\<lambda>m'. s\<lparr>expected_calls := hm_insert (bytecode_address c) m' (expected_calls s)\<rparr>) (count_calls c m))"

text \<open>The check at the end of the root call: the first expectation that was not met, in the order of the
  hash maps.\<close>

definition call_failed :: "ExpectedCallData \<times> u64 \<Rightarrow> bool" where
  "call_failed = (\<lambda>(e, seen). case call_type e of Count \<Rightarrow> exp_count e \<noteq> seen | NonCount \<Rightarrow> exp_count e > seen)"

definition root_check_calls ::
    "((Address \<times> ExpectedCalls) list \<Rightarrow> (Address \<times> ExpectedCalls) list) \<Rightarrow>
     ((Bytes \<times> ExpectedCallData \<times> u64) list \<Rightarrow> (Bytes \<times> ExpectedCallData \<times> u64) list) \<Rightarrow> 'ir Cheatcodes \<Rightarrow> cheat_error option" where
  "root_check_calls aorder corder s =
     map_option (\<lambda>(a, data, e, seen). CallMissing a data (exp_count e) seen)
       (find (\<lambda>(a, data, es). call_failed es)
         (concat (map (\<lambda>(a, m). map (Pair a) (corder m)) (aorder (expected_calls s)))))"

text \<open>The whole check at depth 0 after a call that did not revert.\<close>

definition root_check ::
    "'ir ir_api \<Rightarrow> abi_api \<Rightarrow> ((Address \<times> ExpectedCalls) list \<Rightarrow> (Address \<times> ExpectedCalls) list) \<Rightarrow>
     ((Bytes \<times> ExpectedCallData \<times> u64) list \<Rightarrow> (Bytes \<times> ExpectedCallData \<times> u64) list) \<Rightarrow> u64 \<Rightarrow> 'ir Outcome \<Rightarrow>
     'ir Cheatcodes \<Rightarrow> 'ir Outcome \<times> 'ir Cheatcodes" where
  "root_check ir abi aorder corder depth out s =
     (if depth \<noteq> 0 \<or> is_revert ir (result out) then (out, s)
      else case root_check_calls aorder corder s of
        Some e \<Rightarrow> (fail_with ir abi e out, s)
      | None \<Rightarrow>
          (let s = s\<lparr>expected_emits := filter (\<lambda>(e, _). em_count e > 0 \<and> \<not> em_found e) (expected_emits s)\<rparr>
           in if expected_emits s \<noteq> [] then
                (fail_with ir abi (if is_ok ir (result out) then EmitMissing else EmitReverted) out, s)
              else case expected_creates s of
                c # _ \<Rightarrow> (fail_with ir abi (CreateMissing (create_scheme c) (deployer c) (ec_bytecode c)) out, s)
              | [] \<Rightarrow> (out, s)))"

text \<open>The check of the emits when a call returns to the depth of one of them.\<close>

definition emit_total :: "(Address, LogCountMap) hmap \<Rightarrow> ExpectedEmit \<Rightarrow> u64 option" where
  "emit_total counts e =
     (case em_address e of
        Some emitter \<Rightarrow>
          (case hm_get counts emitter of
             None \<Rightarrow> Some 0
           | Some m \<Rightarrow> (case em_log e of Some l \<Rightarrow> lc_count m l | None \<Rightarrow> count_unchecked m))
      | None \<Rightarrow>
          (case those (map (\<lambda>(a, m). case em_log e of Some l \<Rightarrow> lc_count m l | None \<Rightarrow> count_unchecked m) counts) of
             None \<Rightarrow> None
           | Some cs \<Rightarrow> sum_u64 cs 0))"

definition call_end_emits ::
    "'ir ir_api \<Rightarrow> abi_api \<Rightarrow> u64 \<Rightarrow> bool \<Rightarrow> 'ir Outcome \<Rightarrow> 'ir Cheatcodes \<Rightarrow> (bool \<times> 'ir Outcome \<times> 'ir Cheatcodes) option" where
  "call_end_emits ir abi depth is_static out s =
     (if list_ex (\<lambda>(e, _). em_depth e = depth) (expected_emits s) \<and> \<not> is_static then do {
        totals \<leftarrow> those (map (\<lambda>(e, counts). map_option (Pair e) (emit_total counts e)) (expected_emits s));
        let expected_counts = filter (\<lambda>(e, n). n \<noteq> em_count e) totals;
        if list_ex (\<lambda>(e, _). \<not> em_found e) (expected_emits s) then Some (True, fail_with ir abi LogMismatch out, s)
        else case expected_counts of
          (e, n) # _ \<Rightarrow> Some (True, fail_with ir abi (if is_ok ir (result out) then LogCount n (em_count e) else EmitReverted) out, s)
        | [] \<Rightarrow> Some (False, out, s\<lparr>expected_emits := []\<rparr>)
      }
      else Some (False, out, s))"

text \<open>A contract created as expected (\<open>create_end_common\<close>); \<open>code_at\<close> loads the code of the new account.\<close>

definition create_end_creates ::
    "(Address \<Rightarrow> Bytes option) \<Rightarrow> (Address \<times> CreateScheme) option \<Rightarrow> 'ir Outcome \<Rightarrow> 'ir Cheatcodes \<Rightarrow> 'ir Cheatcodes" where
  "create_end_creates code_at call out s =
     (case (out_address out, call) of
        (Some address, Some (who, sch)) \<Rightarrow>
          (case code_at address of
             None \<Rightarrow> s
           | Some code \<Rightarrow>
               (case position (\<lambda>e. deployer e = who \<and> sch = create_scheme e \<and> ec_bytecode e = code) (expected_creates s) of
                  None \<Rightarrow> s
                | Some i \<Rightarrow> s\<lparr>expected_creates := swap_remove i (expected_creates s)\<rparr>))
      | _ \<Rightarrow> s)"

section \<open>Mocks\<close>

text \<open>\<open>Ord for MockCallDataContext\<close>: whether one key comes before another.\<close>

definition mock_before :: "MockCallDataContext \<Rightarrow> MockCallDataContext \<Rightarrow> bool" where
  "mock_before a b = (calldata b < calldata a \<or> calldata a = calldata b \<and> mock_value b < mock_value a)"

fun mocks_insert :: "MockCallDataContext \<Rightarrow> 'ir MockCallReturnData list \<Rightarrow> 'ir Mocks \<Rightarrow> 'ir Mocks" where
  "mocks_insert k v [] = [(k, v)]"
| "mocks_insert k v ((k', v') # m) =
     (if mock_before k k' then (k, v) # (k', v') # m
      else if mock_before k' k then (k', v') # mocks_insert k v m
      else (k, v) # m)"

definition mock_calls ::
    "'ir Cheatcodes \<Rightarrow> Address \<Rightarrow> Bytes \<Rightarrow> U256 option \<Rightarrow> Bytes list \<Rightarrow> 'ir \<Rightarrow> 'ir Cheatcodes" where
  "mock_calls s callee cdata value rdata_vec ret =
     (let mocks = (case hm_get (mocked_calls s) callee of None \<Rightarrow> [] | Some m \<Rightarrow> m)
      in s\<lparr>mocked_calls := hm_insert callee
           (mocks_insert \<lparr>calldata = cdata, mock_value = value\<rparr> (map (\<lambda>r. \<lparr>ret_type = ret, ret_data = r\<rparr>) rdata_vec) mocks)
           (mocked_calls s)\<rparr>)"

definition mock_call :: "'ir Cheatcodes \<Rightarrow> Address \<Rightarrow> Bytes \<Rightarrow> U256 option \<Rightarrow> Bytes \<Rightarrow> 'ir \<Rightarrow> 'ir Cheatcodes" where
  "mock_call s callee cdata value rdata ret = mock_calls s callee cdata value [rdata] ret"

definition clearMockedCallsCall :: "'ir Cheatcodes \<Rightarrow> 'ir cheat_result" where
  "clearMockedCallsCall s = (None, s\<lparr>mocked_calls := []\<rparr>)"

definition mockFunctionCall :: "Address \<Rightarrow> Address \<Rightarrow> Bytes \<Rightarrow> 'ir Cheatcodes \<Rightarrow> 'ir cheat_result" where
  "mockFunctionCall callee target data s =
     (let m = (case hm_get (mocked_functions s) callee of None \<Rightarrow> [] | Some m \<Rightarrow> m)
      in (None, s\<lparr>mocked_functions := hm_insert callee (hm_insert data target m) (mocked_functions s)\<rparr>))"

text \<open>Loading an account and giving it code belong to the journaled state: \<open>load\<close> is the result of loading
  the account, or of \<open>make_acc_non_empty\<close>.\<close>

definition mocked ::
    "cheat_error option \<Rightarrow> 'ir Cheatcodes \<Rightarrow> 'ir Cheatcodes \<Rightarrow> 'ir cheat_result" where
  "mocked load s s' = (case load of Some e \<Rightarrow> (Some e, s) | None \<Rightarrow> (None, s'))"

definition mockCall_0Call where
  "mockCall_0Call ir load callee data ret s = mocked load s (mock_call s callee data None ret (Return_ir ir))"

definition mockCall_1Call where
  "mockCall_1Call ir load callee msgValue data ret s = mocked load s (mock_call s callee data (Some msgValue) ret (Return_ir ir))"

definition mockCall_2Call where
  "mockCall_2Call ir load callee data ret s = mocked load s (mock_call s callee data None ret (Return_ir ir))"

definition mockCall_3Call where
  "mockCall_3Call ir load callee msgValue data ret s = mocked load s (mock_call s callee data (Some msgValue) ret (Return_ir ir))"

definition mockCalls_0Call where
  "mockCalls_0Call ir load callee data rets s = mocked load s (mock_calls s callee data None rets (Return_ir ir))"

definition mockCalls_1Call where
  "mockCalls_1Call ir load callee msgValue data rets s = mocked load s (mock_calls s callee data (Some msgValue) rets (Return_ir ir))"

definition mockCallRevert_0Call where
  "mockCallRevert_0Call ir load callee data ret s = mocked load s (mock_call s callee data None ret (Revert_ir ir))"

definition mockCallRevert_1Call where
  "mockCallRevert_1Call ir load callee msgValue data ret s = mocked load s (mock_call s callee data (Some msgValue) ret (Revert_ir ir))"

definition mockCallRevert_2Call where
  "mockCallRevert_2Call ir load callee data ret s = mocked load s (mock_call s callee data None ret (Revert_ir ir))"

definition mockCallRevert_3Call where
  "mockCallRevert_3Call ir load callee msgValue data ret s = mocked load s (mock_call s callee data (Some msgValue) ret (Revert_ir ir))"

text \<open>Which mock answers a call, and with what. An empty queue answers nothing.\<close>

definition mock_applies :: "CallInputs \<Rightarrow> MockCallDataContext \<Rightarrow> bool" where
  "mock_applies c k =
     (slice_to (length (calldata k)) (input c) = Some (calldata k) \<and>
      (case mock_value k of None \<Rightarrow> True | Some v \<Rightarrow> Some v = transfer_value c))"

definition find_mock :: "CallInputs \<Rightarrow> 'ir Mocks \<Rightarrow> (MockCallDataContext \<times> 'ir MockCallReturnData list) option" where
  "find_mock c mocks =
     (let ctx = \<lparr>calldata = input c, mock_value = transfer_value c\<rparr>
      in case map_of mocks ctx of
           Some queue \<Rightarrow> Some (ctx, queue)
         | None \<Rightarrow> find (\<lambda>(k, _). mock_applies c k) mocks)"

definition call_mocked :: "CallInputs \<Rightarrow> 'ir Cheatcodes \<Rightarrow> 'ir MockCallReturnData option \<times> 'ir Cheatcodes" where
  "call_mocked c s =
     (case hm_get (mocked_calls s) (bytecode_address c) of
        None \<Rightarrow> (None, s)
      | Some mocks \<Rightarrow>
          (case find_mock c mocks of
             None \<Rightarrow> (None, s)
           | Some (k, queue) \<Rightarrow>
               (case queue of
                  [] \<Rightarrow> (None, s)
                | [r] \<Rightarrow> (Some r, s)
                | r # rest \<Rightarrow> (Some r, s\<lparr>mocked_calls := hm_insert (bytecode_address c) (hm_insert k rest mocks) (mocked_calls s)\<rparr>))))"

section \<open>Pranks\<close>

text \<open>The part of the execution context a prank touches.\<close>

record Env =
  tx_caller :: Address
  journal_depth :: u64

definition new_Prank :: "Address \<Rightarrow> Address \<Rightarrow> Address \<Rightarrow> Address option \<Rightarrow> u64 \<Rightarrow> bool \<Rightarrow> bool \<Rightarrow> Prank" where
  "new_Prank pc po nc no d sc dc = \<lparr>prank_caller = pc, prank_origin = po, new_caller = nc, new_origin = no,
     pr_depth = d, single_call = sc, delegate_call = dc, used = False\<rparr>"

definition first_time_applied :: "Prank \<Rightarrow> Prank option" where
  "first_time_applied p = (if used p then None else Some (p\<lparr>used := True\<rparr>))"

text \<open>\<open>code\<close> is what loading the code of the new caller returns.\<close>

definition prank_impl ::
    "(Address \<Rightarrow> cheat_error + Bytes) \<Rightarrow> Env \<Rightarrow> Address \<Rightarrow> Address \<Rightarrow> Address option \<Rightarrow> bool \<Rightarrow> bool \<Rightarrow>
     'ir Cheatcodes \<Rightarrow> 'ir cheat_result" where
  "prank_impl code env who to_caller to_origin single delegate s =
     (case (if delegate then (case code to_caller of Inl e \<Rightarrow> Some e | Inr bs \<Rightarrow> if bs = [] then Some PrankFromEoa else None)
            else None) of
        Some e \<Rightarrow> (Some e, s)
      | None \<Rightarrow>
          (case (case prank s of
                   None \<Rightarrow> None
                 | Some p \<Rightarrow> if \<not> used p then Some PrankUnused else if single \<noteq> single_call p then Some PrankOverride else None) of
             Some e \<Rightarrow> (Some e, s)
           | None \<Rightarrow>
               if broadcast s \<noteq> None then (Some PrankBroadcast, s)
               else (None, s\<lparr>prank := Some (new_Prank who (tx_caller env) to_caller to_origin (journal_depth env) single delegate)\<rparr>)))"

definition prank_0Call where
  "prank_0Call code env who sender s = prank_impl code env who sender None True False s"

definition startPrank_0Call where
  "startPrank_0Call code env who sender s = prank_impl code env who sender None False False s"

definition prank_1Call where
  "prank_1Call code env who sender origin s = prank_impl code env who sender (Some origin) True False s"

definition startPrank_1Call where
  "startPrank_1Call code env who sender origin s = prank_impl code env who sender (Some origin) False False s"

definition prank_2Call where
  "prank_2Call code env who sender delegate s = prank_impl code env who sender None True delegate s"

definition startPrank_2Call where
  "startPrank_2Call code env who sender delegate s = prank_impl code env who sender None False delegate s"

definition prank_3Call where
  "prank_3Call code env who sender origin delegate s = prank_impl code env who sender (Some origin) True delegate s"

definition startPrank_3Call where
  "startPrank_3Call code env who sender origin delegate s = prank_impl code env who sender (Some origin) False delegate s"

definition stopPrankCall :: "'ir Cheatcodes \<Rightarrow> 'ir cheat_result" where
  "stopPrankCall s = (None, s\<lparr>prank := None\<rparr>)"

text \<open>The prank on a call. The value shown to a pranked delegate call is the balance of the new caller; it does
  not feed back into this state.\<close>

definition call_prank :: "CallInputs \<Rightarrow> Env \<Rightarrow> 'ir Cheatcodes \<Rightarrow> CallInputs \<times> Env \<times> 'ir Cheatcodes" where
  "call_prank c env s =
     (case prank s of
        None \<Rightarrow> (c, env, s)
      | Some p \<Rightarrow>
          (let (c, env) =
                 (if scheme c \<in> {DelegateCall, ExtDelegateCall} \<and> delegate_call p
                  then (c\<lparr>target_address := new_caller p, caller := new_caller p\<rparr>,
                        case new_origin p of Some o' \<Rightarrow> env\<lparr>tx_caller := o'\<rparr> | None \<Rightarrow> env)
                  else (c, env))
           in if journal_depth env \<ge> pr_depth p \<and> caller c = prank_caller p then
                (let at_depth = journal_depth env = pr_depth p;
                     c = (if at_depth then c\<lparr>caller := new_caller p\<rparr> else c);
                     env = (case new_origin p of Some o' \<Rightarrow> env\<lparr>tx_caller := o'\<rparr> | None \<Rightarrow> env);
                     applied = at_depth \<or> new_origin p \<noteq> None;
                     s = (if applied then (case first_time_applied p of Some p' \<Rightarrow> s\<lparr>prank := Some p'\<rparr> | None \<Rightarrow> s) else s)
                 in (c, env, s))
              else (c, env, s)))"

text \<open>The prank on a create: the new caller and the context. The inspector's state does not change.\<close>

definition create_prank :: "Address \<Rightarrow> Env \<Rightarrow> 'ir Cheatcodes \<Rightarrow> Address \<times> Env" where
  "create_prank who env s =
     (case prank s of
        None \<Rightarrow> (who, env)
      | Some p \<Rightarrow>
          if journal_depth env \<ge> pr_depth p \<and> who = prank_caller p then
            (if journal_depth env = pr_depth p then new_caller p else who,
             case new_origin p of Some o' \<Rightarrow> env\<lparr>tx_caller := o'\<rparr> | None \<Rightarrow> env)
          else (who, env))"

text \<open>The clean-up when a call that is no cheatcode, or a create, ends.\<close>

definition end_prank :: "Env \<Rightarrow> 'ir Cheatcodes \<Rightarrow> Env \<times> 'ir Cheatcodes" where
  "end_prank env s =
     (case prank s of
        None \<Rightarrow> (env, s)
      | Some p \<Rightarrow>
          if journal_depth env = pr_depth p
          then (env\<lparr>tx_caller := prank_origin p\<rparr>, if single_call p then s\<lparr>prank := None\<rparr> else s)
          else (env, s))"

definition end_broadcast :: "Env \<Rightarrow> 'ir Cheatcodes \<Rightarrow> Env \<times> 'ir Cheatcodes" where
  "end_broadcast env s =
     (case broadcast s of
        None \<Rightarrow> (env, s)
      | Some b \<Rightarrow>
          if journal_depth env = br_depth b
          then (env\<lparr>tx_caller := original_origin b\<rparr>, if br_single_call b then s\<lparr>broadcast := None\<rparr> else s)
          else (env, s))"

section \<open>Calls are counted and checked\<close>

definition seen_calls :: "Address \<Rightarrow> Bytes \<Rightarrow> ExpectedCallData \<Rightarrow> CallInputs list \<Rightarrow> nat" where
  "seen_calls a data e cs = length (filter (\<lambda>c. bytecode_address c = a \<and> call_matches c data e) cs)"

definition expected_step :: "CallInputs \<Rightarrow> 'ir Cheatcodes \<Rightarrow> (unit \<times> 'ir Cheatcodes) option" where
  "expected_step c s = map_option (Pair ()) (call_expected c s)"

lemma count_calls_get:
  "count_calls c m = Some m' \<Longrightarrow> map fst m' = map fst m \<and>
   hm_get m' d = (case hm_get m d of None \<Rightarrow> None | Some (e, seen) \<Rightarrow> Some (e, if call_matches c d e then seen + 1 else seen))"
proof (induction m arbitrary: m')
  case (Cons p m)
  obtain d' e' seen where p: "p = (d', e', seen)" by (cases p)
  from Cons.prems obtain m1 where "count_calls c m = Some m1"
    and "m' = (d', e', if call_matches c d' e' then seen + 1 else seen) # m1"
    by (auto simp: p bind_eq_Some_conv checked_add_Some split: if_splits)
  with Cons.IH p show ?case by simp
qed simp

lemma count_calls_total:
  "\<forall>(d, e, seen)\<in>set m. unat seen + 1 < 2 ^ 64 \<Longrightarrow> \<exists>m'. count_calls c m = Some m'"
  by (induction m) (auto simp: checked_add_def)

text \<open>Each address and each calldata once, and no counter above \<open>n\<close>.\<close>

definition tracker_ok :: "nat \<Rightarrow> ExpectedCallTracker \<Rightarrow> bool" where
  "tracker_ok n t \<longleftrightarrow> distinct (hm_keys t) \<and>
     (\<forall>(a, m)\<in>set t. distinct (hm_keys m) \<and> (\<forall>(d, e, seen)\<in>set m. unat seen \<le> n))"

lemma tracker_get:
  assumes "tracker_ok n t" and "hm_get t a = Some m"
  shows "distinct (hm_keys m)" and "(d, e, seen) \<in> set m \<Longrightarrow> unat seen \<le> n"
  using assms map_of_SomeD [OF assms(2)] by (fastforce simp: tracker_ok_def)+

lemma expectation_mem:
  assumes "tracker_ok n (expected_calls s)"
  shows "expectation s a d = Some es \<longleftrightarrow> (\<exists>m. (a, m) \<in> set (expected_calls s) \<and> (d, es) \<in> set m)"
proof
  assume "expectation s a d = Some es"
  then show "\<exists>m. (a, m) \<in> set (expected_calls s) \<and> (d, es) \<in> set m"
    by (auto simp: expectation_def split: option.splits dest!: map_of_SomeD)
next
  assume "\<exists>m. (a, m) \<in> set (expected_calls s) \<and> (d, es) \<in> set m"
  then obtain m where m: "(a, m) \<in> set (expected_calls s)" "(d, es) \<in> set m" by blast
  have "hm_get (expected_calls s) a = Some m"
    using assms m(1) by (simp add: tracker_ok_def)
  with tracker_get(1) [OF assms this] m(2) show "expectation s a d = Some es"
    by (simp add: expectation_def)
qed

lemma set_hm_insert: "set (hm_insert k v m) \<subseteq> insert (k, v) (set m)"
  by (induction m) auto

lemma call_expected_ok:
  assumes ok: "tracker_ok n (expected_calls s)" and n: "n + 1 < 2 ^ 64"
  shows "\<exists>s'. call_expected c s = Some s' \<and> tracker_ok (Suc n) (expected_calls s') \<and>
    (\<forall>a d. expectation s' a d = (case expectation s a d of None \<Rightarrow> None
      | Some (e, seen) \<Rightarrow> Some (e, if bytecode_address c = a \<and> call_matches c d e then seen + 1 else seen)))"
proof (cases "hm_get (expected_calls s) (bytecode_address c)")
  case None
  then have "expectation s (bytecode_address c) d = None" for d by (simp add: expectation_def)
  then have "expectation s a d = (case expectation s a d of None \<Rightarrow> None
      | Some (e, seen) \<Rightarrow> Some (e, if bytecode_address c = a \<and> call_matches c d e then seen + 1 else seen))" for a d
    by (cases "a = bytecode_address c") (auto split: option.splits)
  moreover have "tracker_ok (Suc n) (expected_calls s)" using ok by (fastforce simp: tracker_ok_def)
  ultimately show ?thesis using None by (auto simp: call_expected_def)
next
  case (Some m)
  have "\<forall>(d, e, seen)\<in>set m. unat seen + 1 < 2 ^ 64"
  proof (clarify)
    fix d e seen assume "(d, e, seen) \<in> set m"
    from tracker_get(2) [OF ok Some this] n show "unat seen + 1 < 2 ^ 64" by linarith
  qed
  then obtain m' where m': "count_calls c m = Some m'" using count_calls_total by blast
  let ?s = "s\<lparr>expected_calls := hm_insert (bytecode_address c) m' (expected_calls s)\<rparr>"
  have keys: "distinct (hm_keys m')" using count_calls_get [OF m'] tracker_get(1) [OF ok Some] by auto
  have bound: "unat seen \<le> Suc n" if mem: "(d, e, seen) \<in> set m'" for d e seen
  proof -
    have "hm_get m' d = Some (e, seen)" using keys mem by simp
    then obtain seen0 where old: "hm_get m d = Some (e, seen0)" and "seen = (if call_matches c d e then seen0 + 1 else seen0)"
      using count_calls_get [OF m', of d] by (auto split: option.splits)
    moreover have le: "unat seen0 \<le> n" using tracker_get(2) [OF ok Some map_of_SomeD [OF old]] .
    moreover have "unat (seen0 + 1) = unat seen0 + 1"
      by (subst unat_add_no_wrap) (use le n in simp_all)
    ultimately show ?thesis by auto
  qed
  have "tracker_ok (Suc n) (expected_calls ?s)"
    unfolding tracker_ok_def
  proof (intro conjI ballI)
    show "distinct (hm_keys (expected_calls ?s))" using ok by (simp add: tracker_ok_def distinct_update)
    fix am assume "am \<in> set (expected_calls ?s)"
    then consider "am = (bytecode_address c, m')" | "am \<in> set (expected_calls s)"
      using set_hm_insert [of "bytecode_address c" m' "expected_calls s"] by auto
    then show "case am of (a, m) \<Rightarrow> distinct (hm_keys m) \<and> (\<forall>(d, e, seen)\<in>set m. unat seen \<le> Suc n)"
      by cases (use keys bound ok in \<open>fastforce simp: tracker_ok_def\<close>)+
  qed
  moreover have "expectation ?s a d = (case expectation s a d of None \<Rightarrow> None
      | Some (e, seen) \<Rightarrow> Some (e, if bytecode_address c = a \<and> call_matches c d e then seen + 1 else seen))" for a d
  proof (cases "a = bytecode_address c")
    case True
    then have "expectation s a d = hm_get m d" using Some by (simp add: expectation_def)
    with True count_calls_get [OF m', of d] show ?thesis by (auto simp: expectation_keep split: option.splits)
  next
    case False
    then show ?thesis by (auto simp: expectation_keep split: option.splits)
  qed
  ultimately show ?thesis using Some m' by (auto simp: call_expected_def)
qed

lemma run_expected:
  "tracker_ok n (expected_calls s) \<Longrightarrow> n + length cs < 2 ^ 64 \<Longrightarrow>
   \<exists>us s'. run expected_step cs s = Some (us, s') \<and> tracker_ok (n + length cs) (expected_calls s') \<and>
     (\<forall>a d. expectation s' a d = (case expectation s a d of None \<Rightarrow> None
        | Some (e, seen) \<Rightarrow> Some (e, seen + word_of_nat (seen_calls a d e cs))))"
proof (induction cs arbitrary: n s)
  case Nil
  have "expectation s a d = (case expectation s a d of None \<Rightarrow> None
        | Some (e, seen) \<Rightarrow> Some (e, seen + word_of_nat (seen_calls a d e [])))" for a d
    by (auto simp: seen_calls_def split: option.splits)
  with Nil show ?case by auto
next
  case (Cons c cs)
  have n: "n + 1 < 2 ^ 64" "Suc n + length cs < 2 ^ 64" using Cons.prems(2) by simp_all
  obtain s1 where s1: "call_expected c s = Some s1" and ok1: "tracker_ok (Suc n) (expected_calls s1)"
    and e1: "\<forall>a d. expectation s1 a d = (case expectation s a d of None \<Rightarrow> None
      | Some (e, seen) \<Rightarrow> Some (e, if bytecode_address c = a \<and> call_matches c d e then seen + 1 else seen))"
    using call_expected_ok [OF Cons.prems(1) n(1), of c] by (elim exE conjE)
  obtain us s' where s': "run expected_step cs s1 = Some (us, s')" and ok': "tracker_ok (Suc n + length cs) (expected_calls s')"
    and e': "\<forall>a d. expectation s' a d = (case expectation s1 a d of None \<Rightarrow> None
        | Some (e, seen) \<Rightarrow> Some (e, seen + word_of_nat (seen_calls a d e cs)))"
    using Cons.IH [OF ok1 n(2)] by (elim exE conjE)
  have "expectation s' a d = (case expectation s a d of None \<Rightarrow> None
        | Some (e, seen) \<Rightarrow> Some (e, seen + word_of_nat (seen_calls a d e (c # cs))))" for a d
    using e' e1 by (cases "expectation s a d") (auto simp: seen_calls_def)
  moreover have "expected_step c s = Some ((), s1)" by (simp add: expected_step_def s1)
  ultimately show ?case using s' ok' by (intro exI [of _ "() # us"] exI [of _ s']) simp
qed

lemma root_check_calls_None:
  assumes "hash_order aorder" and "hash_order corder" and "tracker_ok n (expected_calls s)"
  shows "root_check_calls aorder corder s = None \<longleftrightarrow> (\<forall>a d es. expectation s a d = Some es \<longrightarrow> \<not> call_failed es)"
proof -
  let ?all = "concat (map (\<lambda>(a, m). map (Pair a) (corder m)) (aorder (expected_calls s)))"
  have "(a, d, es) \<in> set ?all \<longleftrightarrow> expectation s a d = Some es" for a d es
    unfolding expectation_mem [OF assms(3)]
    by (auto simp: hash_order.set_order [OF assms(1)] hash_order.set_order [OF assms(2)])
  then show ?thesis by (auto simp: root_check_calls_def find_None_iff)
qed

text \<open>C10. \<open>expectCall\<close> means what it says: after the expectations were declared, whatever calls follow,
  the check at the end of the root call passes exactly when every counted expectation was matched by
  exactly its count of calls, and every uncounted one by at least its count, for any iteration order of
  the hash maps.\<close>

theorem expected_calls_checked:
  assumes orders: "hash_order aorder" "hash_order corder" and ok: "tracker_ok 0 (expected_calls s)"
    and few: "length cs < 2 ^ 64"
  shows "\<exists>us s'. run expected_step cs s = Some (us, s') \<and>
    (root_check_calls aorder corder s' = None \<longleftrightarrow>
      (\<forall>a d e seen. expectation s a d = Some (e, seen) \<longrightarrow>
         (case call_type e of
            Count \<Rightarrow> seen_calls a d e cs = unat (exp_count e)
          | NonCount \<Rightarrow> unat (exp_count e) \<le> seen_calls a d e cs)))"
proof -
  obtain us s' where s': "run expected_step cs s = Some (us, s')" and ok': "tracker_ok (0 + length cs) (expected_calls s')"
    and e': "\<forall>a d. expectation s' a d = (case expectation s a d of None \<Rightarrow> None
        | Some (e, seen) \<Rightarrow> Some (e, seen + word_of_nat (seen_calls a d e cs)))"
    using run_expected [OF ok, of cs] few by (auto simp del: run.simps)
  have zero: "seen = 0" if ex: "expectation s a d = Some (e, seen)" for a d e seen
  proof -
    from ex [unfolded expectation_mem [OF ok]] obtain m where
      "(a, m) \<in> set (expected_calls s)" "(d, e, seen) \<in> set m" by (elim exE conjE)
    then have "unat seen \<le> 0" using ok unfolding tracker_ok_def by fastforce
    then show ?thesis by (simp add: unat_eq_0)
  qed
  have seen: "unat (word_of_nat (seen_calls a d e cs) :: u64) = seen_calls a d e cs" for a d e
  proof -
    have "seen_calls a d e cs \<le> length cs" by (simp add: seen_calls_def)
    with few show ?thesis unfolding unat_of_nat by simp
  qed
  have failed: "\<not> call_failed (e, word_of_nat (seen_calls a d e cs)) \<longleftrightarrow>
      (case call_type e of Count \<Rightarrow> seen_calls a d e cs = unat (exp_count e)
       | NonCount \<Rightarrow> unat (exp_count e) \<le> seen_calls a d e cs)" for a d e
    using seen [of a d e]
    by (cases "call_type e") (auto simp: call_failed_def word_unat_eq_iff word_less_nat_alt)
  have conv: "expectation s' a d = Some es \<longleftrightarrow>
      (\<exists>e seen. expectation s a d = Some (e, seen) \<and> es = (e, word_of_nat (seen_calls a d e cs)))" for a d es
  proof (cases "expectation s a d")
    case None
    with e' show ?thesis by simp
  next
    case (Some p)
    obtain e seen where p: "p = (e, seen)" by (cases p)
    with Some zero have "seen = 0" by simp
    with Some p e' show ?thesis by auto
  qed
  have "root_check_calls aorder corder s' = None \<longleftrightarrow>
      (\<forall>a d e seen. expectation s a d = Some (e, seen) \<longrightarrow> \<not> call_failed (e, word_of_nat (seen_calls a d e cs)))"
    unfolding root_check_calls_None [OF orders ok'] conv by blast
  then show ?thesis unfolding failed using s' by (intro exI conjI)
qed

definition sample_call :: "Address \<Rightarrow> Bytes \<Rightarrow> CallInputs" where
  "sample_call a d = \<lparr>input = d, call_gas_limit = 50, bytecode_address = a, target_address = a, caller = 1,
     transfer_value = Some 0, scheme = Call\<rparr>"

theorem expected_calls_checked_witness:
  "\<exists>us s'. run expected_step [sample_call 7 [1, 2], sample_call 8 [1], sample_call 7 [1, 3]]
       ((new_Cheatcodes :: unit Cheatcodes)\<lparr>expected_calls := [(7, [([1],
         \<lparr>exp_value = None, exp_gas = None, exp_min_gas = None, exp_count = 2, call_type = Count\<rparr>, 0)])]\<rparr>) = Some (us, s') \<and>
     root_check_calls reverse_order insertion_order s' = None"
proof -
  let ?e = "\<lparr>exp_value = None, exp_gas = None, exp_min_gas = None, exp_count = 2, call_type = Count\<rparr>"
  let ?s = "(new_Cheatcodes :: unit Cheatcodes)\<lparr>expected_calls := [(7, [([1], ?e, 0)])]\<rparr>"
  let ?cs = "[sample_call 7 [1, 2], sample_call 8 [1], sample_call 7 [1, 3]]"
  have ok: "tracker_ok 0 (expected_calls ?s)" by (simp add: tracker_ok_def)
  have two: "seen_calls 7 [1] ?e ?cs = unat (exp_count ?e)" by code_simp
  have one: "expectation ?s a d = Some (e, seen) \<Longrightarrow> a = 7 \<and> d = [1] \<and> e = ?e" for a d e seen
    by (simp add: expectation_def split: if_splits)
  have "\<forall>a d e seen. expectation ?s a d = Some (e, seen) \<longrightarrow>
      (case call_type e of Count \<Rightarrow> seen_calls a d e ?cs = unat (exp_count e)
       | NonCount \<Rightarrow> unat (exp_count e) \<le> seen_calls a d e ?cs)"
  proof (intro allI impI)
    fix a d e seen assume "expectation ?s a d = Some (e, seen)"
    from one [OF this] have a: "a = 7" and d: "d = [1]" and e: "e = ?e" by simp_all
    have "call_type e = Count" unfolding e by simp
    moreover have "seen_calls a d e ?cs = unat (exp_count e)" unfolding a d e by (rule two)
    ultimately show "case call_type e of Count \<Rightarrow> seen_calls a d e ?cs = unat (exp_count e)
       | NonCount \<Rightarrow> unat (exp_count e) \<le> seen_calls a d e ?cs" by (simp only: ExpectedCallType.case)
  qed
  moreover have "length ?cs < 2 ^ 64" by simp
  note expected_calls_checked [OF reversed.hash_order_axioms insertion.hash_order_axioms ok this]
  ultimately show ?thesis by (elim exE conjE) (intro exI conjI, assumption, simp only:)
qed

section \<open>The most specific mock answers\<close>

definition mocks_sorted :: "'ir Mocks \<Rightarrow> bool" where
  "mocks_sorted m \<longleftrightarrow> sorted_wrt mock_before (map fst m)"

definition tables_sorted :: "'ir Cheatcodes \<Rightarrow> bool" where
  "tables_sorted s \<longleftrightarrow> (\<forall>(a, m)\<in>set (mocked_calls s). mocks_sorted m)"

lemma mock_before_trans: "mock_before a b \<Longrightarrow> mock_before b c \<Longrightarrow> mock_before a c"
  by (auto simp: mock_before_def)

lemma mock_before_linear: "mock_before a b \<or> a = b \<or> mock_before b a"
  unfolding mock_before_def by (metis MockCallDataContext.equality linorder_neqE old.unit.exhaust)

lemma set_mocks_insert: "set (mocks_insert k v m) \<subseteq> insert (k, v) (set m)"
  by (induction m rule: mocks_insert.induct) auto

lemma mocks_insert_sorted: "mocks_sorted m \<Longrightarrow> mocks_sorted (mocks_insert k v m)"
proof (induction k v m rule: mocks_insert.induct)
  case (2 k v k' v' m)
  have m: "mocks_sorted m" and above: "\<forall>x\<in>set m. mock_before k' (fst x)"
    using "2.prems" by (auto simp: mocks_sorted_def)
  consider "mock_before k k'" | "\<not> mock_before k k'" "mock_before k' k" | "\<not> mock_before k k'" "\<not> mock_before k' k" by blast
  then show ?case
  proof cases
    case 1
    then show ?thesis using "2.prems" mock_before_trans above by (fastforce simp: mocks_sorted_def)
  next
    case c: 2
    have "\<forall>x\<in>set (mocks_insert k v m). mock_before k' (fst x)"
      using set_mocks_insert [of k v m] above c(2) by auto
    with "2.IH" [OF c m] c show ?thesis by (auto simp: mocks_sorted_def)
  next
    case 3
    then have "k = k'" using mock_before_linear by blast
    with 3 "2.prems" show ?thesis by (simp add: mocks_sorted_def)
  qed
qed (simp add: mocks_sorted_def)

lemma tables_sorted_insert:
  "tables_sorted s \<Longrightarrow> mocks_sorted m \<Longrightarrow> tables_sorted (s\<lparr>mocked_calls := hm_insert a m (mocked_calls s)\<rparr>)"
  using set_hm_insert [of a m "mocked_calls s"] by (auto simp: tables_sorted_def)

lemma tables_sorted_get: "tables_sorted s \<Longrightarrow> hm_get (mocked_calls s) a = Some m \<Longrightarrow> mocks_sorted m"
  by (auto simp: tables_sorted_def dest!: map_of_SomeD)

lemma mock_calls_sorted: "tables_sorted s \<Longrightarrow> tables_sorted (mock_calls s a d v rs ret)"
  unfolding mock_calls_def Let_def
  by (rule tables_sorted_insert, assumption, rule mocks_insert_sorted)
    (auto simp: mocks_sorted_def tables_sorted_get [unfolded mocks_sorted_def] split: option.split)

text \<open>Answering from a queue keeps the keys, so the tables stay in order.\<close>

lemma keys_update_mem: "map_of m k = Some v \<Longrightarrow> map fst (hm_insert k v' m) = map fst m"
  by (induction m) (auto split: if_splits)

lemma find_mem: "find P xs = Some x \<Longrightarrow> x \<in> set xs \<and> P x"
  by (induction xs) (auto split: if_splits)

lemma find_mock_mem: "find_mock c m = Some (k, q) \<Longrightarrow> (k, q) \<in> set m"
  by (auto simp: find_mock_def Let_def split: option.splits dest: map_of_SomeD find_mem)

lemma mocks_sorted_distinct: "mocks_sorted m \<Longrightarrow> distinct (map fst m)"
proof -
  have "sorted_wrt mock_before ks \<Longrightarrow> distinct ks" for ks
    by (induction ks) (auto simp: mock_before_def)
  then show "mocks_sorted m \<Longrightarrow> distinct (map fst m)" by (simp add: mocks_sorted_def)
qed

lemma call_mocked_cases:
  "call_mocked c s = (r, s') \<Longrightarrow>
   s' = s \<or> (\<exists>m k q rest. hm_get (mocked_calls s) (bytecode_address c) = Some m \<and> (k, q) \<in> set m \<and>
     s' = s\<lparr>mocked_calls := hm_insert (bytecode_address c) (hm_insert k rest m) (mocked_calls s)\<rparr>)"
proof (cases "hm_get (mocked_calls s) (bytecode_address c)")
  case (Some m)
  assume r: "call_mocked c s = (r, s')"
  show ?thesis
  proof (cases "find_mock c m")
    case None
    with r Some show ?thesis by (simp add: call_mocked_def)
  next
    case kq: (Some kq)
    obtain k q where kq': "kq = (k, q)" by (cases kq)
    show ?thesis
    proof (cases "\<exists>r1 r2 rest. q = r1 # r2 # rest")
      case True
      then obtain r1 r2 rest where "q = r1 # r2 # rest" by blast
      with r Some kq kq' have "s' = s\<lparr>mocked_calls := hm_insert (bytecode_address c) (hm_insert k (r2 # rest) m) (mocked_calls s)\<rparr>"
        by (simp add: call_mocked_def)
      with Some find_mock_mem [OF kq [unfolded kq']] show ?thesis by blast
    next
      case False
      with r Some kq kq' show ?thesis by (auto simp: call_mocked_def split: list.splits)
    qed
  qed
qed (simp add: call_mocked_def)

lemma call_mocked_sorted:
  assumes "tables_sorted s" and "call_mocked c s = (r, s')"
  shows "tables_sorted s'"
proof -
  consider "s' = s" | m k q rest where "hm_get (mocked_calls s) (bytecode_address c) = Some m" "(k, q) \<in> set m"
    "s' = s\<lparr>mocked_calls := hm_insert (bytecode_address c) (hm_insert k rest m) (mocked_calls s)\<rparr>"
    using call_mocked_cases [OF assms(2)] by blast
  then show ?thesis
  proof cases
    case 1
    with assms show ?thesis by simp
  next
    case 2
    have sorted: "mocks_sorted m" using assms(1) 2(1) by (rule tables_sorted_get)
    have "map_of m k = Some q" using mocks_sorted_distinct [OF sorted] 2(2) by simp
    from keys_update_mem [OF this, of rest] sorted have "mocks_sorted (hm_insert k rest m)"
      by (simp add: mocks_sorted_def)
    with assms(1) 2(3) show ?thesis by (simp add: tables_sorted_insert)
  qed
qed

text \<open>A run of mock cheatcodes and calls.\<close>

datatype 'ir mock_event = MockCalls Address Bytes "U256 option" "Bytes list" 'ir | ClearMocks | CallMade CallInputs

fun mock_step :: "'ir mock_event \<Rightarrow> 'ir Cheatcodes \<Rightarrow> ('ir MockCallReturnData option \<times> 'ir Cheatcodes) option" where
  "mock_step (MockCalls a d v rs ret) s = Some (None, mock_calls s a d v rs ret)"
| "mock_step ClearMocks s = Some (None, snd (clearMockedCallsCall s))"
| "mock_step (CallMade c) s = Some (call_mocked c s)"

interpretation mocks: invariant_machine mock_step tables_sorted
proof
  fix s e and r :: "'a MockCallReturnData option" and s'
  assume "tables_sorted s" "mock_step e s = Some (r, s')"
  then show "tables_sorted s'"
    by (cases e) (auto simp: mock_calls_sorted clearMockedCallsCall_def tables_sorted_def [of "_\<lparr>mocked_calls := []\<rparr>"]
        intro: call_mocked_sorted)
qed

lemma mock_applies_prefix: "mock_applies c k \<Longrightarrow> prefix (calldata k) (input c)"
  by (auto simp: mock_applies_def slice_to_def take_is_prefix split: if_splits) (metis take_is_prefix)

lemma prefix_lex: "prefix xs ys \<Longrightarrow> xs \<noteq> ys \<Longrightarrow> xs < (ys :: Bytes)"
proof -
  assume "prefix xs ys" "xs \<noteq> ys"
  then obtain ts where ts: "ys = xs @ ts" "ts \<noteq> []" by (auto simp: prefix_def)
  then obtain z zs where "ys = xs @ z # zs" by (cases ts) simp_all
  then show ?thesis by (simp add: list_less_def lexord_append_rightI)
qed

lemma find_mock_specific:
  assumes sorted: "mocks_sorted m" and found: "find_mock c m = Some (k, q)"
    and other: "(k', q') \<in> set m" "mock_applies c k'"
  shows "mock_applies c k \<and> prefix (calldata k') (calldata k) \<and>
    (calldata k' = calldata k \<longrightarrow> mock_value k' \<le> mock_value k)"
proof (cases "map_of m \<lparr>calldata = input c, mock_value = transfer_value c\<rparr>")
  case (Some queue)
  then have k: "k = \<lparr>calldata = input c, mock_value = transfer_value c\<rparr>" using found by (simp add: find_mock_def)
  have "mock_applies c k" by (simp add: k mock_applies_def slice_to_def split: option.split)
  moreover have "mock_value k' \<le> mock_value k"
    using other(2) by (auto simp: k mock_applies_def split: option.splits)
  ultimately show ?thesis using mock_applies_prefix [OF other(2)] by (simp add: k)
next
  case None
  then have f: "find (\<lambda>(k, _). mock_applies c k) m = Some (k, q)" using found by (simp add: find_mock_def)
  then have k: "mock_applies c k" using find_mem [OF f] by simp
  obtain i where i: "i < length m" "m ! i = (k, q)" "\<forall>j<i. \<not> mock_applies c (fst (m ! j))"
    using f by (auto simp: find_Some_iff split_beta)
  obtain j where j: "j < length m" "m ! j = (k', q')" using other(1) by (auto simp: in_set_conv_nth)
  have "i \<le> j" using i(3) j(2) other(2) by (metis fst_conv not_le)
  have pre: "prefix (calldata k) (calldata k') \<or> prefix (calldata k') (calldata k)"
    using mock_applies_prefix [OF k] mock_applies_prefix [OF other(2)] by (rule prefix_same_cases)
  show ?thesis
  proof (cases "i = j")
    case True
    with i j k show ?thesis by simp
  next
    case False
    with \<open>i \<le> j\<close> have "i < j" by simp
    then have "mock_before k k'"
      using sorted i j sorted_wrt_nth_less [of mock_before "map fst m" i j] by (simp add: mocks_sorted_def)
    then consider "calldata k' < calldata k" | "calldata k = calldata k'" "mock_value k' < mock_value k"
      by (auto simp: mock_before_def)
    then show ?thesis
    proof cases
      case 1
      then have "prefix (calldata k') (calldata k)" using pre prefix_lex by fastforce
      with k 1 show ?thesis by auto
    next
      case 2
      with k show ?thesis by simp
    qed
  qed
qed

lemma find_mock_None: "find_mock c m = None \<longleftrightarrow> (\<forall>(k, q)\<in>set m. \<not> mock_applies c k)"
proof -
  let ?ctx = "\<lparr>calldata = input c, mock_value = transfer_value c\<rparr>"
  have ctx: "mock_applies c ?ctx" by (simp add: mock_applies_def slice_to_def split: option.split)
  show ?thesis
  proof (cases "map_of m ?ctx")
    case None
    then show ?thesis by (auto simp: find_mock_def find_None_iff)
  next
    case (Some q)
    with ctx map_of_SomeD [OF Some] show ?thesis by (auto simp: find_mock_def)
  qed
qed

text \<open>C22. A call is answered by the most specific mock: after any sequence of mocks, clearings and
  answered calls, some mock is found exactly when one applies, and the one that is found applies, its calldata
  extends the calldata of every other mock that applies, and among mocks with that calldata one
  that asks for a value comes before one that does not.\<close>

theorem mock_most_specific:
  assumes "run mock_step es (new_Cheatcodes :: 'ir Cheatcodes) = Some (rs, s)"
    and "hm_get (mocked_calls s) (bytecode_address c) = Some m"
  shows "case find_mock c m of
      None \<Rightarrow> \<forall>(k, q)\<in>set m. \<not> mock_applies c k
    | Some (k, q) \<Rightarrow> (k, q) \<in> set m \<and> mock_applies c k \<and>
        (\<forall>(k', q')\<in>set m. mock_applies c k' \<longrightarrow> prefix (calldata k') (calldata k) \<and>
           (calldata k' = calldata k \<longrightarrow> mock_value k' \<le> mock_value k))"
proof -
  have "tables_sorted (new_Cheatcodes :: 'ir Cheatcodes)" by (simp add: tables_sorted_def new_Cheatcodes_def)
  then have "tables_sorted s" using assms(1) by (rule mocks.run_inv)
  then have sorted: "mocks_sorted m" using assms(2) by (rule tables_sorted_get)
  show ?thesis
  proof (cases "find_mock c m")
    case None
    then have "\<forall>(k, q)\<in>set m. \<not> mock_applies c k" by (simp only: find_mock_None)
    then show ?thesis by (simp only: None option.case)
  next
    case (Some kq)
    obtain k q where kq: "kq = (k, q)" by (cases kq)
    have mem: "(k, q) \<in> set m" using Some kq find_mock_mem by simp
    have "mock_applies c k"
    proof (rule ccontr)
      assume no: "\<not> mock_applies c k"
      have "\<not> (\<forall>(k, q)\<in>set m. \<not> mock_applies c k)" using Some find_mock_None [of c m] by simp
      then obtain k' q' where "(k', q') \<in> set m" "mock_applies c k'" by blast
      from find_mock_specific [OF sorted Some [unfolded kq] this] no show False by blast
    qed
    with mem find_mock_specific [OF sorted Some [unfolded kq]] show ?thesis by (auto simp: Some kq)
  qed
qed

theorem mock_most_specific_witness:
  "\<exists>rs s m k q. run mock_step [MockCalls 7 [1] None [[9]] False, MockCalls 7 [1, 2] None [[8]] False,
       MockCalls 7 [1] (Some 0) [[7]] False] new_Cheatcodes = Some (rs, s) \<and>
     hm_get (mocked_calls s) 7 = Some m \<and> find_mock (sample_call 7 [1, 2, 3]) m = Some (k, q) \<and>
     mock_applies (sample_call 7 [1, 2, 3]) k \<and> prefix [1] (calldata k)"
proof -
  let ?es = "[MockCalls 7 [1] None [[9]] False, MockCalls 7 [1, 2] None [[8]] False, MockCalls 7 [1] (Some 0) [[7]] False]"
  let ?s = "mock_calls (mock_calls (mock_calls (new_Cheatcodes :: bool Cheatcodes) 7 [1] None [[9]] False) 7 [1, 2] None [[8]] False)
    7 [1] (Some 0) [[7]] False"
  let ?c = "sample_call 7 [1, 2, 3]"
  have r: "run mock_step ?es new_Cheatcodes = Some ([None, None, None], ?s)" by simp
  have "hm_get (mocked_calls ?s) (bytecode_address ?c) \<noteq> None" by code_simp
  then obtain m where m: "hm_get (mocked_calls ?s) (bytecode_address ?c) = Some m" by auto
  have "(case hm_get (mocked_calls ?s) (bytecode_address ?c) of None \<Rightarrow> False | Some m \<Rightarrow>
      list_ex (\<lambda>(k, q). k = \<lparr>calldata = [1], mock_value = None\<rparr> \<and> mock_applies ?c k) m)" by code_simp
  then obtain k' q' where k': "(k', q') \<in> set m" "mock_applies ?c k'" "calldata k' = [1]"
    unfolding m by (auto simp: list_ex_iff)
  have "find_mock ?c m \<noteq> None" using k' by (auto simp: find_mock_None)
  then obtain k q where kq: "find_mock ?c m = Some (k, q)" by auto
  from mock_most_specific [OF r m] have "mock_applies ?c k"
    "\<forall>(k', q')\<in>set m. mock_applies ?c k' \<longrightarrow> prefix (calldata k') (calldata k) \<and>
           (calldata k' = calldata k \<longrightarrow> mock_value k' \<le> mock_value k)"
    unfolding kq option.case prod.case by blast+
  moreover from this(2) k' have "prefix [1] (calldata k)" by fastforce
  moreover have "bytecode_address ?c = 7" by (simp add: sample_call_def)
  ultimately show ?thesis using r m kq by (intro exI conjI) simp_all
qed

section \<open>A queue of answers\<close>

lemma find_map_fst:
  "map fst m' = map fst m \<Longrightarrow> map_option fst (find (\<lambda>(k, _). P k) m') = map_option fst (find (\<lambda>(k, _). P k) m)"
proof (induction m arbitrary: m')
  case (Cons p m)
  then obtain p' ms where "m' = p' # ms" "fst p' = fst p" "map fst ms = map fst m" by (cases m') auto
  with Cons.IH show ?case by (cases p; cases p') simp
qed simp

lemma find_mock_fst:
  assumes "map fst m' = map fst m"
  shows "map_option fst (find_mock c m') = map_option fst (find_mock c m)"
proof -
  let ?ctx = "\<lparr>calldata = input c, mock_value = transfer_value c\<rparr>"
  have same: "map_of m' ?ctx = None \<longleftrightarrow> map_of m ?ctx = None"
    using assms unfolding map_of_eq_None_iff by (metis list.set_map)
  show ?thesis
  proof (cases "map_of m ?ctx")
    case None
    with same find_map_fst [OF assms, of "mock_applies c"] show ?thesis by (simp add: find_mock_def)
  next
    case (Some q)
    with same obtain q' where "map_of m' ?ctx = Some q'" by auto
    with Some show ?thesis by (simp add: find_mock_def)
  qed
qed

lemma find_mock_queue:
  assumes "mocks_sorted m" and "find_mock c m = Some (k, q)"
  shows "find_mock c (hm_insert k rest m) = Some (k, rest)" and "mocks_sorted (hm_insert k rest m)"
proof -
  have mem: "map_of m k = Some q"
    using mocks_sorted_distinct [OF assms(1)] find_mock_mem [OF assms(2)] by simp
  have keys: "map fst (hm_insert k rest m) = map fst m" by (rule keys_update_mem [OF mem])
  then show sorted: "mocks_sorted (hm_insert k rest m)" using assms(1) by (simp add: mocks_sorted_def)
  obtain q' where q': "find_mock c (hm_insert k rest m) = Some (k, q')"
    using find_mock_fst [OF keys, of c] assms(2) by (cases "find_mock c (hm_insert k rest m)") auto
  have "map_of (hm_insert k rest m) k = Some q'"
    using mocks_sorted_distinct [OF sorted] find_mock_mem [OF q'] by simp
  with q' show "find_mock c (hm_insert k rest m) = Some (k, rest)" by (simp add: cont_simps)
qed

text \<open>A mock with several answers gives them in order, one per call, and then repeats the last one
  for ever: however often the call is made, it never runs out.\<close>

theorem mock_answers_in_order:
  assumes "tables_sorted s" and "hm_get (mocked_calls s) (bytecode_address c) = Some m"
    and "find_mock c m = Some (k, q)" and "q \<noteq> []"
  shows "\<exists>s'. run mock_step (replicate n (CallMade c)) s =
    Some (map (\<lambda>i. Some (q ! min i (length q - 1))) [0..<n], s')"
  using assms
proof (induction n arbitrary: s m q)
  case (Suc n)
  have sorted: "mocks_sorted m" using Suc.prems(1,2) by (rule tables_sorted_get)
  obtain r rest where q: "q = r # rest" using Suc.prems(4) by (cases q) auto
  have shift: "map (\<lambda>i. Some (q ! min i (length q - 1))) [0..<Suc n] =
      Some r # map (\<lambda>i. Some (q ! min (Suc i) (length q - 1))) [0..<n]"
    unfolding map_upt_Suc q by simp
  show ?case
  proof (cases rest)
    case Nil
    with q Suc.prems have "mock_step (CallMade c) s = Some (Some r, s)" by (simp add: call_mocked_def)
    with Suc.IH [OF Suc.prems] Nil show ?thesis unfolding shift by (auto simp: q)
  next
    case (Cons r2 more)
    let ?m = "hm_insert k rest m"
    let ?s = "s\<lparr>mocked_calls := hm_insert (bytecode_address c) ?m (mocked_calls s)\<rparr>"
    have step: "mock_step (CallMade c) s = Some (Some r, ?s)"
      using q Cons Suc.prems by (simp add: call_mocked_def)
    have "tables_sorted ?s"
      using Suc.prems(1) find_mock_queue(2) [OF sorted Suc.prems(3)] by (rule tables_sorted_insert)
    moreover have "hm_get (mocked_calls ?s) (bytecode_address c) = Some ?m" by (simp add: cont_simps)
    ultimately obtain s' where s': "run mock_step (replicate n (CallMade c)) ?s =
        Some (map (\<lambda>i. Some (rest ! min i (length rest - 1))) [0..<n], s')"
      using Suc.IH [of ?s ?m rest] find_mock_queue(1) [OF sorted Suc.prems(3)] Cons by auto
    have "map (\<lambda>i. Some (rest ! min i (length rest - 1))) [0..<n] =
        map (\<lambda>i. Some (q ! min (Suc i) (length q - 1))) [0..<n]"
      using Cons by (simp add: q)
    with step s' show ?thesis unfolding shift by simp
  qed
qed simp

theorem mock_answers_in_order_witness:
  "\<exists>s'. run mock_step (replicate 4 (CallMade (sample_call 7 [1, 2]))) (mock_calls (new_Cheatcodes :: bool Cheatcodes) 7 [1] None [[9], [8]] False) =
     Some ([Some \<lparr>ret_type = False, ret_data = [9]\<rparr>, Some \<lparr>ret_type = False, ret_data = [8]\<rparr>,
            Some \<lparr>ret_type = False, ret_data = [8]\<rparr>, Some \<lparr>ret_type = False, ret_data = [8]\<rparr>], s')"
proof -
  let ?s = "mock_calls (new_Cheatcodes :: bool Cheatcodes) 7 [1] None [[9], [8]] False"
  let ?c = "sample_call 7 [1, 2]" and ?k = "\<lparr>calldata = [1], mock_value = None\<rparr>"
  let ?q = "[\<lparr>ret_type = False, ret_data = [9]\<rparr>, \<lparr>ret_type = False, ret_data = [8]\<rparr>]"
  have sorted: "tables_sorted ?s" by (rule mock_calls_sorted) (simp add: tables_sorted_def new_Cheatcodes_def)
  have m: "hm_get (mocked_calls ?s) (bytecode_address ?c) = Some [(?k, ?q)]" by code_simp
  have f: "find_mock ?c [(?k, ?q)] = Some (?k, ?q)" by code_simp
  have outs: "map (\<lambda>i. Some (?q ! min i (length ?q - 1))) [0..<4] =
      [Some \<lparr>ret_type = False, ret_data = [9]\<rparr>, Some \<lparr>ret_type = False, ret_data = [8]\<rparr>,
       Some \<lparr>ret_type = False, ret_data = [8]\<rparr>, Some \<lparr>ret_type = False, ret_data = [8]\<rparr>]" by code_simp
  from mock_answers_in_order [OF sorted m f, of 4] show ?thesis unfolding outs by simp
qed

section \<open>Pranks\<close>

text \<open>A prank changes exactly one call: once \<open>vm.prank(sender, origin)\<close> succeeded, the next call made
  by the same contract at the same depth has the new sender, and the new origin if one was given; when that
  call ends, the origin is what it was when the prank was set and no prank is left, so that a later call
  is not changed. The call is otherwise as it was.\<close>

theorem prank_changes_one_call:
  assumes set: "prank_impl code env who sender origin True False s = (None, s1)"
    and call: "caller c = who" "journal_depth env1 = journal_depth env"
    and hook: "call_prank c env1 s1 = (c', env2, s2)"
    and fin: "end_prank (env3\<lparr>journal_depth := journal_depth env\<rparr>) s2 = (env4, s3)"
  shows "c' = c\<lparr>caller := sender\<rparr> \<and>
    tx_caller env2 = (case origin of None \<Rightarrow> tx_caller env1 | Some a \<Rightarrow> a) \<and>
    tx_caller env4 = tx_caller env \<and> prank s3 = None \<and> call_prank d env5 s3 = (d, env5, s3)"
proof -
  let ?p = "new_Prank who (tx_caller env) sender origin (journal_depth env) True False"
  have s1: "s1 = s\<lparr>prank := Some ?p\<rparr>"
    using set by (auto simp: prank_impl_def split: option.splits if_splits)
  have hooked: "c' = c\<lparr>caller := sender\<rparr>" "env2 = (case origin of None \<Rightarrow> env1 | Some a \<Rightarrow> env1\<lparr>tx_caller := a\<rparr>)"
    "s2 = s1\<lparr>prank := Some (?p\<lparr>used := True\<rparr>)\<rparr>"
    using hook call by (auto simp: call_prank_def s1 new_Prank_def first_time_applied_def Let_def split: option.splits)
  have "env4 = env3\<lparr>journal_depth := journal_depth env, tx_caller := tx_caller env\<rparr>" "s3 = s2\<lparr>prank := None\<rparr>"
    using fin by (auto simp: end_prank_def hooked(3) new_Prank_def)
  with hooked show ?thesis by (auto simp: call_prank_def split: option.splits)
qed

theorem prank_changes_one_call_witness:
  "\<exists>s1 c' env2 s2 env4 s3.
     prank_impl (\<lambda>_. Inr []) \<lparr>tx_caller = 5, journal_depth = 1\<rparr> 1 42 (Some 43) True False (new_Cheatcodes :: unit Cheatcodes) = (None, s1) \<and>
     call_prank (sample_call 7 []) \<lparr>tx_caller = 5, journal_depth = 1\<rparr> s1 = (c', env2, s2) \<and>
     end_prank (env2\<lparr>journal_depth := 1\<rparr>) s2 = (env4, s3) \<and>
     caller c' = 42 \<and> tx_caller env2 = 43 \<and> tx_caller env4 = 5 \<and> prank s3 = None"
proof -
  let ?env = "\<lparr>tx_caller = 5, journal_depth = 1\<rparr>" and ?c = "sample_call 7 []"
  obtain s1 where s1: "prank_impl (\<lambda>_. Inr []) ?env 1 42 (Some 43) True False (new_Cheatcodes :: unit Cheatcodes) = (None, s1)"
    by (simp add: prank_impl_def new_Cheatcodes_def)
  obtain c' env2 s2 where hook: "call_prank ?c ?env s1 = (c', env2, s2)" by (metis prod_cases3)
  obtain env4 s3 where fin: "end_prank (env2\<lparr>journal_depth := journal_depth ?env\<rparr>) s2 = (env4, s3)" by (metis surj_pair)
  have "caller ?c = 1" "journal_depth ?env = journal_depth ?env" by (simp_all add: sample_call_def)
  from prank_changes_one_call [OF s1 this hook fin] s1 hook fin show ?thesis
    by (intro exI conjI) auto
qed

text \<open>A prank that was only applied to a contract creation still counts as unused: after \<open>startPrank\<close>
  and a creation that was made in the name of the new sender, setting another prank fails, as if
  the first one had never been applied; after a call it succeeds.\<close>

theorem prank_on_create_unused:
  assumes "prank_impl code env who sender None False False s = (None, s1)"
  shows "create_prank who env s1 = (sender, env) \<and>
    (let (env', s2) = end_prank env s1
     in prank_impl code env' who other None False False s2 = (Some PrankUnused, s2)) \<and>
    (caller c = who \<longrightarrow>
      (let (c', env', s2) = call_prank c env s1; (env'', s3) = end_prank env' s2
       in fst (prank_impl code env'' who other None False False s3) = None))"
proof -
  let ?p = "new_Prank who (tx_caller env) sender None (journal_depth env) False False"
  have s1: "s1 = s\<lparr>prank := Some ?p\<rparr>" and nb: "broadcast s = None"
    using assms by (auto simp: prank_impl_def split: option.splits if_splits)
  show ?thesis
    using nb by (simp add: s1 create_prank_def end_prank_def prank_impl_def call_prank_def first_time_applied_def new_Prank_def Let_def)
qed

theorem prank_on_create_unused_witness:
  "\<exists>s1. prank_impl (\<lambda>_. Inr []) \<lparr>tx_caller = 5, journal_depth = 1\<rparr> 1 42 None False False (new_Cheatcodes :: unit Cheatcodes) = (None, s1) \<and>
     create_prank 1 \<lparr>tx_caller = 5, journal_depth = 1\<rparr> s1 = (42, \<lparr>tx_caller = 5, journal_depth = 1\<rparr>)"
proof -
  let ?env = "\<lparr>tx_caller = 5, journal_depth = 1\<rparr>"
  obtain s1 where s1: "prank_impl (\<lambda>_. Inr []) ?env 1 42 None False False (new_Cheatcodes :: unit Cheatcodes) = (None, s1)"
    by (simp add: prank_impl_def new_Cheatcodes_def)
  from prank_on_create_unused [OF s1, of 6 "sample_call 7 []"] s1 show ?thesis by blast
qed

end
