(* ===== verification/Spec2Isabelle.thy ===== *)
theory Spec2Isabelle
  imports Anvil_TxEnv Anvil_Miner Cov_Anchors Cov_Lcov Cheat_Memory
begin

text \<open>
  Foundry is a toolkit for Ethereum development in Rust. This library models three of its parts: the
  local node \<open>anvil\<close> (\<open>src/crates/anvil\<close>), the coverage analysis of \<open>forge\<close>
  (\<open>src/crates/evm/coverage\<close>, \<open>src/crates/evm/core/src/ic.rs\<close>, \<open>src/crates/forge/src/coverage.rs\<close>) and the
  expectation, mock and prank cheatcodes (\<open>src/crates/cheatcodes\<close>).

  \<^bold>\<open>How the parts work together.\<close> A transaction that reaches the node by RPC is validated and put into the
  pool, where it is ready or waits for another one. The service polls the miner, which picks ready
  transactions in the order of their priority; the backend executes them, builds a block, stores it with
  its receipts, moves the clock and the fees on and keeps the state before the block; the pool is
  then pruned by what was mined. Snapshots, rollbacks and reorganisations take the chain and the database
  back. Coverage and cheatcodes are inspectors of the virtual machine: they see every instruction, call and log
  of a test.

  \<^bold>\<open>Conventions\<close> (\<open>Foundry_Prelude\<close>). A struct is a record, an enum a datatype, with the names of the
  sources; a function takes the state and returns it. A panic, an overflow of checked
  arithmetic and a loop without end are \<open>None\<close>; \<open>Result\<close> is a sum with the error on the left. Integers
  have their width, \<open>usize\<close> is \<open>nat\<close>, wrapping and saturating operations are written out. A hash map is
  an association list, and where the code depends on its unspecified order the order is an argument
  (locale \<open>hash_order\<close>). What is not in the repository (\<open>revm\<close>, hashing and signatures, \<open>alloy\<close>'s fee
  formulas, floating point, syntax trees, channels, the wall clock, the timing of tasks) is an argument,
  bundled in the records \<open>evm_ops\<close>, \<open>cache_ops\<close>, \<open>tx_crypto\<close>, \<open>chain_hashing\<close>, \<open>fee_calc\<close>, \<open>float_ops\<close>,
  \<open>spec_ids\<close>, \<open>element_api\<close> and \<open>node_params\<close>; what a theorem needs of it is a named hypothesis, and its witness
  instantiates it. The prelude also has the machines \<open>run\<close> and the locales \<open>invariant_machine\<close>,
  \<open>counted_machine\<close> and \<open>safe_machine\<close>, which carry an invariant through any sequence of calls.

  \<^bold>\<open>The node.\<close>
  \<^item> \<open>Anvil_Time\<close>: \<open>TimeManager\<close> of \<open>eth/backend/time.rs\<close>. Timestamps never run backwards, over any sequence
    of calls (locale \<open>block_clock\<close>); a requested timestamp is used.
  \<^item> \<open>Anvil_Tx\<close>, \<open>Anvil_TxEnv\<close>: typed transactions, their accessors and costs, and the conversions to a request
    and to the environment of the virtual machine (\<open>core/src/eth/transaction/mod.rs\<close>).
  \<^item> \<open>Anvil_Block\<close>: headers, blocks, receipts and block environments (\<open>core/src/eth/block.rs\<close>).
  \<^item> \<open>Anvil_Fees\<close>: the fee manager, the fee history cache and \<open>fee_history\<close> (\<open>eth/fees.rs\<close>, \<open>eth/api.rs\<close>). The
    cache is a window of the chain; rewards are sorted.
  \<^item> \<open>Anvil_Chain\<close>: \<open>BlockchainStorage\<close> (\<open>eth/backend/mem/storage.rs\<close>) and what mining and reverting do to
    it. The chain stays linked (\<open>chain_ok\<close>), reverting undoes storing, dumps can be loaded again.
  \<^item> \<open>Anvil_Db\<close>: \<open>MemDb\<close>, its numbered snapshots and dumps (\<open>eth/backend/db.rs\<close>, \<open>eth/backend/mem/in_memory_db.rs\<close>,
    \<open>evm/core/src/state_snapshot.rs\<close>). A snapshot brings the contents back, whatever happened since.
  \<^item> \<open>Anvil_States\<close>: the cache of historical states and its disk cache (\<open>eth/backend/mem/storage.rs\<close>,
    \<open>eth/backend/mem/cache.rs\<close>). It is bounded, an evicted state is read back, and the eviction ends except for
    a limit of zero.
  \<^item> \<open>Anvil_Validate\<close>, \<open>Anvil_Exec\<close>: the validator (\<open>eth/backend/mem/mod.rs\<close>) and the executor of blocks
    (\<open>eth/backend/executor.rs\<close>). Blocks keep to their gas limits and agree with their receipts.
  \<^item> \<open>Pool_Types\<close>, \<open>Pool_Pending\<close>, \<open>Pool_Ready\<close>, \<open>Pool_Iter\<close>, \<open>Anvil_Pool\<close>: the pool (\<open>eth/pool\<close>), its waiting and its
    ready half, the iterator that offers transactions, and every call of \<open>Pool\<close>; \<open>Pool_Ready_Inv\<close>, \<open>Pool_Links\<close>
    and \<open>Pool_Safety\<close> show that no sequence of calls with transactions of the RPC layer breaks an index,
    panics or loses a transaction, and that everything ready is offered.
  \<^item> \<open>Anvil_Backend\<close>, \<open>Anvil_Reach\<close>: the backend (\<open>eth/backend/mem/mod.rs\<close>, \<open>eth/backend/genesis.rs\<close>), which composes
    the theories above: genesis, \<open>do_mine_block\<close>, snapshots, \<open>rollback\<close>, \<open>reorg\<close>, block lookups. Its calls
    are the rules of the step relation \<open>backend_step\<close>; the chain of every reachable backend is linked, reverts
    undo mining, reorganisations rebuild, and a stale snapshot breaks the chain.
  \<^item> \<open>Anvil_Miner\<close>: the mining modes and the service loop (\<open>eth/miner.rs\<close>, \<open>service.rs\<close>). Pool and chain stay
    sound together under any interleaving of calls and turns; a full batch is queued again and again.

  \<^bold>\<open>Coverage.\<close> \<open>Cov_Ic\<close> (the maps between program counters and instruction counters), \<open>Cov_Hits\<close> (hit maps and
  the collector: every executed instruction is counted once), \<open>Cov_Report\<close> (items, summaries, the source analysis and
  the report), \<open>Cov_Anchors\<close> (the instruction that stands for an item) and \<open>Cov_Lcov\<close> (the LCOV reporter).

  \<^bold>\<open>Cheatcodes.\<close> \<open>Cheat_State\<close> (the state of the inspector), \<open>Cheat_Expect\<close> (\<open>expectCall\<close>, \<open>expectEmit\<close> and the
  rest of \<open>test/expect.rs\<close>), \<open>Cheat_Revert\<close> (expected and assumed reverts), \<open>Cheat_Calls\<close> (mocks, pranks and
  what the inspector does around a call) and \<open>Cheat_Memory\<close> (safe memory). Expected calls and logs are
  matched as they are documented, the most specific mock answers, a prank changes one call.

  \<^bold>\<open>Bounds and fuel.\<close> Recursion follows the data, or a measure that a \<open>termination\<close> proof gives. Two loops of
  the sources need not end: collecting the iterator of the pool (\<open>drain\<close>) and the eviction of states
  (\<open>evict_memory\<close>); they are \<open>partial_function\<close>s, and it is proved when they return. The turns of the service
  are a list, one entry for each time the runtime polls, so that no fuel is needed. The counters of the
  pool, of blocks and of snapshots have 64 or 256 bits; theorems that count assume that they do not
  run out.

  \<^bold>\<open>Not modelled.\<close> Forks of a remote chain (\<open>eth/backend/fork.rs\<close>) and the multi-fork backend of \<open>forge\<close>: every read is
  a request to another node. The RPC surface (\<open>eth/api.rs\<close>, \<open>pubsub.rs\<close>, \<open>filter.rs\<close>, \<open>otterscan\<close>, \<open>server\<close>, \<open>rpc\<close>)
  apart from the functions named above: decoding of requests and network I/O. Tracing, the debugger and
  the decoders: they print what \<open>revm\<close> recorded. The calls of the backend on pending state, logs and
  proofs, and the odyssey wallet. The parsing of Solidity and of configuration, the formatter, the
  documentation generator, \<open>cast\<close>, \<open>chisel\<close>, scripts, verification, wallets and the command line: they are
  built on parsers, compilers, files and services that are not in the repository. The cheatcodes
  that read files, environment variables, JSON or run programs, the fuzzer and the invariant runner. Locks and
  logging are left out: an operation that holds a lock is one step.
\<close>

end
